(* ===== verification/Prelude.thy ===== *)
theory Prelude
  imports Main "HOL-Library.Word" "HOL-Library.Monad_Syntax"
begin

text \<open>
  Shared vocabulary of the development.

  \<^item> Machine data: a byte is an \<open>8 word\<close>; wider unsigned integers are natural numbers, and
    every place where the C arithmetic can leave its width applies \<open>u8\<close>, \<open>u16\<close>, \<open>u32\<close> or
    \<open>u64\<close>, the reduction modulo the width.
  \<^item> Packed structures: the kernel overlays packed C structs on byte buffers.  \<open>get16\<close>,
    \<open>get32\<close>, \<open>put16\<close>, \<open>put32\<close> are the little-endian field accesses, \<open>blit\<close> is a
    \<open>memcpy\<close> into a buffer and \<open>slice\<close> one out of it.
  \<^item> Outcomes: a kernel operation that never comes back (a \<open>halt()\<close>, an endless loop, an
    access outside its buffer) is the value \<open>None\<close> of an option; C status codes are ordinary
    return values.
  \<^item> Search loops: \<open>first_from P lo hi\<close> is the loop
    \<open>for (j = lo; j < hi; j++) if (P j) return j;\<close>, which most allocators of the kernel use.
\<close>

section \<open>Machine integers\<close>

type_synonym byte = "8 word"

definition u8 :: "nat \<Rightarrow> nat" where "u8 x = x mod 256"
definition u16 :: "nat \<Rightarrow> nat" where "u16 x = x mod 65536"
definition u32 :: "nat \<Rightarrow> nat" where "u32 x = x mod 4294967296"
definition u64 :: "nat \<Rightarrow> nat" where "u64 x = x mod 18446744073709551616"

text \<open>\<open>(uint32_t)-1\<close>, the error value of the functions that return block or inode numbers.\<close>

definition NEG1 :: nat where "NEG1 = 4294967295"

text \<open>Unsigned subtraction at 16 and 32 bits; the operands are in range.\<close>

definition sub16 :: "nat \<Rightarrow> nat \<Rightarrow> nat" where
  "sub16 a b = u16 (a + (65536 - u16 b))"

definition sub32 :: "nat \<Rightarrow> nat \<Rightarrow> nat" where
  "sub32 a b = u32 (a + (4294967296 - u32 b))"

named_theorems width \<open>facts that discharge the width reductions\<close>

lemma u8_less [simp, intro]: "u8 x < 256" by (simp add: u8_def)
lemma u16_less [simp, intro]: "u16 x < 65536" by (simp add: u16_def)
lemma u32_less [simp, intro]: "u32 x < 4294967296" by (simp add: u32_def)
lemma u64_less [simp, intro]: "u64 x < 18446744073709551616" by (simp add: u64_def)

lemma u8_id [width]: "x < 256 \<Longrightarrow> u8 x = x" by (simp add: u8_def)
lemma u16_id [width]: "x < 65536 \<Longrightarrow> u16 x = x" by (simp add: u16_def)
lemma u32_id [width]: "x < 4294967296 \<Longrightarrow> u32 x = x" by (simp add: u32_def)
lemma u64_id [width]: "x < 18446744073709551616 \<Longrightarrow> u64 x = x" by (simp add: u64_def)

lemma sub16_id [width]: "b \<le> a \<Longrightarrow> a < 65536 \<Longrightarrow> sub16 a b = a - b"
  by (simp add: sub16_def u16_def mod_if)

lemma sub32_id [width]: "b \<le> a \<Longrightarrow> a < 4294967296 \<Longrightarrow> sub32 a b = a - b"
  by (simp add: sub32_def u32_def mod_if)

lemma unat_byte_less [simp, intro]: "unat (b :: byte) < 256"
  using unsigned_less [of b, where ?'a = nat] by simp

lemma unat_of_nat_byte: "unat (word_of_nat n :: byte) = n mod 256"
  by (simp add: unat_of_nat)

section \<open>Little-endian fields of packed structures\<close>

definition get16 :: "byte list \<Rightarrow> nat \<Rightarrow> nat" where
  "get16 b i = unat (b ! i) + 256 * unat (b ! (i + 1))"

definition get32 :: "byte list \<Rightarrow> nat \<Rightarrow> nat" where
  "get32 b i = unat (b ! i) + 256 * unat (b ! (i + 1)) + 65536 * unat (b ! (i + 2))
     + 16777216 * unat (b ! (i + 3))"

definition put16 :: "byte list \<Rightarrow> nat \<Rightarrow> nat \<Rightarrow> byte list" where
  "put16 b i v = b[i := word_of_nat v, i + 1 := word_of_nat (v div 256)]"

definition put32 :: "byte list \<Rightarrow> nat \<Rightarrow> nat \<Rightarrow> byte list" where
  "put32 b i v = b[i := word_of_nat v, i + 1 := word_of_nat (v div 256),
     i + 2 := word_of_nat (v div 65536), i + 3 := word_of_nat (v div 16777216)]"

named_theorems overlay \<open>reading a field of a buffer after a write to it\<close>

lemma length_put16 [simp]: "length (put16 b i v) = length b"
  by (simp add: put16_def)

lemma length_put32 [simp]: "length (put32 b i v) = length b"
  by (simp add: put32_def)

lemma get16_less [simp, intro]: "get16 b i < 65536"
proof -
  have "unat (b ! i) < 256" "unat (b ! (i + 1)) < 256" by (rule unat_byte_less)+
  then show ?thesis unfolding get16_def by linarith
qed

lemma get32_less [simp, intro]: "get32 b i < 4294967296"
proof -
  have "unat (b ! i) < 256" "unat (b ! (i + 1)) < 256"
    "unat (b ! (i + 2)) < 256" "unat (b ! (i + 3)) < 256" by (rule unat_byte_less)+
  then show ?thesis unfolding get32_def by linarith
qed

lemma bytes_of_nat2: "(v :: nat) mod 256 + 256 * (v div 256 mod 256) = v mod 65536"
  using mod_mult2_eq [of v 256 256] by simp

lemma bytes_of_nat4:
  "(v :: nat) mod 256 + 256 * (v div 256 mod 256) + 65536 * (v div 65536 mod 256)
     + 16777216 * (v div 16777216 mod 256) = v mod 4294967296"
proof -
  have "v mod 16777216 = v mod 65536 + 65536 * (v div 65536 mod 256)"
    using mod_mult2_eq [of v 65536 256] by simp
  moreover have "v mod 4294967296 = v mod 16777216 + 16777216 * (v div 16777216 mod 256)"
    using mod_mult2_eq [of v 16777216 256] by simp
  ultimately show ?thesis using bytes_of_nat2 [of v] by simp
qed

lemma get16_put16 [overlay]: "i + 2 \<le> length b \<Longrightarrow> get16 (put16 b i v) i = u16 v"
  by (simp add: get16_def put16_def unat_of_nat_byte bytes_of_nat2 u16_def)

lemma get32_put32 [overlay]: "i + 4 \<le> length b \<Longrightarrow> get32 (put32 b i v) i = u32 v"
  by (simp add: get32_def put32_def nth_list_update unat_of_nat_byte bytes_of_nat4 u32_def)

lemma get16_put16_other [overlay]:
  "j + 2 \<le> i \<or> i + 2 \<le> j \<Longrightarrow> get16 (put16 b i v) j = get16 b j"
  by (auto simp: get16_def put16_def nth_list_update)

lemma get32_put32_other [overlay]:
  "j + 4 \<le> i \<or> i + 4 \<le> j \<Longrightarrow> get32 (put32 b i v) j = get32 b j"
  by (auto simp: get32_def put32_def nth_list_update)

lemma get16_put32_other [overlay]:
  "j + 2 \<le> i \<or> i + 4 \<le> j \<Longrightarrow> get16 (put32 b i v) j = get16 b j"
  by (auto simp: get16_def put32_def nth_list_update)

lemma get32_put16_other [overlay]:
  "j + 4 \<le> i \<or> i + 2 \<le> j \<Longrightarrow> get32 (put16 b i v) j = get32 b j"
  by (auto simp: get32_def put16_def nth_list_update)

lemma nth_put16_other [overlay]: "j < i \<or> i + 2 \<le> j \<Longrightarrow> put16 b i v ! j = b ! j"
  by (auto simp: put16_def nth_list_update)

lemma nth_put32_other [overlay]: "j < i \<or> i + 4 \<le> j \<Longrightarrow> put32 b i v ! j = b ! j"
  by (auto simp: put32_def nth_list_update)

lemma get32_upd_other [overlay]: "j < i \<or> i + 4 \<le> j \<Longrightarrow> get32 (b[j := x]) i = get32 b i"
  by (auto simp: get32_def nth_list_update)

lemma get16_upd_other [overlay]: "j < i \<or> i + 2 \<le> j \<Longrightarrow> get16 (b[j := x]) i = get16 b i"
  by (auto simp: get16_def nth_list_update)

section \<open>Copies into and out of buffers\<close>

definition slice :: "'a list \<Rightarrow> nat \<Rightarrow> nat \<Rightarrow> 'a list" where
  "slice b i n = take n (drop i b)"

definition blit :: "'a list \<Rightarrow> nat \<Rightarrow> 'a list \<Rightarrow> 'a list" where
  "blit b i d = take i b @ d @ drop (i + length d) b"

lemma length_slice [simp]: "i + n \<le> length b \<Longrightarrow> length (slice b i n) = n"
  by (simp add: slice_def)

lemma nth_slice [simp]: "i + n \<le> length b \<Longrightarrow> k < n \<Longrightarrow> slice b i n ! k = b ! (i + k)"
  by (simp add: slice_def)

lemma length_blit [simp]: "i + length d \<le> length b \<Longrightarrow> length (blit b i d) = length b"
  by (simp add: blit_def)

lemma nth_blit:
  "i + length d \<le> length b \<Longrightarrow> k < length b \<Longrightarrow>
     blit b i d ! k = (if i \<le> k \<and> k < i + length d then d ! (k - i) else b ! k)"
  by (auto simp: blit_def nth_append min_def)

lemma slice_blit_same [overlay]: "i + length d \<le> length b \<Longrightarrow> n = length d \<Longrightarrow> slice (blit b i d) i n = d"
  by (simp add: slice_def blit_def)

lemma nth_blit_other [overlay]:
  "i + length d \<le> length b \<Longrightarrow> k < length b \<Longrightarrow> k < i \<or> i + length d \<le> k \<Longrightarrow> blit b i d ! k = b ! k"
  by (auto simp: nth_blit)

lemma get16_blit_other [overlay]:
  "i + length d \<le> length b \<Longrightarrow> j + 2 \<le> length b \<Longrightarrow> j + 2 \<le> i \<or> i + length d \<le> j \<Longrightarrow>
     get16 (blit b i d) j = get16 b j"
  by (auto simp: get16_def nth_blit_other)

lemma get32_blit_other [overlay]:
  "i + length d \<le> length b \<Longrightarrow> j + 4 \<le> length b \<Longrightarrow> j + 4 \<le> i \<or> i + length d \<le> j \<Longrightarrow>
     get32 (blit b i d) j = get32 b j"
  by (auto simp: get32_def nth_blit_other)

text \<open>Cutting a buffer into equal pieces and putting the pieces together again.\<close>

lemma concat_slices: "length b = n * k \<Longrightarrow> concat (map (\<lambda>i. slice b (n * i) n) [0..<k]) = b"
proof (induction k arbitrary: b)
  case (Suc k)
  have m: "map (\<lambda>i. slice b (n * i) n) [0..<k] = map (\<lambda>i. slice (take (n * k) b) (n * i) n) [0..<k]"
  proof (rule map_cong [OF refl])
    fix i assume "i \<in> set [0..<k]"
    then have "n * i + n \<le> n * k" using mult_le_mono2 [of "Suc i" k n] by simp
    then show "slice b (n * i) n = slice (take (n * k) b) (n * i) n"
      by (simp add: slice_def take_drop min_def)
  qed
  have "concat (map (\<lambda>i. slice b (n * i) n) [0..<k]) = take (n * k) b"
    unfolding m using Suc.IH [of "take (n * k) b"] Suc.prems by simp
  moreover have "slice b (n * k) n = drop (n * k) b" using Suc.prems by (simp add: slice_def)
  ultimately show ?case by simp
qed simp

lemma map_upt_shift: "map f [a..<a + n] = map (\<lambda>i. f (a + i)) [0..<n]"
  by (induction n) auto

lemma length_concat_eq: "(\<And>x. x \<in> set xs \<Longrightarrow> length (f x) = n) \<Longrightarrow> length (concat (map f xs)) = n * length xs"
  by (induction xs) auto

section \<open>Search loops\<close>

function first_from :: "(nat \<Rightarrow> bool) \<Rightarrow> nat \<Rightarrow> nat \<Rightarrow> nat option" where
  "first_from P lo hi =
     (if hi \<le> lo then None else if P lo then Some lo else first_from P (Suc lo) hi)"
  by pat_completeness auto
termination
  by (relation "measure (\<lambda>(P, lo, hi). hi - lo)") auto

declare first_from.simps [simp del]

lemma first_from_SomeD:
  "first_from P lo hi = Some j \<Longrightarrow> lo \<le> j \<and> j < hi \<and> P j \<and> (\<forall>k. lo \<le> k \<and> k < j \<longrightarrow> \<not> P k)"
proof (induction P lo hi rule: first_from.induct)
  case (1 P lo hi)
  show ?case
  proof (cases "P lo")
    case True
    with "1.prems" show ?thesis by (auto simp: first_from.simps [of P lo hi] split: if_splits)
  next
    case False
    with "1.prems" have lt: "\<not> hi \<le> lo" and rec: "first_from P (Suc lo) hi = Some j"
      by (simp_all add: first_from.simps [of P lo hi] split: if_splits)
    from "1.IH" [OF lt False rec] False show ?thesis
      by (metis Suc_leD Suc_leI le_neq_implies_less)
  qed
qed

lemma first_from_None_iff: "first_from P lo hi = None \<longleftrightarrow> (\<forall>k. lo \<le> k \<and> k < hi \<longrightarrow> \<not> P k)"
proof (induction P lo hi rule: first_from.induct)
  case (1 P lo hi)
  show ?case
  proof (cases "hi \<le> lo \<or> P lo")
    case True
    then show ?thesis by (subst first_from.simps) auto
  next
    case False
    then have "first_from P (Suc lo) hi = None \<longleftrightarrow> (\<forall>k. Suc lo \<le> k \<and> k < hi \<longrightarrow> \<not> P k)"
      using "1.IH" by simp
    with False show ?thesis
      by (subst first_from.simps) (auto, metis Suc_leI le_neq_implies_less)
  qed
qed

lemma first_from_ex: "lo \<le> k \<Longrightarrow> k < hi \<Longrightarrow> P k \<Longrightarrow> \<exists>j. first_from P lo hi = Some j"
  using first_from_None_iff [of P lo hi] by fastforce

lemma first_from_SomeI:
  assumes "lo \<le> j" "j < hi" "P j" "\<And>k. lo \<le> k \<Longrightarrow> k < j \<Longrightarrow> \<not> P k"
  shows "first_from P lo hi = Some j"
proof -
  obtain i where i: "first_from P lo hi = Some i" using first_from_ex [of lo j hi P] assms by blast
  from first_from_SomeD [OF i] assms have "i = j" by (meson linorder_neqE_nat)
  with i show ?thesis by simp
qed

lemma first_from_cong:
  assumes "\<And>k. lo \<le> k \<Longrightarrow> k < hi \<Longrightarrow> P k = Q k"
  shows "first_from P lo hi = first_from Q lo hi"
proof (cases "first_from Q lo hi")
  case None
  then have "first_from P lo hi = None" using assms by (simp add: first_from_None_iff)
  with None show ?thesis by simp
next
  case (Some j)
  from first_from_SomeD [OF this] have "first_from P lo hi = Some j"
    using assms by (intro first_from_SomeI) auto
  with Some show ?thesis by simp
qed

section \<open>Counting\<close>

text \<open>The number of indices below \<open>n\<close> that satisfy \<open>P\<close>: free pages, free bits, free slots.\<close>

definition count_upto :: "(nat \<Rightarrow> bool) \<Rightarrow> nat \<Rightarrow> nat" where
  "count_upto P n = card {i. i < n \<and> P i}"

lemma finite_bounded [simp]: "finite {i. i < (n :: nat) \<and> P i}"
  by (rule finite_subset [of _ "{..<n}"]) auto

lemma count_upto_flip_on:
  assumes "j < n" "\<not> P j"
  shows "count_upto (P(j := True)) n = Suc (count_upto P n)"
proof -
  have "{i. i < n \<and> (P(j := True)) i} = insert j {i. i < n \<and> P i}" using assms by auto
  then show ?thesis using assms by (simp add: count_upto_def)
qed

lemma count_upto_flip_off:
  assumes "j < n" "P j"
  shows "Suc (count_upto (P(j := False)) n) = count_upto P n"
  using count_upto_flip_on [of j n "P(j := False)"] assms by (simp add: fun_upd_idem)

lemma count_upto_pos: "0 < count_upto P n \<longleftrightarrow> (\<exists>i<n. P i)"
  by (auto simp: count_upto_def card_gt_0_iff)

lemma count_upto_le: "count_upto P n \<le> n"
  using card_mono [of "{..<n}" "{i. i < n \<and> P i}"] by (auto simp: count_upto_def)

lemma count_upto_cong: "(\<And>i. i < n \<Longrightarrow> P i = Q i) \<Longrightarrow> count_upto P n = count_upto Q n"
  by (auto simp: count_upto_def intro!: arg_cong [where f = card])

section \<open>Transition systems with an invariant\<close>

lemma two_steps: "step a b \<Longrightarrow> step b c \<Longrightarrow> step\<^sup>*\<^sup>* a c"
  by auto

text \<open>The contract of a step system that keeps an invariant: it holds initially and every step keeps
  it, so it holds in every reachable state.\<close>

locale invariant_system =
  fixes start :: "'s \<Rightarrow> bool" and step :: "'s \<Rightarrow> 's \<Rightarrow> bool" and inv :: "'s \<Rightarrow> bool"
  assumes start_inv: "start s \<Longrightarrow> inv s"
    and step_inv: "inv s \<Longrightarrow> step s s' \<Longrightarrow> inv s'"
begin

lemma reachable: "step\<^sup>*\<^sup>* s s' \<Longrightarrow> start s \<Longrightarrow> inv s'"
  by (induction rule: rtranclp_induct) (auto intro: start_inv step_inv)

end

end
