(* ===== verification/CString.thy ===== *)
theory CString
  imports Prelude
begin

text \<open>
  The string and memory routines of \<open>src/lib/string.c\<close> over a byte-addressed memory.  A pointer
  is an address, a counted loop is a \<open>fold\<close> over its index range (so the order of the byte
  copies, and with it the effect of overlapping operands, is the one of the code), and a scan for
  the terminating NUL is a \<open>partial_function\<close> whose value \<open>None\<close> means that it runs on forever.
  \<open>cstr m p xs\<close> says that the NUL-terminated string \<open>xs\<close> is stored at \<open>p\<close>.
\<close>

type_synonym mem = "nat \<Rightarrow> byte"

section \<open>Definitions\<close>

definition memcpy :: "mem \<Rightarrow> nat \<Rightarrow> nat \<Rightarrow> nat \<Rightarrow> mem" where
  "memcpy m d s n = fold (\<lambda>i m. m(d + i := m (s + i))) [0..<n] m"

definition memmove :: "mem \<Rightarrow> nat \<Rightarrow> nat \<Rightarrow> nat \<Rightarrow> mem" where
  "memmove m d s n =
     (if d < s then fold (\<lambda>i m. m(d + i := m (s + i))) [0..<n] m
      else if s < d then fold (\<lambda>i m. m(d + i := m (s + i))) (rev [0..<n]) m
      else m)"

definition memcmp :: "mem \<Rightarrow> nat \<Rightarrow> nat \<Rightarrow> nat \<Rightarrow> nat" where
  "memcmp m a b n =
     (case first_from (\<lambda>i. m (a + i) \<noteq> m (b + i)) 0 n of Some _ \<Rightarrow> 0 | None \<Rightarrow> 1)"

definition memset :: "mem \<Rightarrow> nat \<Rightarrow> byte \<Rightarrow> nat \<Rightarrow> mem" where
  "memset m d x n = fold (\<lambda>i m. m(d + i := x)) [0..<n] m"

partial_function (option) strlen_from :: "mem \<Rightarrow> nat \<Rightarrow> nat \<Rightarrow> nat option" where
  "strlen_from m p l = (if m (p + l) \<noteq> 0 then strlen_from m p (u32 (l + 1)) else Some l)"

definition strlen :: "mem \<Rightarrow> nat \<Rightarrow> nat option" where
  "strlen m p = strlen_from m p 0"

partial_function (option) strcpy_from :: "mem \<Rightarrow> nat \<Rightarrow> nat \<Rightarrow> nat \<Rightarrow> (nat \<times> mem) option" where
  "strcpy_from m d s i =
     (if m (s + i) \<noteq> 0 then strcpy_from (m(d + i := m (s + i))) d s (u32 (i + 1))
      else Some (i, m(d + i := 0)))"

definition strcpy :: "mem \<Rightarrow> nat \<Rightarrow> nat \<Rightarrow> (nat \<times> mem) option" where
  "strcpy m d s = strcpy_from m d s 0"

partial_function (option) strcmp :: "mem \<Rightarrow> nat \<Rightarrow> nat \<Rightarrow> byte option" where
  "strcmp m s1 s2 =
     (if m s1 \<noteq> 0 \<and> m s1 = m s2 then strcmp m (s1 + 1) (s2 + 1) else Some (m s1 - m s2))"

fun strncmp :: "mem \<Rightarrow> nat \<Rightarrow> nat \<Rightarrow> nat \<Rightarrow> int" where
  "strncmp m s1 s2 0 = 0"
| "strncmp m s1 s2 (Suc n) =
     (if m s1 \<noteq> m s2 then int (unat (m s1)) - int (unat (m s2))
      else if m s1 = 0 then 0
      else strncmp m (s1 + 1) (s2 + 1) n)"

partial_function (option) strchr :: "mem \<Rightarrow> nat \<Rightarrow> byte \<Rightarrow> nat option option" where
  "strchr m s c =
     (if m s \<noteq> 0 then (if m s = c then Some (Some s) else strchr m (s + 1) c)
      else if c = 0 then Some (Some s) else Some None)"

partial_function (option) strrchr_from :: "mem \<Rightarrow> nat \<Rightarrow> byte \<Rightarrow> nat option \<Rightarrow> nat option option" where
  "strrchr_from m s c lst =
     (if m s \<noteq> 0 then strrchr_from m (s + 1) c (if m s = c then Some s else lst)
      else if c = 0 then Some (Some s) else Some lst)"

definition strrchr :: "mem \<Rightarrow> nat \<Rightarrow> byte \<Rightarrow> nat option option" where
  "strrchr m s c = strrchr_from m s c None"

text \<open>\<open>kstrdup\<close> copies into the block \<open>kmalloc\<close> returned, \<open>None\<close> standing for a NULL result.\<close>

definition kstrdup :: "mem \<Rightarrow> nat \<Rightarrow> nat option \<Rightarrow> (nat option \<times> mem) option" where
  "kstrdup m s p = do {
     l \<leftarrow> strlen m s;
     Some (p, case p of Some q \<Rightarrow> memcpy m q s (u32 (l + 1)) | None \<Rightarrow> m) }"

text \<open>\<open>strtok_r\<close>: the inner loop over the delimiters, the two scans, and the function.\<close>

partial_function (option) is_delim :: "mem \<Rightarrow> byte \<Rightarrow> nat \<Rightarrow> bool option" where
  "is_delim m c d =
     (if m d \<noteq> 0 then (if c = m d then Some True else is_delim m c (d + 1)) else Some False)"

partial_function (option) skip_delims :: "mem \<Rightarrow> nat \<Rightarrow> nat \<Rightarrow> nat option" where
  "skip_delims m str delim =
     (if m str \<noteq> 0
      then Option.bind (is_delim m (m str) delim)
             (\<lambda>b. if b then skip_delims m (str + 1) delim else Some str)
      else Some str)"

partial_function (option) find_delim :: "mem \<Rightarrow> nat \<Rightarrow> nat \<Rightarrow> nat option" where
  "find_delim m str delim =
     (if m str \<noteq> 0
      then Option.bind (is_delim m (m str) delim)
             (\<lambda>b. if b then Some str else find_delim m (str + 1) delim)
      else Some str)"

text \<open>The result is the token (\<open>None\<close> for NULL), the memory and the new \<open>*saveptr\<close>.\<close>

definition strtok_r ::
  "mem \<Rightarrow> nat option \<Rightarrow> nat \<Rightarrow> nat \<Rightarrow> (nat option \<times> mem \<times> nat) option" where
  "strtok_r m str delim saveptr = do {
     let str = (case str of None \<Rightarrow> saveptr | Some s \<Rightarrow> s);
     str \<leftarrow> skip_delims m str delim;
     if m str = 0 then Some (None, m, str)
     else do {
       let token_start = str;
       str \<leftarrow> find_delim m str delim;
       if m str \<noteq> 0 then Some (Some token_start, m(str := 0), str + 1)
       else Some (Some token_start, m, str) } }"

text \<open>The loop \<open>token = strtok_r(path, ...); while (token) { ...; token = strtok_r(NULL, ...); }\<close>
  of the path walk, collecting where the tokens start.\<close>

partial_function (option) strtok_rest :: "mem \<Rightarrow> nat \<Rightarrow> nat \<Rightarrow> nat list \<Rightarrow> (nat list \<times> mem) option" where
  "strtok_rest m delim saveptr acc =
     Option.bind (strtok_r m None delim saveptr)
       (\<lambda>(tok, m', save'). case tok of None \<Rightarrow> Some (rev acc, m')
          | Some t \<Rightarrow> strtok_rest m' delim save' (t # acc))"

section \<open>Memory blocks\<close>

definition cstr :: "mem \<Rightarrow> nat \<Rightarrow> byte list \<Rightarrow> bool" where
  "cstr m p xs \<longleftrightarrow> (\<forall>i<length xs. m (p + i) = xs ! i \<and> xs ! i \<noteq> 0) \<and> m (p + length xs) = 0"

lemma cstr_Nil [simp]: "cstr m p [] \<longleftrightarrow> m p = 0"
  by (simp add: cstr_def)

lemma cstr_Cons [simp]: "cstr m p (x # xs) \<longleftrightarrow> m p = x \<and> x \<noteq> 0 \<and> cstr m (Suc p) xs"
  by (auto simp: cstr_def less_Suc_eq_0_disj)

lemma cstr_unique: "cstr m p xs \<Longrightarrow> cstr m p ys \<Longrightarrow> xs = ys"
proof (induction xs arbitrary: p ys)
  case Nil
  then show ?case by (cases ys) auto
next
  case (Cons x xs)
  then show ?case by (cases ys) auto
qed

lemma cstr_nonzero: "cstr m p xs \<Longrightarrow> x \<in> set xs \<Longrightarrow> x \<noteq> 0"
  by (auto simp: cstr_def in_set_conv_nth)

lemma cstr_frame:
  "cstr m p xs \<Longrightarrow> (\<And>a. p \<le> a \<Longrightarrow> a \<le> p + length xs \<Longrightarrow> m' a = m a) \<Longrightarrow> cstr m' p xs"
  by (auto simp: cstr_def)

lemma cstr_append: "cstr m p (xs @ ys) \<longleftrightarrow>
    (\<forall>i<length xs. m (p + i) = xs ! i \<and> xs ! i \<noteq> 0) \<and> cstr m (p + length xs) ys"
  by (induction xs arbitrary: p) (auto simp: less_Suc_eq_0_disj)

lemma memcpy_forward:
  assumes "d \<le> s \<or> s + n \<le> d"
  shows "memcpy m d s n a = (if d \<le> a \<and> a < d + n then m (s + (a - d)) else m a)"
  using assms
proof (induction n arbitrary: a)
  case 0
  then show ?case by (auto simp: memcpy_def)
next
  case (Suc n)
  have step: "memcpy m d s (Suc n) = (memcpy m d s n)(d + n := memcpy m d s n (s + n))"
    by (simp add: memcpy_def)
  have IH: "\<And>a. memcpy m d s n a = (if d \<le> a \<and> a < d + n then m (s + (a - d)) else m a)"
    using Suc by auto
  have src: "memcpy m d s n (s + n) = m (s + n)"
    using Suc.prems by (auto simp: IH)
  show ?case
    unfolding step src by (auto simp: IH less_Suc_eq)
qed

lemma memset_nth: "memset m d x n a = (if d \<le> a \<and> a < d + n then x else m a)"
  by (induction n arbitrary: a) (auto simp: memset_def less_Suc_eq)

lemma copy_backward:
  assumes "s \<le> d"
  shows "fold (\<lambda>i m. m(d + i := m (s + i))) (rev [0..<n]) m a =
    (if d \<le> a \<and> a < d + n then m (s + (a - d)) else m a)"
  using assms
proof (induction n arbitrary: m a)
  case 0
  then show ?case by auto
next
  case (Suc n)
  have "s + (a - d) \<noteq> d + n" if "d \<le> a" "a < d + n" for a using that Suc.prems by auto
  then show ?case using Suc by (auto simp: less_Suc_eq)
qed

lemma memmove_spec:
  "memmove m d s n a = (if d \<le> a \<and> a < d + n then m (s + (a - d)) else m a)"
  using memcpy_forward [of d s n m a] copy_backward [of s d n m a]
  by (auto simp: memmove_def memcpy_def)

lemma memcmp_spec: "memcmp m a b n = 1 \<longleftrightarrow> (\<forall>i<n. m (a + i) = m (b + i))"
  by (auto simp: memcmp_def split: option.splits
      dest: first_from_SomeD simp: first_from_None_iff)

section \<open>Scans of NUL-terminated strings\<close>

lemma strlen_from_cstr:
  "cstr m (p + l) xs \<Longrightarrow> l + length xs < 4294967296 \<Longrightarrow> strlen_from m p l = Some (l + length xs)"
proof (induction xs arbitrary: l)
  case Nil
  then show ?case by (simp add: strlen_from.simps)
next
  case (Cons x xs)
  then have "strlen_from m p (l + 1) = Some (l + length (x # xs))" by simp
  with Cons.prems show ?case by (simp add: strlen_from.simps [of m p l] u32_id)
qed

lemma strlen_cstr: "cstr m p xs \<Longrightarrow> length xs < 4294967296 \<Longrightarrow> strlen m p = Some (length xs)"
  using strlen_from_cstr [of m p 0 xs] by (simp add: strlen_def)

lemma strcpy_from_cstr:
  assumes "cstr m (s + i) xs" "i + length xs < 4294967296" "d + i + length xs < s + i \<or> s + i + length xs < d"
  shows "\<exists>m'. strcpy_from m d s i = Some (i + length xs, m') \<and> cstr m' (d + i) xs \<and>
    (\<forall>a. a < d + i \<or> d + i + length xs < a \<longrightarrow> m' a = m a)"
  using assms
proof (induction xs arbitrary: m i)
  case Nil
  then show ?case by (simp add: strcpy_from.simps)
next
  case (Cons x xs)
  let ?m = "m(d + i := x)"
  have c: "cstr ?m (s + Suc i) xs"
    using Cons.prems(1,3) by (auto elim!: cstr_frame [of m])
  have "Suc i + length xs < 4294967296" "d + Suc i + length xs < s + Suc i \<or> s + Suc i + length xs < d"
    using Cons.prems by auto
  from Cons.IH [OF c this] obtain m' where m':
      "strcpy_from ?m d s (Suc i) = Some (Suc i + length xs, m')"
      "cstr m' (d + Suc i) xs" "\<forall>a. a < d + Suc i \<or> d + Suc i + length xs < a \<longrightarrow> m' a = ?m a"
    by blast
  have "strcpy_from m d s i = Some (i + length (x # xs), m')"
    using m'(1) Cons.prems by (simp add: strcpy_from.simps [of m d s i] u32_id)
  moreover have "m' (d + i) = x" using m'(3) by simp
  ultimately show ?case using m' Cons.prems(1) by auto
qed

lemma strcmp_cstr:
  "cstr m p xs \<Longrightarrow> cstr m q ys \<Longrightarrow> \<exists>r. strcmp m p q = Some r \<and> (r = 0 \<longleftrightarrow> xs = ys)"
proof (induction xs arbitrary: p q ys)
  case Nil
  then show ?case by (cases ys) (auto simp: strcmp.simps [of m p q])
next
  case (Cons x xs)
  show ?case
  proof (cases "\<exists>ys'. ys = x # ys'")
    case True
    then obtain ys' where ys: "ys = x # ys'" by blast
    obtain r where "strcmp m (Suc p) (Suc q) = Some r" "(r = 0) = (xs = ys')"
      using Cons.IH [of "Suc p" "Suc q" ys'] Cons.prems ys by auto
    with Cons.prems ys show ?thesis by (simp add: strcmp.simps [of m p q])
  next
    case False
    then have "m q \<noteq> x" using Cons.prems by (cases ys) auto
    with Cons.prems False show ?thesis by (auto simp: strcmp.simps [of m p q])
  qed
qed

lemma strncmp_cstr:
  "cstr m p xs \<Longrightarrow> cstr m q ys \<Longrightarrow> strncmp m p q n = 0 \<longleftrightarrow> take n xs = take n ys"
proof (induction n arbitrary: p q xs ys)
  case 0
  then show ?case by simp
next
  case (Suc n)
  show ?case
    using Suc.prems Suc.IH [of "Suc p" "tl xs" "Suc q" "tl ys"]
    by (cases xs; cases ys) (auto simp: word_uint_eq_iff)
qed

lemma strchr_cstr:
  "cstr m p xs \<Longrightarrow> c \<noteq> 0 \<Longrightarrow>
     strchr m p c = Some (map_option (\<lambda>i. p + i) (first_from (\<lambda>i. xs ! i = c) 0 (length xs)))"
proof -
  have aux: "cstr m (p + l) (drop l xs) \<Longrightarrow> c \<noteq> 0 \<Longrightarrow> l \<le> length xs \<Longrightarrow>
    strchr m (p + l) c = Some (map_option (\<lambda>i. p + i) (first_from (\<lambda>i. xs ! i = c) l (length xs)))" for l
  proof (induction "length xs - l" arbitrary: l)
    case 0
    then show ?case by (simp add: strchr.simps [of m "p + l"] first_from.simps [of _ l])
  next
    case (Suc k)
    then have l: "l < length xs" by simp
    then have d: "drop l xs = xs ! l # drop (Suc l) xs" by (simp add: Cons_nth_drop_Suc)
    have "strchr m (p + Suc l) c =
        Some (map_option (\<lambda>i. p + i) (first_from (\<lambda>i. xs ! i = c) (Suc l) (length xs)))"
      using Suc.hyps(1) [of "Suc l"] Suc.hyps(2) Suc.prems l d by auto
    with Suc.prems l d show ?case
      by (simp add: strchr.simps [of m "p + l"] first_from.simps [of _ l])
  qed
  show "cstr m p xs \<Longrightarrow> c \<noteq> 0 \<Longrightarrow> ?thesis" using aux [of 0] by simp
qed

section \<open>Tokens\<close>

text \<open>What the tokenizer computes, on lists: runs of non-delimiters.\<close>

function toks :: "byte set \<Rightarrow> byte list \<Rightarrow> byte list list" where
  "toks D xs = (let ys = dropWhile (\<lambda>x. x \<in> D) xs in
     if ys = [] then [] else takeWhile (\<lambda>x. x \<notin> D) ys # toks D (drop 1 (dropWhile (\<lambda>x. x \<notin> D) ys)))"
  by pat_completeness auto
termination
proof (relation "measure (length \<circ> snd)", goal_cases)
  case (2 D xs ys)
  have "length (dropWhile (\<lambda>x. x \<notin> D) ys) \<le> length ys" "length ys \<le> length xs"
    using 2 by (auto simp: length_dropWhile_le)
  moreover have "0 < length ys" using 2 by simp
  ultimately show ?case by (simp, linarith)
qed simp

declare toks.simps [simp del]

lemma toks_empty: "dropWhile (\<lambda>x. x \<in> D) xs = [] \<Longrightarrow> toks D xs = []"
  by (simp add: toks.simps [of _ xs])

lemma toks_next:
  "dropWhile (\<lambda>x. x \<in> D) xs = ys \<Longrightarrow> ys \<noteq> [] \<Longrightarrow>
     toks D xs = takeWhile (\<lambda>x. x \<notin> D) ys # toks D (drop 1 (dropWhile (\<lambda>x. x \<notin> D) ys))"
  by (simp add: toks.simps [of _ xs] Let_def)

lemma is_delim_cstr: "cstr m d ds \<Longrightarrow> is_delim m c d = Some (c \<in> set ds)"
  by (induction ds arbitrary: d) (auto simp: is_delim.simps [of m c])

lemma skip_delims_cstr:
  "cstr m d ds \<Longrightarrow> cstr m s xs \<Longrightarrow>
     skip_delims m s d = Some (s + (length xs - length (dropWhile (\<lambda>x. x \<in> set ds) xs)))"
proof (induction xs arbitrary: s)
  case Nil
  then show ?case by (simp add: skip_delims.simps)
next
  case (Cons x xs)
  then show ?case
    using length_dropWhile_le [of "\<lambda>x. x \<in> set ds" xs]
    by (auto simp: skip_delims.simps [of m s] is_delim_cstr Suc_diff_le)
qed

lemma find_delim_cstr:
  "cstr m d ds \<Longrightarrow> cstr m s xs \<Longrightarrow>
     find_delim m s d = Some (s + length (takeWhile (\<lambda>x. x \<notin> set ds) xs))"
  by (induction xs arbitrary: s) (auto simp: find_delim.simps [of m] is_delim_cstr)

text \<open>One call: it skips the leading delimiters; if nothing is left it returns NULL, otherwise the
  first token, terminated in place, with the rest of the string behind \<open>*saveptr\<close>.\<close>

lemma strtok_r_step:
  assumes ds: "cstr m d ds" and xs: "cstr m s xs" and dis: "d + length ds < s \<or> s + length xs < d"
  defines "ys \<equiv> dropWhile (\<lambda>x. x \<in> set ds) xs"
  shows "ys = [] \<Longrightarrow> strtok_r m None d s = Some (None, m, s + length xs)"
    and "ys \<noteq> [] \<Longrightarrow> \<exists>t m' s'. strtok_r m None d s = Some (Some t, m', s') \<and>
      s \<le> t \<and> t + length (takeWhile (\<lambda>x. x \<notin> set ds) ys) \<le> s + length xs \<and>
      t + length (takeWhile (\<lambda>x. x \<notin> set ds) ys) \<le> s' \<and>
      (s' = t + length (takeWhile (\<lambda>x. x \<notin> set ds) ys) \<longrightarrow> drop 1 (dropWhile (\<lambda>x. x \<notin> set ds) ys) = []) \<and>
      s' + length (drop 1 (dropWhile (\<lambda>x. x \<notin> set ds) ys)) = s + length xs \<and>
      cstr m' t (takeWhile (\<lambda>x. x \<notin> set ds) ys) \<and>
      cstr m' s' (drop 1 (dropWhile (\<lambda>x. x \<notin> set ds) ys)) \<and>
      (\<forall>a. a < t \<or> s + length xs \<le> a \<longrightarrow> m' a = m a)"
proof -
  define pre where "pre = takeWhile (\<lambda>x. x \<in> set ds) xs"
  define tok where "tok = takeWhile (\<lambda>x. x \<notin> set ds) ys"
  define post where "post = dropWhile (\<lambda>x. x \<notin> set ds) ys"
  have xs_eq: "xs = pre @ ys" "ys = tok @ post"
    by (simp_all add: pre_def ys_def tok_def post_def)
  have ys: "cstr m (s + length pre) ys" using xs by (simp add: xs_eq(1) cstr_append)
  then have post: "cstr m (s + length pre + length tok) post"
    and tok: "\<forall>i<length tok. m (s + length pre + i) = tok ! i \<and> tok ! i \<noteq> 0"
    using xs_eq(2) by (simp_all add: cstr_append)
  have skip: "skip_delims m s d = Some (s + length pre)"
  proof -
    have "length xs - length ys = length pre" by (simp add: xs_eq(1))
    then show ?thesis using skip_delims_cstr [OF ds xs] unfolding ys_def by simp
  qed
  have find: "find_delim m (s + length pre) d = Some (s + length pre + length tok)"
    using find_delim_cstr [OF ds ys] by (simp add: tok_def)
  show "strtok_r m None d s = Some (None, m, s + length xs)" if "ys = []"
    using that ys xs_eq by (simp add: strtok_r_def skip)
  have mnz: "m (s + length pre) \<noteq> 0" if "ys \<noteq> []" using that ys by (cases ys) auto
  show "\<exists>t m' s'. strtok_r m None d s = Some (Some t, m', s') \<and>
      s \<le> t \<and> t + length (takeWhile (\<lambda>x. x \<notin> set ds) ys) \<le> s + length xs \<and>
      t + length (takeWhile (\<lambda>x. x \<notin> set ds) ys) \<le> s' \<and>
      (s' = t + length (takeWhile (\<lambda>x. x \<notin> set ds) ys) \<longrightarrow> drop 1 (dropWhile (\<lambda>x. x \<notin> set ds) ys) = []) \<and>
      s' + length (drop 1 (dropWhile (\<lambda>x. x \<notin> set ds) ys)) = s + length xs \<and>
      cstr m' t (takeWhile (\<lambda>x. x \<notin> set ds) ys) \<and>
      cstr m' s' (drop 1 (dropWhile (\<lambda>x. x \<notin> set ds) ys)) \<and>
      (\<forall>a. a < t \<or> s + length xs \<le> a \<longrightarrow> m' a = m a)" if "ys \<noteq> []"
  proof (cases post)
    case Nil
    then have "strtok_r m None d s = Some (Some (s + length pre), m, s + length pre + length tok)"
      using mnz [OF that] post by (simp add: strtok_r_def skip find)
    then show ?thesis
      using Nil xs_eq post ys unfolding tok_def [symmetric] post_def [symmetric] by auto
  next
    case (Cons c rest)
    let ?e = "s + length pre + length tok"
    let ?m = "m(?e := 0)"
    have "strtok_r m None d s = Some (Some (s + length pre), ?m, ?e + 1)"
      using mnz [OF that] post Cons by (simp add: strtok_r_def skip find)
    moreover have "cstr ?m (s + length pre) tok" using tok by (auto simp: cstr_def)
    moreover have "cstr ?m (Suc ?e) rest"
      using post Cons by (auto elim!: cstr_frame [of m])
    ultimately show ?thesis
      using Cons xs_eq unfolding tok_def [symmetric] post_def [symmetric] by auto
  qed
qed

lemma strtok_rest_toks:
  assumes "cstr m d ds" "cstr m s xs" "d + length ds < s \<or> s + length xs < d"
  shows "\<exists>ts m'. strtok_rest m d s acc = Some (rev acc @ ts, m') \<and>
    list_all2 (cstr m') ts (toks (set ds) xs) \<and>
    (\<forall>t\<in>set ts. s \<le> t) \<and> (\<forall>a. a < s \<or> s + length xs \<le> a \<longrightarrow> m' a = m a)"
  using assms
proof (induction "length xs" arbitrary: xs m s acc rule: less_induct)
  case less
  let ?ys = "dropWhile (\<lambda>x. x \<in> set ds) xs"
  let ?tok = "takeWhile (\<lambda>x. x \<notin> set ds) ?ys"
  let ?rest = "drop 1 (dropWhile (\<lambda>x. x \<notin> set ds) ?ys)"
  show ?case
  proof (cases "?ys = []")
    case True
    then show ?thesis
      using strtok_r_step(1) [OF less.prems] 
      by (simp add: strtok_rest.simps [of m] toks_empty)
  next
    case False
    then obtain t m1 s' where step: "strtok_r m None d s = Some (Some t, m1, s')"
      and t: "s \<le> t" "t + length ?tok \<le> s + length xs" "t + length ?tok \<le> s'"
        "s' = t + length ?tok \<Longrightarrow> ?rest = []"
        "s' + length ?rest = s + length xs"
      and c: "cstr m1 t ?tok" "cstr m1 s' ?rest"
      and fr: "\<forall>a. a < t \<or> s + length xs \<le> a \<longrightarrow> m1 a = m a"
      using strtok_r_step(2) [OF less.prems] by blast
    have tokne: "0 < length ?tok" using False hd_dropWhile [OF False] by (cases ?ys) auto
    have len: "length ?rest < length xs" using t tokne by linarith
    have ds1: "cstr m1 d ds"
      by (rule cstr_frame [OF less.prems(1)]) (use less.prems(3) t fr in auto)
    have dis1: "d + length ds < s' \<or> s' + length ?rest < d" using less.prems(3) t by linarith
    obtain ts m' where r: "strtok_rest m1 d s' (t # acc) = Some (rev (t # acc) @ ts, m')"
      "list_all2 (cstr m') ts (toks (set ds) ?rest)" "\<forall>t\<in>set ts. s' \<le> t"
      "\<forall>a. a < s' \<or> s' + length ?rest \<le> a \<longrightarrow> m' a = m1 a"
      using less.hyps [OF len ds1 c(2) dis1] by blast
    have "m' a = m1 a" if "t \<le> a" "a \<le> t + length ?tok" for a
      using that r(4) t(3-5) by (cases "a < s'") auto
    then have "cstr m' t ?tok" using cstr_frame [OF c(1)] by blast
    moreover have "toks (set ds) xs = ?tok # toks (set ds) ?rest"
      by (rule toks_next [OF refl False])
    moreover have "strtok_rest m d s acc = Some (rev acc @ t # ts, m')"
      using step r(1) by (simp add: strtok_rest.simps [of m d s])
    moreover have "\<forall>a. a < s \<or> s + length xs \<le> a \<longrightarrow> m' a = m a"
      using r(4) fr t by auto
    ultimately show ?thesis using r(2,3) t by (intro exI [of _ "t # ts"] exI [of _ m']) auto
  qed
qed

lemma toks_sound: "ts \<in> set (toks D xs) \<Longrightarrow> ts \<noteq> [] \<and> set ts \<inter> D = {}"
proof (induction D xs rule: toks.induct)
  case (1 D xs)
  let ?ys = "dropWhile (\<lambda>x. x \<in> D) xs"
  show ?case
  proof (cases "?ys = []")
    case True
    then show ?thesis using 1 by (simp add: toks_empty)
  next
    case False
    have "takeWhile (\<lambda>x. x \<notin> D) ?ys \<noteq> []" using hd_dropWhile [OF False] False by (cases ?ys) auto
    then show ?thesis
      using 1 False by (auto simp only: toks_next [OF refl False] set_simps dest: set_takeWhileD)
  qed
qed

lemma toks_concat: "concat (toks D xs) = filter (\<lambda>x. x \<notin> D) xs"
proof (induction D xs rule: toks.induct)
  case (1 D xs)
  let ?ys = "dropWhile (\<lambda>x. x \<in> D) xs"
  have a: "filter (\<lambda>x. x \<notin> D) xs = filter (\<lambda>x. x \<notin> D) ?ys"
    by (induction xs) auto
  have b: "filter (\<lambda>x. x \<notin> D) ys = takeWhile (\<lambda>x. x \<notin> D) ys @ filter (\<lambda>x. x \<notin> D) (drop 1 (dropWhile (\<lambda>x. x \<notin> D) ys))" for ys
    by (induction ys) auto
  show ?case
  proof (cases "?ys = []")
    case True
    then show ?thesis using a by (simp add: toks_empty)
  next
    case False
    then show ?thesis using 1 a b [of ?ys] by (simp add: toks_next [OF refl False])
  qed
qed

section \<open>Properties\<close>

text \<open>C13: \<open>memmove\<close> copies correctly however the two ranges overlap: afterwards the destination
  holds what the source held before the call, and no other byte has changed.\<close>

theorem memmove_correct:
  "memmove m d s n a = (if d \<le> a \<and> a < d + n then m (s + (a - d)) else m a)"
  by (rule memmove_spec)

text \<open>C14: on two NUL-terminated strings \<open>strcmp\<close> returns, and returns 0 exactly when they are
  equal; \<open>strncmp\<close> is 0 exactly when the first \<open>n\<close> characters agree.\<close>

theorem strcmp_correct:
  assumes "cstr m p xs" "cstr m q ys"
  shows "(\<exists>r. strcmp m p q = Some r \<and> (r = 0 \<longleftrightarrow> xs = ys)) \<and>
    (strncmp m p q n = 0 \<longleftrightarrow> take n xs = take n ys)"
  using strcmp_cstr [OF assms] strncmp_cstr [OF assms] by blast

theorem strcmp_correct_witness:
  "\<exists>r. strcmp ((\<lambda>_. 0)(0 := 97, 8 := 97, 9 := 98)) 0 8 = Some r \<and> r \<noteq> 0"
  using strcmp_correct [of "(\<lambda>_. 0)(0 := 97, 8 := 97, 9 := 98)" 0 "[97]" 8 "[97, 98]" 1] by auto

text \<open>C15: walking a path with \<open>strtok_r\<close> until it returns NULL always ends, and yields, in order,
  exactly the maximal runs of non-delimiters, each as a NUL-terminated string in place; bytes
  outside the string are untouched.  The tokens are non-empty, contain no delimiter, and together
  are all the characters of the path that are not delimiters.\<close>

theorem strtok_r_tokens:
  assumes "cstr m d ds" "cstr m s xs" "d + length ds < s \<or> s + length xs < d"
  shows "\<exists>ts m'. strtok_rest m d s [] = Some (ts, m') \<and> list_all2 (cstr m') ts (toks (set ds) xs) \<and>
    (\<forall>a. a < s \<or> s + length xs \<le> a \<longrightarrow> m' a = m a) \<and>
    (\<forall>tok \<in> set (toks (set ds) xs). tok \<noteq> [] \<and> set tok \<inter> set ds = {}) \<and>
    concat (toks (set ds) xs) = filter (\<lambda>x. x \<notin> set ds) xs"
  using strtok_rest_toks [OF assms, of "[]"] toks_sound [of _ "set ds" xs] toks_concat [of "set ds" xs]
  by auto

theorem strtok_r_tokens_witness:
  "\<exists>ts m'. strtok_rest ((\<lambda>_. 0)(0 := 47, 8 := 47, 9 := 97, 10 := 47, 11 := 47, 12 := 98)) 0 8 [] = Some (ts, m')
     \<and> list_all2 (cstr m') ts [[97], [98]]"
proof -
  let ?m = "(\<lambda>_. 0)(0 := 47, 8 := 47, 9 := 97, 10 := 47, 11 := 47, 12 := 98) :: mem"
  have "toks {47} [47, 97, 47, 47, 98 :: byte] = [[97], [98]]"
    by (simp add: toks.simps)
  then show ?thesis
    using strtok_r_tokens [of ?m 0 "[47]" 8 "[47, 97, 47, 47, 98]"] by auto
qed

text \<open>C16: \<open>strcpy\<close> between disjoint buffers ends, returns the length, leaves a copy of the string in
  the destination and writes nothing else; \<open>strlen\<close> is the length of the string.\<close>

theorem strcpy_correct:
  assumes "cstr m s xs" "length xs < 4294967296" "d + length xs < s \<or> s + length xs < d"
  shows "strlen m s = Some (length xs) \<and>
    (\<exists>m'. strcpy m d s = Some (length xs, m') \<and> cstr m' d xs \<and>
       (\<forall>a. a < d \<or> d + length xs < a \<longrightarrow> m' a = m a))"
  using strcpy_from_cstr [of m s 0 xs d] strlen_cstr [of m s xs] assms by (auto simp: strcpy_def)

theorem strcpy_correct_witness:
  "\<exists>m'. strcpy ((\<lambda>_. 0)(0 := 104, 1 := 105)) 8 0 = Some (2, m') \<and> cstr m' 8 [104, 105]"
  using strcpy_correct [of "(\<lambda>_. 0)(0 := 104, 1 := 105)" 0 "[104, 105]" 8] by auto

end
