(* ===== verification/DList.thy ===== *)
theory DList
  imports Prelude
begin

text \<open>
  The intrusive doubly linked lists of \<open>include/lib/my_list.h\<close>, over an explicit store: a node is
  an address and \<open>nxt\<close>, \<open>prv\<close> are the two pointer fields of \<open>list_head_t\<close>.  Every assignment of
  the C code is one store update, in the order of the code.  \<open>dl h head xs\<close> says that \<open>head\<close> is
  the sentinel of a well-formed circular list whose entries are \<open>xs\<close>; every operation is shown to
  act on \<open>xs\<close> as the list operation it stands for and to leave all other nodes alone.
\<close>

record links =
  nxt :: "nat \<Rightarrow> nat"
  prv :: "nat \<Rightarrow> nat"

section \<open>Operations\<close>

definition set_next :: "nat \<Rightarrow> nat \<Rightarrow> links \<Rightarrow> links" where
  "set_next a v h = h\<lparr>nxt := (nxt h)(a := v)\<rparr>"

definition set_prev :: "nat \<Rightarrow> nat \<Rightarrow> links \<Rightarrow> links" where
  "set_prev a v h = h\<lparr>prv := (prv h)(a := v)\<rparr>"

definition INIT_LIST_HEAD :: "nat \<Rightarrow> links \<Rightarrow> links" where
  "INIT_LIST_HEAD l h = (let h = set_next l l h in set_prev l l h)"

definition list_add_between :: "nat \<Rightarrow> nat \<Rightarrow> nat \<Rightarrow> links \<Rightarrow> links" where
  "list_add_between new p n h =
     (let h = set_prev n new h; h = set_next new n h; h = set_prev new p h in set_next p new h)"

definition list_add :: "nat \<Rightarrow> nat \<Rightarrow> links \<Rightarrow> links" where
  "list_add new head h = list_add_between new head (nxt h head) h"

definition list_add_tail :: "nat \<Rightarrow> nat \<Rightarrow> links \<Rightarrow> links" where
  "list_add_tail new head h = list_add_between new (prv h head) head h"

definition list_del_between :: "nat \<Rightarrow> nat \<Rightarrow> links \<Rightarrow> links" where
  "list_del_between p n h = (let h = set_prev n p h in set_next p n h)"

definition list_del :: "nat \<Rightarrow> links \<Rightarrow> links" where
  "list_del e h = list_del_between (prv h e) (nxt h e) h"

definition list_del_init :: "nat \<Rightarrow> links \<Rightarrow> links" where
  "list_del_init e h = INIT_LIST_HEAD e (list_del_between (prv h e) (nxt h e) h)"

definition list_replace :: "nat \<Rightarrow> nat \<Rightarrow> links \<Rightarrow> links" where
  "list_replace old new h =
     (let h = set_next new (nxt h old) h; h = set_prev (nxt h new) new h;
          h = set_prev new (prv h old) h in set_next (prv h new) new h)"

definition list_replace_init :: "nat \<Rightarrow> nat \<Rightarrow> links \<Rightarrow> links" where
  "list_replace_init old new h = INIT_LIST_HEAD old (list_replace old new h)"

definition list_move :: "nat \<Rightarrow> nat \<Rightarrow> links \<Rightarrow> links" where
  "list_move l head h = list_add l head (list_del_between (prv h l) (nxt h l) h)"

definition list_move_tail :: "nat \<Rightarrow> nat \<Rightarrow> links \<Rightarrow> links" where
  "list_move_tail l head h = list_add_tail l head (list_del_between (prv h l) (nxt h l) h)"

definition list_empty :: "nat \<Rightarrow> links \<Rightarrow> bool" where
  "list_empty head h \<longleftrightarrow> nxt h head = head"

definition list_is_singular :: "nat \<Rightarrow> links \<Rightarrow> bool" where
  "list_is_singular head h \<longleftrightarrow> \<not> list_empty head h \<and> nxt h head = prv h head"

definition list_rotate_left :: "nat \<Rightarrow> links \<Rightarrow> links" where
  "list_rotate_left head h =
     (if \<not> list_empty head h then list_move_tail (nxt h head) head h else h)"

definition list_first :: "nat \<Rightarrow> links \<Rightarrow> nat option" where
  "list_first head h = (if list_empty head h then None else Some (nxt h head))"

definition list_last :: "nat \<Rightarrow> links \<Rightarrow> nat option" where
  "list_last head h = (if list_empty head h then None else Some (prv h head))"

text \<open>The traversal of \<open>list_for_each\<close>, collecting the visited nodes, and of its reverse.\<close>

partial_function (option) walk_from :: "(nat \<Rightarrow> nat) \<Rightarrow> nat \<Rightarrow> nat \<Rightarrow> nat list option" where
  "walk_from f head pos =
     (if pos \<noteq> head then Option.bind (walk_from f head (f pos)) (\<lambda>r. Some (pos # r)) else Some [])"

definition list_for_each :: "nat \<Rightarrow> links \<Rightarrow> nat list option" where
  "list_for_each head h = walk_from (nxt h) head (nxt h head)"

definition list_for_each_reverse :: "nat \<Rightarrow> links \<Rightarrow> nat list option" where
  "list_for_each_reverse head h = walk_from (prv h) head (prv h head)"

partial_function (option) list_len_from :: "links \<Rightarrow> nat \<Rightarrow> nat \<Rightarrow> nat \<Rightarrow> nat option" where
  "list_len_from h head pos count =
     (if pos \<noteq> head then list_len_from h head (nxt h pos) (count + 1) else Some count)"

definition list_len :: "nat \<Rightarrow> links \<Rightarrow> nat option" where
  "list_len head h = list_len_from h head (nxt h head) 0"

definition list_split :: "nat \<Rightarrow> nat \<Rightarrow> nat \<Rightarrow> links \<Rightarrow> links" where
  "list_split first second head h =
     (if first = head then INIT_LIST_HEAD second h
      else let h = set_prev second (prv h head) h;
               h = set_next (prv h second) second h;
               h = set_next second first h;
               h = set_next (prv h first) head h;
               h = set_prev head (prv h first) h
           in set_prev first second h)"

definition list_splice :: "nat \<Rightarrow> nat \<Rightarrow> links \<Rightarrow> links" where
  "list_splice l head h =
     (if \<not> list_empty l h
      then let first = nxt h l; last = prv h l;
               h = set_prev first head h;
               h = set_next last (nxt h head) h;
               h = set_prev (nxt h head) last h
           in set_next head first h
      else h)"

definition list_splice_init :: "nat \<Rightarrow> nat \<Rightarrow> links \<Rightarrow> links" where
  "list_splice_init l head h = INIT_LIST_HEAD l (list_splice l head h)"

text \<open>\<open>spin_list_remove_if\<close>: the body between the lock operations, with \<open>list_for_each_safe\<close>.\<close>

partial_function (option) remove_if_from ::
  "(nat \<Rightarrow> bool) \<Rightarrow> nat \<Rightarrow> nat \<Rightarrow> nat \<Rightarrow> nat \<Rightarrow> links \<Rightarrow> (nat \<times> links) option" where
  "remove_if_from P head pos n removed h =
     (if pos \<noteq> head
      then (if P pos
            then let h' = list_del pos h in remove_if_from P head n (nxt h' n) (removed + 1) h'
            else remove_if_from P head n (nxt h n) removed h)
      else Some (removed, h))"

definition spin_list_remove_if :: "nat \<Rightarrow> (nat \<Rightarrow> bool) \<Rightarrow> links \<Rightarrow> (nat \<times> links) option" where
  "spin_list_remove_if head P h = remove_if_from P head (nxt h head) (nxt h (nxt h head)) 0 h"

section \<open>Representation\<close>

fun lseg :: "links \<Rightarrow> nat \<Rightarrow> nat list \<Rightarrow> nat \<Rightarrow> bool" where
  "lseg h p [] q \<longleftrightarrow> nxt h p = q \<and> prv h q = p"
| "lseg h p (x # xs) q \<longleftrightarrow> nxt h p = x \<and> prv h x = p \<and> lseg h x xs q"

definition dl :: "links \<Rightarrow> nat \<Rightarrow> nat list \<Rightarrow> bool" where
  "dl h head xs \<longleftrightarrow> distinct (head # xs) \<and> lseg h head xs head"

named_theorems store

lemma nxt_set_next [store]: "nxt (set_next a v h) = (nxt h)(a := v)"
  and prv_set_next [store]: "prv (set_next a v h) = prv h"
  and nxt_set_prev [store]: "nxt (set_prev a v h) = nxt h"
  and prv_set_prev [store]: "prv (set_prev a v h) = (prv h)(a := v)"
  by (simp_all add: set_next_def set_prev_def)

lemma lseg_append: "lseg h p (xs @ x # ys) q \<longleftrightarrow> lseg h p xs x \<and> lseg h x ys q"
  by (induction xs arbitrary: p) auto

lemma lseg_frame:
  "lseg h p xs q \<Longrightarrow> (\<And>a. a \<in> insert p (set xs) \<Longrightarrow> nxt h' a = nxt h a) \<Longrightarrow>
     (\<And>a. a \<in> insert q (set xs) \<Longrightarrow> prv h' a = prv h a) \<Longrightarrow> lseg h' p xs q"
  by (induction xs arbitrary: p) auto

lemma dl_frame:
  "dl h head xs \<Longrightarrow> (\<And>a. a \<in> set (head # xs) \<Longrightarrow> nxt h' a = nxt h a \<and> prv h' a = prv h a) \<Longrightarrow> dl h' head xs"
  by (auto simp: dl_def intro: lseg_frame [of h])

text \<open>The two neighbours of a position in the ring, and the ends of a segment.\<close>

lemma lseg_next: "lseg h p xs q \<Longrightarrow> nxt h p = hd (xs @ [q])"
  by (cases xs) auto

lemma lseg_prev: "lseg h p xs q \<Longrightarrow> prv h q = last (p # xs)"
  by (induction xs arbitrary: p) auto

lemma lseg_relink_end:
  "lseg h p xs q \<Longrightarrow> distinct (p # xs) \<Longrightarrow> q \<notin> set xs \<Longrightarrow> r \<notin> set xs \<Longrightarrow>
   nxt h' (last (p # xs)) = r \<Longrightarrow> prv h' r = last (p # xs) \<Longrightarrow>
   (\<And>a. a \<in> set (p # xs) \<Longrightarrow> a \<noteq> last (p # xs) \<Longrightarrow> nxt h' a = nxt h a) \<Longrightarrow>
   (\<And>a. a \<in> set xs \<Longrightarrow> prv h' a = prv h a) \<Longrightarrow> lseg h' p xs r"
proof (induction xs arbitrary: p)
  case Nil
  then show ?case by simp
next
  case (Cons x xs)
  have "last (x # xs) \<in> set (x # xs)" by (rule last_in_set) simp
  then have "p \<noteq> last (x # xs)" using Cons.prems(2) by auto
  then have "nxt h' p = x" "prv h' x = p" using Cons.prems by auto
  moreover have "lseg h' x xs r" using Cons by auto
  ultimately show ?case by simp
qed

lemma lseg_relink_start:
  "lseg h p ys q \<Longrightarrow> distinct ys \<Longrightarrow> q \<notin> set ys \<Longrightarrow>
   nxt h' p' = hd (ys @ [q]) \<Longrightarrow> prv h' (hd (ys @ [q])) = p' \<Longrightarrow>
   (\<And>a. a \<in> set ys \<Longrightarrow> nxt h' a = nxt h a) \<Longrightarrow>
   (\<And>a. a \<in> insert q (set ys) \<Longrightarrow> a \<noteq> hd (ys @ [q]) \<Longrightarrow> prv h' a = prv h a) \<Longrightarrow> lseg h' p' ys q"
  by (cases ys) (auto elim!: lseg_frame)

lemma lseg_split:
  "lseg h p (xs @ ys) q \<longleftrightarrow> lseg h p xs (hd (ys @ [q])) \<and> lseg h (last (p # xs)) ys q"
proof (induction xs arbitrary: p)
  case Nil
  then show ?case by (cases ys) auto
qed auto

lemma last_in_Cons: "last (p # xs) \<in> insert p (set xs)"
  by (metis last_in_set list.distinct(1) list.simps(15))

lemma hd_in_snoc: "hd (ys @ [q]) \<in> insert q (set ys)"
  by (cases ys) auto

section \<open>Correctness of the operations\<close>

lemma dl_init: "dl (INIT_LIST_HEAD l h) l []"
  by (simp add: dl_def INIT_LIST_HEAD_def Let_def store)

lemma dl_add_between:
  assumes "dl h head (xs @ ys)" "new \<notin> set (head # xs @ ys)"
    and p: "p = last (head # xs)" and n: "n = hd (ys @ [head])"
  shows "dl (list_add_between new p n h) head (xs @ new # ys)"
proof -
  define h' where "h' = list_add_between new p n h"
  have d: "distinct (head # xs @ ys)" "lseg h head xs n" "lseg h p ys head"
    using assms(1) by (auto simp: dl_def lseg_split p n)
  have in1: "p \<in> insert head (set xs)" and in2: "n \<in> insert head (set ys)"
    unfolding p n by (rule last_in_Cons, rule hd_in_snoc)
  have nx: "nxt h' = (nxt h)(new := n, p := new)" and pv: "prv h' = (prv h)(n := new, new := p)"
    by (simp_all add: h'_def list_add_between_def Let_def store)
  have "lseg h' head xs new"
    by (rule lseg_relink_end [OF d(2), folded p]) (use d(1) in1 in2 assms(2) in \<open>auto simp: nx pv\<close>)
  moreover have "lseg h' new ys head"
    by (rule lseg_relink_start [OF d(3), folded n]) (use d(1) in1 in2 assms(2) in \<open>auto simp: nx pv\<close>)
  ultimately show ?thesis using d(1) assms(2) by (auto simp: dl_def lseg_append h'_def)
qed

lemma dl_nxt_head: "dl h head xs \<Longrightarrow> nxt h head = hd (xs @ [head])"
  by (auto simp: dl_def dest: lseg_next)

lemma dl_prv_head: "dl h head xs \<Longrightarrow> prv h head = last (head # xs)"
  by (auto simp: dl_def dest: lseg_prev)

lemma dl_add: "dl h head xs \<Longrightarrow> new \<notin> set (head # xs) \<Longrightarrow> dl (list_add new head h) head (new # xs)"
  using dl_add_between [of h head "[]" xs new] by (simp add: list_add_def dl_nxt_head)

lemma dl_add_tail:
  "dl h head xs \<Longrightarrow> new \<notin> set (head # xs) \<Longrightarrow> dl (list_add_tail new head h) head (xs @ [new])"
  using dl_add_between [of h head xs "[]" new] by (simp add: list_add_tail_def dl_prv_head)

lemma dl_neighbours:
  "dl h head (xs @ e # ys) \<Longrightarrow> prv h e = last (head # xs) \<and> nxt h e = hd (ys @ [head])"
  by (auto simp: dl_def lseg_append dest: lseg_prev lseg_next)

lemma dl_del_between:
  assumes "dl h head (xs @ e # ys)"
  shows "dl (list_del_between (prv h e) (nxt h e) h) head (xs @ ys)"
proof -
  define p where p: "p = last (head # xs)"
  define n where n: "n = hd (ys @ [head])"
  define h' where "h' = list_del_between p n h"
  have d: "distinct (head # xs @ e # ys)" "lseg h head xs e" "lseg h e ys head"
    using assms by (auto simp: dl_def lseg_append)
  have in1: "p \<in> insert head (set xs)" and in2: "n \<in> insert head (set ys)"
    unfolding p n by (rule last_in_Cons, rule hd_in_snoc)
  have nx: "nxt h' = (nxt h)(p := n)" and pv: "prv h' = (prv h)(n := p)"
    by (simp_all add: h'_def list_del_between_def Let_def store)
  have "lseg h' head xs n"
    by (rule lseg_relink_end [OF d(2), folded p]) (use d(1) in1 in2 in \<open>auto simp: nx pv\<close>)
  moreover have "lseg h' p ys head"
    by (rule lseg_relink_start [OF d(3), folded n]) (use d(1) in1 in2 in \<open>auto simp: nx pv\<close>)
  ultimately have "lseg h' head (xs @ ys) head" by (simp add: lseg_split p n)
  then show ?thesis using d(1) dl_neighbours [OF assms] by (simp add: dl_def h'_def p n)
qed

lemma dl_del: "dl h head (xs @ e # ys) \<Longrightarrow> dl (list_del e h) head (xs @ ys)"
  by (simp add: list_del_def dl_del_between)

lemma dl_del_init:
  assumes "dl h head (xs @ e # ys)"
  shows "dl (list_del_init e h) head (xs @ ys)" "dl (list_del_init e h) e []"
proof -
  have "e \<notin> set (head # xs @ ys)" using assms by (auto simp: dl_def)
  then show "dl (list_del_init e h) head (xs @ ys)"
    unfolding list_del_init_def
    by (intro dl_frame [OF dl_del_between [OF assms]]) (auto simp: INIT_LIST_HEAD_def Let_def store)
  show "dl (list_del_init e h) e []" by (simp add: list_del_init_def dl_init)
qed

text \<open>What the primitives change: nothing outside the ring and the node at hand.\<close>

definition same_off :: "nat set \<Rightarrow> links \<Rightarrow> links \<Rightarrow> bool" where
  "same_off S h h' \<longleftrightarrow> (\<forall>a. a \<notin> S \<longrightarrow> nxt h' a = nxt h a \<and> prv h' a = prv h a)"

lemma dl_same_off: "dl h head xs \<Longrightarrow> same_off S h h' \<Longrightarrow> set (head # xs) \<inter> S = {} \<Longrightarrow> dl h' head xs"
  by (rule dl_frame [of h]) (auto simp: same_off_def)

lemma same_off_add_tail:
  "dl h head xs \<Longrightarrow> same_off (insert new (set (head # xs))) h (list_add_tail new head h)"
  using last_in_Cons [of head xs]
  by (auto simp: list_add_tail_def list_add_between_def Let_def store same_off_def dl_prv_head)

lemma same_off_add:
  "dl h head xs \<Longrightarrow> same_off (insert new (set (head # xs))) h (list_add new head h)"
  using hd_in_snoc [of xs head]
  by (auto simp: list_add_def list_add_between_def Let_def store same_off_def dl_nxt_head)

lemma same_off_del:
  assumes "dl h head xs" "e \<in> set xs"
  shows "same_off (set (head # xs)) h (list_del e h)"
    and "same_off (set (head # xs)) h (list_del_init e h)"
proof -
  obtain as bs where xs: "xs = as @ e # bs" using assms(2) by (meson split_list)
  then have "prv h e \<in> insert head (set as)" "nxt h e \<in> insert head (set bs)"
    using dl_neighbours [of h head as e bs] assms(1) last_in_Cons [of head as] hd_in_snoc [of bs head]
    by auto
  then show "same_off (set (head # xs)) h (list_del e h)"
    "same_off (set (head # xs)) h (list_del_init e h)"
    using xs by (auto simp: list_del_def list_del_init_def list_del_between_def INIT_LIST_HEAD_def
        Let_def store same_off_def)
qed

lemma dl_move_tail:
  "dl h head (xs @ e # ys) \<Longrightarrow> dl (list_move_tail e head h) head (xs @ ys @ [e])"
  using dl_add_tail [OF dl_del_between, of h head xs e ys e]
  by (auto simp: list_move_tail_def dl_def)

lemma dl_move:
  "dl h head (xs @ e # ys) \<Longrightarrow> dl (list_move e head h) head (e # xs @ ys)"
  using dl_add [OF dl_del_between, of h head xs e ys e]
  by (auto simp: list_move_def dl_def)

lemma dl_distinct: "dl h head xs \<Longrightarrow> distinct (head # xs)"
  by (simp add: dl_def)

lemma dl_empty: "dl h head xs \<Longrightarrow> list_empty head h \<longleftrightarrow> xs = []"
  by (cases xs) (auto simp: list_empty_def dl_def)

lemma dl_first: "dl h head xs \<Longrightarrow> list_first head h = (case xs of [] \<Rightarrow> None | x # _ \<Rightarrow> Some x)"
  by (cases xs) (auto simp: list_first_def dl_empty dl_nxt_head)

lemma dl_last: "dl h head xs \<Longrightarrow> list_last head h = (if xs = [] then None else Some (last xs))"
  by (auto simp: list_last_def dl_empty dl_prv_head)

lemma dl_singular: "dl h head xs \<Longrightarrow> list_is_singular head h \<longleftrightarrow> length xs = 1"
  by (cases xs; cases "tl xs")
     (auto simp: list_is_singular_def dl_empty dl_nxt_head dl_prv_head dest: dl_distinct split: if_splits)

lemma dl_rotate_left: "dl h head xs \<Longrightarrow> dl (list_rotate_left head h) head (rotate1 xs)"
  using dl_move_tail [of h head "[]" "hd xs" "tl xs"]
  by (cases xs) (auto simp: list_rotate_left_def dl_empty dl_nxt_head)

lemma walk_seg: "lseg h p xs q \<Longrightarrow> q \<notin> set xs \<Longrightarrow> walk_from (nxt h) q (nxt h p) = Some xs"
  by (induction xs arbitrary: p) (auto simp: walk_from.simps [of _ _ q] walk_from.simps)

lemma dl_for_each: "dl h head xs \<Longrightarrow> list_for_each head h = Some xs"
  by (auto simp: dl_def list_for_each_def walk_seg)

lemma walk_seg_rev: "lseg h p xs q \<Longrightarrow> p \<notin> set xs \<Longrightarrow> walk_from (prv h) p (prv h q) = Some (rev xs)"
proof (induction xs arbitrary: q rule: rev_induct)
  case Nil
  then show ?case by (simp add: walk_from.simps)
next
  case (snoc x xs)
  then show ?case by (simp add: lseg_append walk_from.simps [of _ _ x])
qed

lemma dl_for_each_reverse: "dl h head xs \<Longrightarrow> list_for_each_reverse head h = Some (rev xs)"
  by (auto simp: dl_def list_for_each_reverse_def walk_seg_rev)

lemma list_len_seg:
  "lseg h p xs q \<Longrightarrow> q \<notin> set xs \<Longrightarrow> list_len_from h q (nxt h p) n = Some (n + length xs)"
proof (induction xs arbitrary: p n)
  case Nil
  then show ?case by (simp add: list_len_from.simps)
next
  case (Cons x xs)
  then show ?case by (simp add: list_len_from.simps [of _ _ x])
qed

lemma dl_len: "dl h head xs \<Longrightarrow> list_len head h = Some (length xs)"
  by (auto simp: dl_def list_len_def list_len_seg)

lemma dl_replace:
  assumes "dl h head (xs @ old # ys)" "new \<notin> set (head # xs @ old # ys)"
  shows "dl (list_replace old new h) head (xs @ new # ys)"
proof -
  define p where p: "p = last (head # xs)"
  define n where n: "n = hd (ys @ [head])"
  define h' where "h' = list_replace old new h"
  have d: "distinct (head # xs @ old # ys)" "lseg h head xs old" "lseg h old ys head"
    using assms by (auto simp: dl_def lseg_append)
  have nb: "prv h old = p" "nxt h old = n" using dl_neighbours [OF assms(1)] by (simp_all add: p n)
  have in1: "p \<in> insert head (set xs)" and in2: "n \<in> insert head (set ys)"
    unfolding p n by (rule last_in_Cons, rule hd_in_snoc)
  have "n \<noteq> old" using d(1) in2 by auto
  then have nx: "nxt h' = (nxt h)(new := n, p := new)" and pv: "prv h' = (prv h)(n := new, new := p)"
    using nb by (simp_all add: h'_def list_replace_def Let_def store)
  have "lseg h' head xs new"
    by (rule lseg_relink_end [OF d(2), folded p]) (use d(1) in1 in2 assms(2) in \<open>auto simp: nx pv\<close>)
  moreover have "lseg h' new ys head"
    by (rule lseg_relink_start [OF d(3), folded n]) (use d(1) in1 in2 assms(2) in \<open>auto simp: nx pv\<close>)
  ultimately show ?thesis using d(1) assms(2) by (auto simp: dl_def lseg_append h'_def)
qed

text \<open>\<open>list_splice\<close> puts the entries of \<open>l\<close> in front of those of \<open>head\<close>.\<close>

lemma dl_splice:
  assumes l: "dl h l as" and head: "dl h head bs" and dis: "set (l # as) \<inter> set (head # bs) = {}"
  shows "dl (list_splice l head h) head (as @ bs)"
proof (cases as)
  case Nil
  then show ?thesis using assms by (simp add: list_splice_def dl_empty)
next
  case (Cons a as')
  define e where e: "e = last as"
  define n where n: "n = hd (bs @ [head])"
  define h' where "h' = list_splice l head h"
  have d: "distinct (l # as)" "lseg h a as' l" "distinct (head # bs)" "lseg h head bs head"
    using l head Cons by (auto simp: dl_def)
  have e_in: "e \<in> set as" and n_in: "n \<in> insert head (set bs)" and e2: "e = last (a # as')"
    using Cons hd_in_snoc [of bs head] by (auto simp: e n)
  have "nxt h l = a" "prv h l = e" "nxt h head = n" "\<not> list_empty l h"
    using l head Cons by (simp_all add: dl_nxt_head dl_prv_head dl_empty e n)
  moreover have "e \<noteq> head" using e_in dis by auto
  ultimately have nx: "nxt h' = (nxt h)(e := n, head := a)" and pv: "prv h' = (prv h)(a := head, n := e)"
    by (simp_all add: h'_def list_splice_def Let_def store)
  have "lseg h' a as' n"
    by (rule lseg_relink_end [OF d(2), folded e2])
       (use d(1,3) e_in n_in dis Cons in \<open>auto simp: nx pv\<close>)
  then have "lseg h' head as n" using Cons dis n_in e_in by (auto simp: nx pv)
  moreover have "lseg h' e bs head"
    by (rule lseg_relink_start [OF d(4), folded n])
       (use d(1,3) e_in n_in dis Cons in \<open>auto simp: nx pv\<close>)
  ultimately have "lseg h' head (as @ bs) head" unfolding lseg_split [of h' head as] using Cons by (simp add: e n)
  then show ?thesis using d(1,3) dis by (auto simp: dl_def h'_def)
qed

lemma dl_splice_init:
  assumes "dl h l as" "dl h head bs" "set (l # as) \<inter> set (head # bs) = {}"
  shows "dl (list_splice_init l head h) head (as @ bs)" "dl (list_splice_init l head h) l []"
proof -
  have "l \<notin> set (head # as @ bs)" using assms by (auto dest: dl_distinct)
  then show "dl (list_splice_init l head h) head (as @ bs)"
    unfolding list_splice_init_def
    by (intro dl_frame [OF dl_splice [OF assms]]) (auto simp: INIT_LIST_HEAD_def Let_def store)
  show "dl (list_splice_init l head h) l []" by (simp add: list_splice_init_def dl_init)
qed

text \<open>\<open>list_split\<close> cuts the list in front of \<open>first\<close>; the tail gets \<open>second\<close> as its sentinel.\<close>

lemma dl_split:
  assumes l: "dl h head (as @ first # bs)" and fresh: "second \<notin> set (head # as @ first # bs)"
  shows "dl (list_split first second head h) head as"
    and "dl (list_split first second head h) second (first # bs)"
proof -
  define p where p: "p = last (head # as)"
  define e where e: "e = last (first # bs)"
  define h' where "h' = list_split first second head h"
  have d: "distinct (head # as @ first # bs)" "lseg h head as first" "lseg h first bs head"
    using l by (auto simp: dl_def lseg_append)
  have in1: "p \<in> insert head (set as)" and in2: "e \<in> insert first (set bs)"
    unfolding p e by (rule last_in_Cons)+
  have "prv h head = e" "prv h first = p"
    using dl_prv_head [OF l] dl_neighbours [OF l] by (simp_all add: e p)
  moreover have "first \<noteq> head" "second \<noteq> first" "second \<noteq> head" using d(1) fresh by auto
  ultimately have nx: "nxt h' = (nxt h)(e := second, second := first, p := head)"
    and pv: "prv h' = (prv h)(second := e, head := p, first := second)"
    by (simp_all add: h'_def list_split_def Let_def store)
  have "lseg h' head as head"
    by (rule lseg_relink_end [OF d(2), folded p]) (use d(1) in1 in2 fresh in \<open>auto simp: nx pv\<close>)
  then show "dl (list_split first second head h) head as" using d(1) by (simp add: dl_def h'_def)
  have "lseg h' first bs second"
    by (rule lseg_relink_end [OF d(3), folded e]) (use d(1) in1 in2 fresh in \<open>auto simp: nx pv\<close>)
  moreover have "nxt h' second = first" "prv h' first = second"
    using d(1) in1 in2 fresh by (auto simp: nx pv)
  ultimately show "dl (list_split first second head h) second (first # bs)"
    using d(1) fresh by (simp add: dl_def h'_def)
qed

text \<open>Deleting while walking: the loop removes exactly the entries that satisfy the condition.\<close>

lemma remove_if_from_dl:
  "dl h head (xs @ ys) \<Longrightarrow>
   \<exists>h'. remove_if_from P head (hd (ys @ [head])) (nxt h (hd (ys @ [head]))) c h =
        Some (c + length (filter P ys), h') \<and> dl h' head (xs @ filter (\<lambda>x. \<not> P x) ys)"
proof (induction ys arbitrary: xs c h)
  case Nil
  then show ?case by (simp add: remove_if_from.simps)
next
  case (Cons y ys)
  have yh: "y \<noteq> head" using dl_distinct [OF Cons.prems] by auto
  have ny: "nxt h y = hd (ys @ [head])" using dl_neighbours [OF Cons.prems] by simp
  show ?case
  proof (cases "P y")
    case True
    from Cons.IH [OF dl_del [OF Cons.prems], of "c + 1"] True yh ny show ?thesis
      by (simp add: remove_if_from.simps [of P head y] Let_def)
  next
    case False
    from Cons.IH [of h "xs @ [y]" c] Cons.prems False yh ny show ?thesis
      by (simp add: remove_if_from.simps [of P head y])
  qed
qed

lemma dl_remove_if:
  "dl h head xs \<Longrightarrow> \<exists>h'. spin_list_remove_if head P h = Some (length (filter P xs), h') \<and>
     dl h' head (filter (\<lambda>x. \<not> P x) xs)"
  using remove_if_from_dl [of h head "[]" xs P 0]
  by (simp add: spin_list_remove_if_def dl_nxt_head)

section \<open>Properties\<close>

text \<open>C17: on any well-formed list, the empty one included, \<open>list_add\<close> and \<open>list_add_tail\<close> insert a new node in
  front and at the end, \<open>list_del\<close> removes exactly the given entry wherever it stands, and none of them
  disturbs a list that shares no node with this one.\<close>

theorem list_ops_correct:
  assumes "dl h head xs" "new \<notin> set (head # xs)"
  shows "dl (list_add new head h) head (new # xs) \<and> dl (list_add_tail new head h) head (xs @ [new]) \<and>
    (\<forall>ys e zs. xs = ys @ e # zs \<longrightarrow> dl (list_del e h) head (ys @ zs)) \<and>
    (\<forall>head' zs. dl h head' zs \<longrightarrow> set (head' # zs) \<inter> insert new (set (head # xs)) = {} \<longrightarrow>
       dl (list_add new head h) head' zs \<and> dl (list_add_tail new head h) head' zs \<and>
       (\<forall>e\<in>set xs. dl (list_del e h) head' zs))"
proof -
  have off: "same_off (insert new (set (head # xs))) h (list_del e h)" if "e \<in> set xs" for e
    using same_off_del(1) [OF assms(1) that] by (simp add: same_off_def)
  have "dl (list_del e h) head (ys @ zs)" if "xs = ys @ e # zs" for ys e zs using dl_del assms(1) that by blast
  then show ?thesis
    using dl_add [OF assms] dl_add_tail [OF assms]
      dl_same_off [OF _ same_off_add [OF assms(1), of new]]
      dl_same_off [OF _ same_off_add_tail [OF assms(1), of new]] dl_same_off [OF _ off]
    by simp
qed

theorem list_ops_correct_witness:
  "dl (list_add 1 0 \<lparr>nxt = id, prv = id\<rparr>) 0 [1] \<and>
   dl (list_del 1 \<lparr>nxt = id(0 := 1, 1 := 0), prv = id(0 := 1, 1 := 0)\<rparr>) 0 []"
proof
  show "dl (list_add 1 0 \<lparr>nxt = id, prv = id\<rparr>) 0 [1]"
    using list_ops_correct [of "\<lparr>nxt = id, prv = id\<rparr>" 0 "[]" 1] by (simp add: dl_def)
  have "dl \<lparr>nxt = id(0 := 1, 1 := 0), prv = id(0 := 1, 1 := 0)\<rparr> 0 [1]" by (simp add: dl_def)
  then show "dl (list_del 1 \<lparr>nxt = id(0 := 1, 1 := 0), prv = id(0 := 1, 1 := 0)\<rparr>) 0 []"
    using list_ops_correct [of "\<lparr>nxt = id(0 := 1, 1 := 0), prv = id(0 := 1, 1 := 0)\<rparr>" 0 "[1]" 2] by fastforce
qed

text \<open>C18: \<open>list_splice_init\<close> moves all entries of one list, in order, to the front of another and
  leaves the first one empty.\<close>

theorem list_splice_init_correct:
  assumes "dl h l as" "dl h head bs" "set (l # as) \<inter> set (head # bs) = {}"
  shows "dl (list_splice_init l head h) head (as @ bs) \<and> dl (list_splice_init l head h) l []"
  using dl_splice_init [OF assms] by blast

theorem list_splice_init_correct_witness:
  "dl (list_splice_init 0 2 \<lparr>nxt = id(0 := 1, 1 := 0), prv = id(0 := 1, 1 := 0)\<rparr>) 2 [1]"
  using list_splice_init_correct [of "\<lparr>nxt = id(0 := 1, 1 := 0), prv = id(0 := 1, 1 := 0)\<rparr>" 0 "[1]" 2 "[]"]
  by (simp add: dl_def)

text \<open>C19: \<open>spin_list_remove_if\<close>, which deletes entries while it walks the list, ends, removes exactly
  the entries that satisfy the condition, keeps the order of the others and returns their number.\<close>

theorem spin_list_remove_if_correct:
  assumes "dl h head xs"
  shows "\<exists>h'. spin_list_remove_if head P h = Some (length (filter P xs), h') \<and>
    dl h' head (filter (\<lambda>x. \<not> P x) xs)"
  by (rule dl_remove_if [OF assms])

theorem spin_list_remove_if_correct_witness:
  "\<exists>h'. spin_list_remove_if 0 even \<lparr>nxt = id(0 := 1, 1 := 2, 2 := 0), prv = id(1 := 0, 2 := 1, 0 := 2)\<rparr> = Some (1, h')
     \<and> dl h' 0 [1]"
  using spin_list_remove_if_correct [of "\<lparr>nxt = id(0 := 1, 1 := 2, 2 := 0), prv = id(1 := 0, 2 := 1, 0 := 2)\<rparr>" 0 "[1, 2]" even]
  by (simp add: dl_def)

end
