(* ===== verification/Sched.thy ===== *)
theory Sched
  imports DList
begin

text \<open>
  Wait queues (\<open>src/lib/waitqueue.c\<close>) and the ready lists of the scheduler (\<open>src/task/task.c\<close>,
  \<open>src/machine/time.c\<close>), built on the linked lists of \<open>DList\<close>.  A task is a number; the list nodes
  embedded in its \<open>pcb_t\<close> and the sentinels of the queues are distinct addresses, and \<open>container_of\<close>
  recovers the task from a node.  The record \<open>sched\<close> holds the fields of \<open>CPU_ITEM\<close> that the scheduler
  uses (running and idle task, number of ready tasks), by CPU, and of \<open>pcb_t\<close> the CPU number and the
  state, by task.  Each operation is the state change of its critical section: the list lock is held
  throughout and interrupts are off, so the section is one step.  \<open>sched_rep s R W\<close> relates the pointer
  structure to the ready list \<open>R c\<close> of every CPU and the waiters \<open>W q\<close> of every queue.
\<close>

datatype task_state = TASK_STATE_READY | TASK_STATE_RUNNING | TASK_STATE_SLEEP_INTERRUPTABLE
  | TASK_STATE_SLEEP_NOT_INTR_ABLE | TASK_ZOMBIE | TASK_DEAD

record sched =
  lk :: links
  cpuid :: "nat \<Rightarrow> nat"
  tstate :: "nat \<Rightarrow> task_state"
  now_running :: "nat \<Rightarrow> nat"
  idle :: "nat \<Rightarrow> nat"
  total_ready_num :: "nat \<Rightarrow> nat"

section \<open>Nodes and operations\<close>

definition wait_list_item :: "nat \<Rightarrow> nat" where "wait_list_item t = 4 * t"
definition ready_list_item :: "nat \<Rightarrow> nat" where "ready_list_item t = 4 * t + 1"
definition ready_list :: "nat \<Rightarrow> nat" where "ready_list c = 4 * c + 2"
definition wq_list :: "nat \<Rightarrow> nat" where "wq_list q = 4 * q + 3"

definition container_of :: "nat \<Rightarrow> nat" where "container_of a = a div 4"

definition put_to_ready_list_first :: "nat \<Rightarrow> sched \<Rightarrow> sched" where
  "put_to_ready_list_first t s =
     (let c = cpuid s t;
          s = s\<lparr>tstate := (tstate s)(t := TASK_STATE_READY)\<rparr>;
          s = s\<lparr>lk := list_add (ready_list_item t) (ready_list c) (lk s)\<rparr>
      in s\<lparr>total_ready_num := (total_ready_num s)(c := total_ready_num s c + 1)\<rparr>)"

text \<open>The choice and installation of the next task, common to \<open>__schedule_locked\<close> and
  \<open>__schedule_other_locked\<close>.\<close>

definition schedule_locked :: "nat \<Rightarrow> sched \<Rightarrow> sched" where
  "schedule_locked c s =
     (let (will_run, s) =
        (if nxt (lk s) (ready_list c) \<noteq> ready_list c
         then let n = nxt (lk s) (ready_list c) in
              (container_of n,
               s\<lparr>lk := list_del_init n (lk s),
                 total_ready_num := (total_ready_num s)(c := total_ready_num s c - 1)\<rparr>)
         else (idle s c, s))
      in s\<lparr>cpuid := (cpuid s)(will_run := c),
           now_running := (now_running s)(c := will_run),
           tstate := (tstate s)(will_run := TASK_STATE_RUNNING)\<rparr>)"

definition sys_yield :: "nat \<Rightarrow> sched \<Rightarrow> sched" where
  "sys_yield c s =
     (let current = now_running s c;
          s = s\<lparr>tstate := (tstate s)(current := TASK_STATE_READY)\<rparr>;
          s = s\<lparr>lk := list_add_tail (ready_list_item current) (ready_list c) (lk s)\<rparr>;
          s = s\<lparr>total_ready_num := (total_ready_num s)(c := total_ready_num s c + 1)\<rparr>
      in schedule_locked c s)"

definition sleep_on_locked :: "nat \<Rightarrow> nat \<Rightarrow> sched \<Rightarrow> sched" where
  "sleep_on_locked q c s =
     (let current = now_running s c;
          s = s\<lparr>lk := list_add_tail (wait_list_item current) (wq_list q) (lk s)\<rparr>;
          s = s\<lparr>tstate := (tstate s)(current := TASK_STATE_SLEEP_NOT_INTR_ABLE)\<rparr>
      in schedule_locked c s)"

definition sleep_on :: "nat \<Rightarrow> nat \<Rightarrow> sched \<Rightarrow> sched" where
  "sleep_on q c s =
     (let current = now_running s c;
          s = s\<lparr>lk := list_add_tail (wait_list_item current) (wq_list q) (lk s)\<rparr>;
          s = s\<lparr>tstate := (tstate s)(current := TASK_STATE_SLEEP_NOT_INTR_ABLE)\<rparr>
      in schedule_locked c s)"

definition wake_one :: "nat \<Rightarrow> sched \<Rightarrow> sched" where
  "wake_one q s =
     (let pos = nxt (lk s) (wq_list q);
          s = s\<lparr>lk := list_del_init pos (lk s)\<rparr>
      in put_to_ready_list_first (container_of pos) s)"

definition wake_up_first :: "nat \<Rightarrow> sched \<Rightarrow> sched" where
  "wake_up_first q s = (if \<not> list_empty (wq_list q) (lk s) then wake_one q s else s)"

partial_function (option) wake_up_all :: "nat \<Rightarrow> sched \<Rightarrow> sched option" where
  "wake_up_all q s =
     (if \<not> list_empty (wq_list q) (lk s) then wake_up_all q (wake_one q s) else Some s)"

definition init_wait_queue :: "nat \<Rightarrow> sched \<Rightarrow> sched" where
  "init_wait_queue q s = s\<lparr>lk := INIT_LIST_HEAD (wq_list q) (lk s)\<rparr>"

section \<open>Starting and leaving, preemption and load balancing\<close>

definition add_to_cpu_n_ready_list :: "nat \<Rightarrow> nat \<Rightarrow> nat \<Rightarrow> sched \<Rightarrow> sched option" where
  "add_to_cpu_n_ready_list total_num t n s =
     (if n \<ge> total_num then None
      else
        let s = s\<lparr>cpuid := (cpuid s)(t := n)\<rparr>;
            s = s\<lparr>lk := list_add (ready_list_item t) (ready_list n) (lk s)\<rparr>
        in Some (s\<lparr>total_ready_num := (total_ready_num s)(n := total_ready_num s n + 1)\<rparr>))"

text \<open>The end of \<open>sys_exit\<close>, what it does to the lists: the task becomes a zombie, its parent is woken, and the next task
  runs; \<open>q\<close> is the wait queue of the parent.\<close>

definition sys_exit_end :: "nat \<Rightarrow> nat \<Rightarrow> sched \<Rightarrow> sched option" where
  "sys_exit_end q c s =
     do { let s = s\<lparr>tstate := (tstate s)(now_running s c := TASK_ZOMBIE)\<rparr>;
          s \<leftarrow> wake_up_all q s;
          Some (schedule_locked c s) }"

text \<open>The end of the timer interrupt, when the time slice of the running task is used up.\<close>

definition timer_resched :: "nat \<Rightarrow> sched \<Rightarrow> sched" where
  "timer_resched c s =
     (let current = now_running s c
      in if current \<noteq> idle s c
         then let s = s\<lparr>tstate := (tstate s)(current := TASK_STATE_READY)\<rparr>;
                  s = s\<lparr>lk := list_add_tail (ready_list_item current) (ready_list c) (lk s)\<rparr>;
                  s = s\<lparr>total_ready_num := (total_ready_num s)(c := total_ready_num s c + 1)\<rparr>
              in schedule_locked c s
         else schedule_locked c s)"

text \<open>Moving a ready task to another CPU (its timers apart).\<close>

definition task_timer_travel :: "nat \<Rightarrow> nat \<Rightarrow> nat \<Rightarrow> sched \<Rightarrow> sched" where
  "task_timer_travel t from_id to_id s =
     (let s = s\<lparr>cpuid := (cpuid s)(t := to_id)\<rparr>;
          s = s\<lparr>lk := list_del_init (ready_list_item t) (lk s)\<rparr>;
          s = s\<lparr>lk := list_add_tail (ready_list_item t) (ready_list to_id) (lk s)\<rparr>;
          s = s\<lparr>total_ready_num := (total_ready_num s)(from_id := total_ready_num s from_id - 1)\<rparr>
      in s\<lparr>total_ready_num := (total_ready_num s)(to_id := total_ready_num s to_id + 1)\<rparr>)"

definition MULTI_CORE_BALANCE_DELTA :: nat where "MULTI_CORE_BALANCE_DELTA = 1"

definition tasks_travel :: "nat \<Rightarrow> nat \<Rightarrow> sched \<Rightarrow> sched" where
  "tasks_travel from_id to_id s =
     (let from_load = total_ready_num s from_id; to_load = total_ready_num s to_id
      in if from_id = to_id then s
         else if from_load \<le> to_load \<or> (from_load - to_load) div 2 < MULTI_CORE_BALANCE_DELTA then s
         else fold (\<lambda>_ s. task_timer_travel (container_of (prv (lk s) (ready_list from_id))) from_id to_id s)
                [0..<MULTI_CORE_BALANCE_DELTA] s)"

definition load_balance :: "nat \<Rightarrow> nat \<Rightarrow> sched \<Rightarrow> sched" where
  "load_balance total_num me s =
     (let (busiest_cpu, max_load, min_cpu, min_load) =
            fold (\<lambda>i (busiest_cpu, max_load, min_cpu, min_load).
                    let nr = total_ready_num s i;
                        (busiest_cpu, max_load) = (if nr > max_load then (i, nr) else (busiest_cpu, max_load));
                        (min_cpu, min_load) = (if nr < min_load then (i, nr) else (min_cpu, min_load))
                    in (busiest_cpu, max_load, min_cpu, min_load))
              [0..<total_num] (NEG1, 0, NEG1, NEG1)
      in if sub32 max_load min_load < MULTI_CORE_BALANCE_DELTA then s
         else if total_ready_num s me = max_load then tasks_travel me min_cpu s
         else if total_ready_num s me = min_load then tasks_travel busiest_cpu me s
         else s)"

section \<open>Abstract state\<close>

text \<open>Every task stands in at most one place: running on one CPU, in one ready list, or in one
  wait queue; the idle tasks are in no list.\<close>

datatype place = Running nat | Ready nat | Waiting nat

fun at_place :: "(nat \<Rightarrow> nat list) \<Rightarrow> (nat \<Rightarrow> nat list) \<Rightarrow> (nat \<Rightarrow> nat) \<Rightarrow> place \<Rightarrow> nat \<Rightarrow> bool" where
  "at_place R W run (Running c) t \<longleftrightarrow> run c = t"
| "at_place R W run (Ready c) t \<longleftrightarrow> t \<in> set (R c)"
| "at_place R W run (Waiting q) t \<longleftrightarrow> t \<in> set (W q)"

definition one_place :: "(nat \<Rightarrow> nat list) \<Rightarrow> (nat \<Rightarrow> nat list) \<Rightarrow> (nat \<Rightarrow> nat) \<Rightarrow> (nat \<Rightarrow> nat) \<Rightarrow> bool" where
  "one_place R W run idl \<longleftrightarrow>
     (\<forall>c. distinct (R c)) \<and> (\<forall>q. distinct (W q)) \<and>
     (\<forall>t p p'. at_place R W run p t \<longrightarrow> at_place R W run p' t \<longrightarrow> p = p') \<and>
     (\<forall>c p. at_place R W run p (idl c) \<longrightarrow> p = Running c) \<and> inj idl"

definition lists_rep :: "sched \<Rightarrow> (nat \<Rightarrow> nat list) \<Rightarrow> (nat \<Rightarrow> nat list) \<Rightarrow> bool" where
  "lists_rep s R W \<longleftrightarrow>
     (\<forall>c. dl (lk s) (ready_list c) (map ready_list_item (R c))) \<and>
     (\<forall>q. dl (lk s) (wq_list q) (map wait_list_item (W q))) \<and>
     (\<forall>c. total_ready_num s c = length (R c)) \<and>
     (\<forall>c c'. c \<noteq> c' \<longrightarrow> set (R c) \<inter> set (R c') = {}) \<and>
     (\<forall>q q'. q \<noteq> q' \<longrightarrow> set (W q) \<inter> set (W q') = {})"

definition sched_rep :: "sched \<Rightarrow> (nat \<Rightarrow> nat list) \<Rightarrow> (nat \<Rightarrow> nat list) \<Rightarrow> bool" where
  "sched_rep s R W \<longleftrightarrow> lists_rep s R W \<and> one_place R W (now_running s) (idle s)"

definition next_task :: "nat list \<Rightarrow> nat \<Rightarrow> nat" where
  "next_task r i = (case r of [] \<Rightarrow> i | t # _ \<Rightarrow> t)"

lemma node_inj [simp]:
  "wait_list_item t = wait_list_item u \<longleftrightarrow> t = u"
  "ready_list_item t = ready_list_item u \<longleftrightarrow> t = u"
  "ready_list c = ready_list d \<longleftrightarrow> c = d" "wq_list p = wq_list q \<longleftrightarrow> p = q"
  by (simp_all add: wait_list_item_def ready_list_item_def ready_list_def wq_list_def)

lemma node_disj [simp]:
  "wait_list_item t \<noteq> ready_list_item u" "wait_list_item t \<noteq> ready_list c" "wait_list_item t \<noteq> wq_list q"
  "ready_list_item t \<noteq> wait_list_item u" "ready_list_item t \<noteq> ready_list c" "ready_list_item t \<noteq> wq_list q"
  "ready_list c \<noteq> wait_list_item t" "ready_list c \<noteq> ready_list_item t" "ready_list c \<noteq> wq_list q"
  "wq_list q \<noteq> wait_list_item t" "wq_list q \<noteq> ready_list_item t" "wq_list q \<noteq> ready_list c"
  unfolding wait_list_item_def ready_list_item_def ready_list_def wq_list_def by presburger+

lemma container_of_item [simp]: "container_of (wait_list_item t) = t" "container_of (ready_list_item t) = t"
  by (simp_all add: container_of_def wait_list_item_def ready_list_item_def)

text \<open>One list changes and all the others keep their entries.\<close>

lemma ready_update:
  assumes R: "\<forall>c. dl h (ready_list c) (map ready_list_item (R c))"
    and W: "\<forall>q. dl h (wq_list q) (map wait_list_item (W q))"
    and c: "dl h' (ready_list c) (map ready_list_item r)"
    and off: "same_off (insert (ready_list_item t) (set (ready_list c # map ready_list_item (R c)))) h h'"
    and t: "\<forall>c'. c' \<noteq> c \<longrightarrow> t \<notin> set (R c') \<and> set (R c) \<inter> set (R c') = {}"
  shows "\<forall>c'. dl h' (ready_list c') (map ready_list_item ((R(c := r)) c'))"
    and "\<forall>q. dl h' (wq_list q) (map wait_list_item (W q))"
proof -
  have "dl h' (ready_list c') (map ready_list_item (R c'))" if "c' \<noteq> c" for c'
    using R t [rule_format, OF that] that by (intro dl_same_off [OF _ off]) auto
  then show "\<forall>c'. dl h' (ready_list c') (map ready_list_item ((R(c := r)) c'))" using c by simp
  show "\<forall>q. dl h' (wq_list q) (map wait_list_item (W q))"
    using W by (intro allI dl_same_off [OF _ off]) auto
qed

lemma wait_update:
  assumes R: "\<forall>c. dl h (ready_list c) (map ready_list_item (R c))"
    and W: "\<forall>q. dl h (wq_list q) (map wait_list_item (W q))"
    and q: "dl h' (wq_list q) (map wait_list_item w)"
    and off: "same_off (insert (wait_list_item t) (set (wq_list q # map wait_list_item (W q)))) h h'"
    and t: "\<forall>q'. q' \<noteq> q \<longrightarrow> t \<notin> set (W q') \<and> set (W q) \<inter> set (W q') = {}"
  shows "\<forall>c'. dl h' (ready_list c') (map ready_list_item (R c'))"
    and "\<forall>q'. dl h' (wq_list q') (map wait_list_item ((W(q := w)) q'))"
proof -
  have "dl h' (wq_list q') (map wait_list_item (W q'))" if "q' \<noteq> q" for q'
    using W t [rule_format, OF that] that by (intro dl_same_off [OF _ off]) auto
  then show "\<forall>q'. dl h' (wq_list q') (map wait_list_item ((W(q := w)) q'))" using q by simp
  show "\<forall>c'. dl h' (ready_list c') (map ready_list_item (R c'))"
    using R by (intro allI dl_same_off [OF _ off]) auto
qed

section \<open>The list operations of the scheduler\<close>

lemma lists_rep_cong:
  "lists_rep s R W \<Longrightarrow> lk s' = lk s \<Longrightarrow> total_ready_num s' = total_ready_num s \<Longrightarrow> lists_rep s' R W"
  by (simp add: lists_rep_def)

lemma lists_ready_front:
  assumes L: "lists_rep s R W" and t: "\<And>c. t \<notin> set (R c)"
  shows "lists_rep (put_to_ready_list_first t s) (R(cpuid s t := t # R (cpuid s t))) W"
proof -
  let ?c = "cpuid s t"
  let ?h = "list_add (ready_list_item t) (ready_list ?c) (lk s)"
  have R: "\<forall>c. dl (lk s) (ready_list c) (map ready_list_item (R c))"
    and W: "\<forall>q. dl (lk s) (wq_list q) (map wait_list_item (W q))"
    and D: "\<forall>c c'. c \<noteq> c' \<longrightarrow> set (R c) \<inter> set (R c') = {}"
    using L by (auto simp: lists_rep_def)
  have "dl ?h (ready_list ?c) (map ready_list_item (t # R ?c))"
    using dl_add [OF R [rule_format, of ?c], of "ready_list_item t"] t by (auto simp: image_iff)
  note U = ready_update [OF R W this same_off_add [OF R [rule_format, of ?c]]]
  have "\<forall>c'. c' \<noteq> ?c \<longrightarrow> t \<notin> set (R c') \<and> set (R ?c) \<inter> set (R c') = {}" using t D by auto
  note U = U [OF this]
  show ?thesis using L U t
    by (auto simp: lists_rep_def put_to_ready_list_first_def Let_def split: if_splits)
qed

lemma lists_ready_tail:
  assumes L: "lists_rep s R W" and t: "\<And>c. t \<notin> set (R c)"
  shows "lists_rep (s\<lparr>lk := list_add_tail (ready_list_item t) (ready_list c) (lk s),
      total_ready_num := (total_ready_num s)(c := total_ready_num s c + 1)\<rparr>) (R(c := R c @ [t])) W"
proof -
  let ?h = "list_add_tail (ready_list_item t) (ready_list c) (lk s)"
  have R: "\<forall>c. dl (lk s) (ready_list c) (map ready_list_item (R c))"
    and W: "\<forall>q. dl (lk s) (wq_list q) (map wait_list_item (W q))"
    and D: "\<forall>c c'. c \<noteq> c' \<longrightarrow> set (R c) \<inter> set (R c') = {}"
    using L by (auto simp: lists_rep_def)
  have "dl ?h (ready_list c) (map ready_list_item (R c @ [t]))"
    using dl_add_tail [OF R [rule_format, of c], of "ready_list_item t"] t by (auto simp: image_iff)
  note U = ready_update [OF R W this same_off_add_tail [OF R [rule_format, of c]]]
  have "\<forall>c'. c' \<noteq> c \<longrightarrow> t \<notin> set (R c') \<and> set (R c) \<inter> set (R c') = {}" using t D by auto
  note U = U [OF this]
  show ?thesis using L U t by (auto simp: lists_rep_def split: if_splits)
qed

lemma lists_wait_tail:
  assumes L: "lists_rep s R W" and t: "\<And>q. t \<notin> set (W q)"
  shows "lists_rep (s\<lparr>lk := list_add_tail (wait_list_item t) (wq_list q) (lk s)\<rparr>) R (W(q := W q @ [t]))"
proof -
  let ?h = "list_add_tail (wait_list_item t) (wq_list q) (lk s)"
  have R: "\<forall>c. dl (lk s) (ready_list c) (map ready_list_item (R c))"
    and W: "\<forall>q. dl (lk s) (wq_list q) (map wait_list_item (W q))"
    and D: "\<forall>q q'. q \<noteq> q' \<longrightarrow> set (W q) \<inter> set (W q') = {}"
    using L by (auto simp: lists_rep_def)
  have "dl ?h (wq_list q) (map wait_list_item (W q @ [t]))"
    using dl_add_tail [OF W [rule_format, of q], of "wait_list_item t"] t by (auto simp: image_iff)
  note U = wait_update [OF R W this same_off_add_tail [OF W [rule_format, of q]]]
  have "\<forall>q'. q' \<noteq> q \<longrightarrow> t \<notin> set (W q') \<and> set (W q) \<inter> set (W q') = {}" using t D by auto
  note U = U [OF this]
  show ?thesis using L U t by (auto simp: lists_rep_def split: if_splits)
qed

lemma lists_wait_head:
  assumes L: "lists_rep s R W" and w: "W q = t # ws"
  shows "nxt (lk s) (wq_list q) = wait_list_item t"
    and "lists_rep (s\<lparr>lk := list_del_init (wait_list_item t) (lk s)\<rparr>) R (W(q := ws))"
proof -
  let ?h = "list_del_init (wait_list_item t) (lk s)"
  have R: "\<forall>c. dl (lk s) (ready_list c) (map ready_list_item (R c))"
    and W: "\<forall>q. dl (lk s) (wq_list q) (map wait_list_item (W q))"
    and D: "\<forall>q q'. q \<noteq> q' \<longrightarrow> set (W q) \<inter> set (W q') = {}"
    using L by (auto simp: lists_rep_def)
  show "nxt (lk s) (wq_list q) = wait_list_item t" using W [rule_format, of q] w by (simp add: dl_nxt_head)
  have dlh: "dl ?h (wq_list q) (map wait_list_item ws)"
    using dl_del_init(1) [of "lk s" "wq_list q" "[]" "wait_list_item t" "map wait_list_item ws"]
      W [rule_format, of q] w by simp
  have off: "same_off (insert (wait_list_item t) (set (wq_list q # map wait_list_item (W q)))) (lk s) ?h"
    using same_off_del(2) [OF W [rule_format, of q], of "wait_list_item t"] w
    by (simp add: insert_absorb2 insert_commute)
  have dis: "\<forall>q'. q' \<noteq> q \<longrightarrow> t \<notin> set (W q') \<and> set (W q) \<inter> set (W q') = {}"
    using D w by (metis disjoint_iff list.set_intros(1))
  note U = wait_update [OF R W dlh off dis]
  have "set ws \<inter> set (W q') = {}" if "q' \<noteq> q" for q' using D that w by (metis disjoint_iff list.set_intros(2))
  then show "lists_rep (s\<lparr>lk := ?h\<rparr>) R (W(q := ws))"
    using L U by (auto simp: lists_rep_def split: if_splits)
qed

lemma lists_ready_del:
  assumes L: "lists_rep s R W" and r: "R c = xs @ t # ys"
  shows "lists_rep (s\<lparr>lk := list_del_init (ready_list_item t) (lk s),
      total_ready_num := (total_ready_num s)(c := total_ready_num s c - 1)\<rparr>) (R(c := xs @ ys)) W"
proof -
  let ?h = "list_del_init (ready_list_item t) (lk s)"
  have R: "\<forall>c. dl (lk s) (ready_list c) (map ready_list_item (R c))"
    and W: "\<forall>q. dl (lk s) (wq_list q) (map wait_list_item (W q))"
    and D: "\<forall>c c'. c \<noteq> c' \<longrightarrow> set (R c) \<inter> set (R c') = {}"
    using L by (auto simp: lists_rep_def)
  have dlh: "dl ?h (ready_list c) (map ready_list_item (xs @ ys))"
    using dl_del_init(1) [of "lk s" "ready_list c" "map ready_list_item xs" "ready_list_item t" "map ready_list_item ys"]
      R [rule_format, of c] r by simp
  have off: "same_off (insert (ready_list_item t) (set (ready_list c # map ready_list_item (R c)))) (lk s) ?h"
    using same_off_del(2) [OF R [rule_format, of c], of "ready_list_item t"] r
    by (simp add: insert_absorb2 insert_commute)
  have dis: "\<forall>c'. c' \<noteq> c \<longrightarrow> t \<notin> set (R c') \<and> set (R c) \<inter> set (R c') = {}" using D r by fastforce
  note U = ready_update [OF R W dlh off dis]
  have "set (xs @ ys) \<inter> set (R c') = {}" if "c' \<noteq> c" for c' using D that r by fastforce
  then show ?thesis using L U r by (auto simp: lists_rep_def split: if_splits)
qed

lemma schedule_locked_lists:
  assumes L: "lists_rep s R W"
  shows "lists_rep (schedule_locked c s) (R(c := tl (R c))) W"
    and "now_running (schedule_locked c s) = (now_running s)(c := next_task (R c) (idle s c))"
    and "cpuid (schedule_locked c s) = (cpuid s)(next_task (R c) (idle s c) := c)"
    and "tstate (schedule_locked c s) = (tstate s)(next_task (R c) (idle s c) := TASK_STATE_RUNNING)"
    and "idle (schedule_locked c s) = idle s"
proof -
  have R: "\<forall>c. dl (lk s) (ready_list c) (map ready_list_item (R c))"
    and W: "\<forall>q. dl (lk s) (wq_list q) (map wait_list_item (W q))"
    and D: "\<forall>c c'. c \<noteq> c' \<longrightarrow> set (R c) \<inter> set (R c') = {}"
    using L by (auto simp: lists_rep_def)
  have hd: "nxt (lk s) (ready_list c) = hd (map ready_list_item (R c) @ [ready_list c])"
    using R by (simp add: dl_nxt_head)
  note sl = schedule_locked_def Let_def next_task_def
  show "now_running (schedule_locked c s) = (now_running s)(c := next_task (R c) (idle s c))"
    "cpuid (schedule_locked c s) = (cpuid s)(next_task (R c) (idle s c) := c)"
    "tstate (schedule_locked c s) = (tstate s)(next_task (R c) (idle s c) := TASK_STATE_RUNNING)"
    "idle (schedule_locked c s) = idle s"
    using hd by (auto simp: sl split: list.splits)
  show "lists_rep (schedule_locked c s) (R(c := tl (R c))) W"
  proof (cases "R c")
    case Nil
    then show ?thesis using hd by (auto simp: sl fun_upd_idem intro: lists_rep_cong [OF L])
  next
    case (Cons t ts)
    let ?h = "list_del_init (ready_list_item t) (lk s)"
    have dlh: "dl ?h (ready_list c) (map ready_list_item ts)"
      using dl_del_init(1) [of "lk s" "ready_list c" "[]" "ready_list_item t" "map ready_list_item ts"]
        R [rule_format, of c] Cons by simp
    have off: "same_off (insert (ready_list_item t) (set (ready_list c # map ready_list_item (R c)))) (lk s) ?h"
      using same_off_del(2) [OF R [rule_format, of c], of "ready_list_item t"] Cons
      by (simp add: insert_absorb2 insert_commute)
    have dis: "\<forall>c'. c' \<noteq> c \<longrightarrow> t \<notin> set (R c') \<and> set (R c) \<inter> set (R c') = {}"
      using D Cons by (metis disjoint_iff list.set_intros(1))
    note U = ready_update [OF R W dlh off dis]
    have "set ts \<inter> set (R c') = {}" if "c' \<noteq> c" for c'
      using D that Cons by (metis disjoint_iff list.set_intros(2))
    then show ?thesis using L U hd Cons by (auto simp: lists_rep_def sl split: if_splits)
  qed
qed

lemma lists_rep_tstate [simp]: "lists_rep (s\<lparr>tstate := f\<rparr>) R W \<longleftrightarrow> lists_rep s R W"
  by (simp add: lists_rep_def)

section \<open>Refinement\<close>

lemma one_placeD:
  assumes "one_place R W run idl"
  shows "run c \<notin> set (R c')" "run c \<notin> set (W q)" "t \<in> set (W q) \<Longrightarrow> t \<notin> set (R c)"
    "idl c \<notin> set (R c')" "idl c \<notin> set (W q)"
  using assms unfolding one_place_def
  by (metis at_place.simps place.distinct)+

text \<open>A step that moves a task from one place to another keeps all tasks in one place each.\<close>

lemma one_place_uniq:
  "one_place R W run idl \<Longrightarrow> at_place R W run p t \<Longrightarrow> at_place R W run p' t \<Longrightarrow> p = p'"
  unfolding one_place_def by blast

lemma one_place_idle:
  "one_place R W run idl \<Longrightarrow> at_place R W run p (idl c) \<Longrightarrow> p = Running c"
  unfolding one_place_def by blast

lemma one_place_move:
  assumes P: "one_place R W run idl" and D: "\<forall>c. distinct (R' c)" "\<forall>q. distinct (W' q)"
    and off: "\<And>p u. u \<notin> M \<Longrightarrow> at_place R' W' run' p u \<Longrightarrow> at_place R W run p u"
    and on: "\<And>p u. u \<in> M \<Longrightarrow> at_place R' W' run' p u \<Longrightarrow> p = f u"
    and idl: "\<And>c. idl c \<in> M \<Longrightarrow> f (idl c) = Running c"
  shows "one_place R' W' run' idl"
proof -
  have "p = p'" if "at_place R' W' run' p t" "at_place R' W' run' p' t" for t p p'
    using off [of t p] off [of t p'] on [of t p] on [of t p'] one_place_uniq [OF P, of p t p'] that
    by (cases "t \<in> M") simp_all
  moreover have "p = Running c" if "at_place R' W' run' p (idl c)" for c p
    using off [of "idl c" p] on [of "idl c" p] idl [of c] one_place_idle [OF P, of p c] that
    by (cases "idl c \<in> M") simp_all
  moreover have "inj idl" using P by (simp add: one_place_def)
  ultimately show ?thesis using D unfolding one_place_def by blast
qed

text \<open>The next task comes from the front of the ready list, or is the idle task.\<close>

lemma next_task_place:
  assumes P: "one_place R W run idl"
  shows "next_task (R c) (idl c) \<notin> set (tl (R c))" "set (tl (R c)) \<subseteq> set (R c)"
    "at_place R W run p (next_task (R c) (idl c)) \<Longrightarrow> p = Ready c \<or> p = Running c"
    "idl d = next_task (R c) (idl c) \<Longrightarrow> d = c"
    "run d = next_task (R c) (idl c) \<Longrightarrow> d = c \<and> run c = idl c"
proof -
  have D: "distinct (R c)" using P by (simp add: one_place_def)
  show "next_task (R c) (idl c) \<notin> set (tl (R c))"
    using D one_placeD(4) [OF P, of c c] by (cases "R c") (auto simp: next_task_def)
  show "set (tl (R c)) \<subseteq> set (R c)" by (cases "R c") auto
  show "p = Ready c \<or> p = Running c" if "at_place R W run p (next_task (R c) (idl c))"
    using that one_place_idle [OF P, of p c] one_place_uniq [OF P, of p _ "Ready c"]
    by (cases "R c") (auto simp: next_task_def)
  show "d = c" if "idl d = next_task (R c) (idl c)"
    using that P one_placeD(4) [OF P, of d c]
    by (cases "R c") (auto simp: next_task_def one_place_def dest: injD)
  show "d = c \<and> run c = idl c" if "run d = next_task (R c) (idl c)"
    using that one_placeD(1) [OF P, of d c] one_place_idle [OF P, of "Running d" c]
    by (cases "R c") (auto simp: next_task_def)
qed

lemma one_place_sleep:
  assumes P: "one_place R W run idl" and cur: "run c \<noteq> idl c"
  shows "one_place (R(c := tl (R c))) (W(q := W q @ [run c])) (run(c := next_task (R c) (idl c))) idl"
proof -
  define n where "n = next_task (R c) (idl c)"
  note n = next_task_place [OF P, where c = c, folded n_def]
  have ne: "run c \<noteq> n" using n(5) cur by blast
  show ?thesis
    unfolding n_def [symmetric]
  proof (rule one_place_move [OF P, where M = "{run c, n}" and f = "\<lambda>u. if u = run c then Waiting q else Running c"])
    show "\<forall>d. distinct ((R(c := tl (R c))) d)" "\<forall>p. distinct ((W(q := W q @ [run c])) p)"
      using P one_placeD(2) [OF P] by (auto simp: one_place_def distinct_tl)
  next
    fix p u assume "u \<notin> {run c, n}" "at_place (R(c := tl (R c))) (W(q := W q @ [run c])) (run(c := n)) p u"
    then show "at_place R W run p u" using n(2) by (cases p) (auto split: if_splits)
  next
    fix p u assume u: "u \<in> {run c, n}"
      and at: "at_place (R(c := tl (R c))) (W(q := W q @ [run c])) (run(c := n)) p u"
    show "p = (if u = run c then Waiting q else Running c)"
    proof (cases "u = run c")
      case True
      then show ?thesis using at ne n(2) one_place_uniq [OF P, of p u "Running c"]
        by (cases p) (auto split: if_splits)
    next
      case False
      then show ?thesis using at u n(1) n(3) [of p]
        by (cases p) (auto split: if_splits)
    qed
  next
    fix d assume d: "idl d \<in> {run c, n}"
    have "idl d \<noteq> run c" using cur one_place_idle [OF P, of "Running c" d] by fastforce
    then show "(if idl d = run c then Waiting q else Running c) = Running d"
      using d n(4) [of d] by simp
  qed
qed

lemma one_place_next:
  assumes P: "one_place R W run idl"
  shows "one_place (R(c := tl (R c))) W (run(c := next_task (R c) (idl c))) idl"
proof -
  define n where "n = next_task (R c) (idl c)"
  note n = next_task_place [OF P, where c = c, folded n_def]
  show ?thesis
    unfolding n_def [symmetric]
  proof (rule one_place_move [OF P, where M = "{n}" and f = "\<lambda>u. Running c"])
    show "\<forall>d. distinct ((R(c := tl (R c))) d)" "\<forall>q. distinct (W q)"
      using P by (auto simp: one_place_def distinct_tl)
  next
    fix p u assume "u \<notin> {n}" "at_place (R(c := tl (R c))) W (run(c := n)) p u"
    then show "at_place R W run p u" using n(2) by (cases p) (auto split: if_splits)
  next
    fix p u assume "u \<in> {n}" "at_place (R(c := tl (R c))) W (run(c := n)) p u"
    then show "p = Running c" using n(1) n(3) [of p] by (cases p) (auto split: if_splits)
  next
    fix d assume "idl d \<in> {n}"
    then show "Running c = Running d" using n(4) [of d] by simp
  qed
qed

lemma one_place_yield:
  assumes P: "one_place R W run idl" and cur: "run c \<noteq> idl c"
  shows "one_place (R(c := tl (R c @ [run c]))) W (run(c := hd (R c @ [run c]))) idl"
proof -
  define n where "n = hd (R c @ [run c])"
  have D: "distinct (R c @ [run c])" using P one_placeD(1) [OF P] by (simp add: one_place_def)
  have n: "n \<notin> set (tl (R c @ [run c]))" "set (R c @ [run c]) = insert n (set (tl (R c @ [run c])))"
    using D unfolding n_def by (cases "R c @ [run c]"; simp)+
  have at: "p = Ready c \<or> p = Running c" if "u \<in> set (R c @ [run c])" "at_place R W run p u" for p u
    using one_place_uniq [OF P that(2), of "Ready c"] one_place_uniq [OF P that(2), of "Running c"] that(1)
    by auto
  show ?thesis
    unfolding n_def [symmetric]
  proof (rule one_place_move [OF P, where M = "set (R c @ [run c])" and f = "\<lambda>u. if u = n then Running c else Ready c"])
    show "\<forall>d. distinct ((R(c := tl (R c @ [run c]))) d)" "\<forall>q. distinct (W q)"
      using P distinct_tl [OF D] by (auto simp: one_place_def)
  next
    fix p u assume "u \<notin> set (R c @ [run c])" "at_place (R(c := tl (R c @ [run c]))) W (run(c := n)) p u"
    then show "at_place R W run p u" using n(2) by (cases p) (auto split: if_splits)
  next
    fix p u assume "u \<in> set (R c @ [run c])" "at_place (R(c := tl (R c @ [run c]))) W (run(c := n)) p u"
    then show "p = (if u = n then Running c else Ready c)"
      using at [of u p] n(1) by (cases p) (auto split: if_splits)
  next
    fix d assume "idl d \<in> set (R c @ [run c])"
    then have "idl d = run c" using one_placeD(4) [OF P] by simp
    then show "(if idl d = n then Running c else Ready c) = Running d"
      using cur one_place_idle [OF P, of "Running c" d] by fastforce
  qed
qed

lemma one_place_wake:
  assumes P: "one_place R W run idl" and w: "W q = t # ws"
  shows "one_place (R(c := t # R c)) (W(q := ws)) run idl"
proof (rule one_place_move [OF P, where M = "{t}" and f = "\<lambda>u. Ready c"])
  have t: "t \<in> set (W q)" using w by simp
  have D: "distinct (t # ws)" using w P unfolding one_place_def by metis
  show "\<forall>d. distinct ((R(c := t # R c)) d)" "\<forall>p. distinct ((W(q := ws)) p)"
    using P D one_placeD(3) [OF P t, of c] by (auto simp: one_place_def)
  show "at_place R W run p u" if "u \<notin> {t}" "at_place (R(c := t # R c)) (W(q := ws)) run p u" for p u
    using that w by (cases p) (auto split: if_splits)
  show "p = Ready c" if "u \<in> {t}" "at_place (R(c := t # R c)) (W(q := ws)) run p u" for p u
    using that D one_place_uniq [OF P, of p t "Waiting q"] t by (cases p) (auto split: if_splits)
  show "Ready c = Running d" if "idl d \<in> {t}" for d
    using that one_placeD(5) [OF P, of d q] t by simp
qed

lemma one_place_travel:
  assumes P: "one_place R W run idl" and r: "R d = ts @ [t]" and ne: "d \<noteq> c"
  shows "one_place (R(d := ts, c := R c @ [t])) W run idl"
proof (rule one_place_move [OF P, where M = "{t}" and f = "\<lambda>u. Ready c"])
  have t: "t \<in> set (R d)" using r by simp
  have D: "distinct (ts @ [t])" using r P unfolding one_place_def by metis
  have "t \<notin> set (R c)" using one_place_uniq [OF P, of "Ready d" t "Ready c"] t ne by auto
  then show "\<forall>e. distinct ((R(d := ts, c := R c @ [t])) e)" "\<forall>q. distinct (W q)"
    using P D by (auto simp: one_place_def)
  show "at_place R W run p u" if "u \<notin> {t}" "at_place (R(d := ts, c := R c @ [t])) W run p u" for p u
    using that r by (cases p) (auto split: if_splits)
  show "p = Ready c" if "u \<in> {t}" "at_place (R(d := ts, c := R c @ [t])) W run p u" for p u
    using that D one_place_uniq [OF P, of p t "Ready d"] t by (cases p) (auto split: if_splits)
  show "Ready c = Running e" if "idl e \<in> {t}" for e
    using that one_placeD(4) [OF P, of e d] t by simp
qed

lemma one_place_enter:
  assumes P: "one_place R W run idl" and t: "\<And>p. \<not> at_place R W run p t" "t \<notin> range idl"
  shows "one_place (R(c := t # R c)) W run idl"
proof (rule one_place_move [OF P, where M = "{t}" and f = "\<lambda>u. Ready c"])
  show "\<forall>e. distinct ((R(c := t # R c)) e)" "\<forall>q. distinct (W q)"
    using P t(1) [of "Ready c"] by (auto simp: one_place_def)
  show "at_place R W run p u" if "u \<notin> {t}" "at_place (R(c := t # R c)) W run p u" for p u
    using that by (cases p) (auto split: if_splits)
  show "p = Ready c" if "u \<in> {t}" "at_place (R(c := t # R c)) W run p u" for p u
    using that t(1) [of p] by (cases p) (auto split: if_splits)
  show "Ready c = Running e" if "idl e \<in> {t}" for e using that t(2) by auto
qed

text \<open>Refinement of the operations, on the lists.\<close>

lemma sleep_on_rep:
  assumes S: "sched_rep s R W" and cur: "now_running s c \<noteq> idle s c"
  shows "sched_rep (sleep_on q c s) (R(c := tl (R c))) (W(q := W q @ [now_running s c]))"
    and "now_running (sleep_on q c s) = (now_running s)(c := next_task (R c) (idle s c))"
proof -
  have L: "lists_rep s R W" and P: "one_place R W (now_running s) (idle s)"
    using S by (simp_all add: sched_rep_def)
  have L1: "lists_rep (s\<lparr>lk := list_add_tail (wait_list_item (now_running s c)) (wq_list q) (lk s),
      tstate := (tstate s)(now_running s c := TASK_STATE_SLEEP_NOT_INTR_ABLE)\<rparr>) R (W(q := W q @ [now_running s c]))"
    using lists_wait_tail [OF L one_placeD(2) [OF P], of c q] by simp
  note sc = schedule_locked_lists [OF L1, of c]
  show "now_running (sleep_on q c s) = (now_running s)(c := next_task (R c) (idle s c))"
    using sc(2) by (simp add: sleep_on_def Let_def)
  then show "sched_rep (sleep_on q c s) (R(c := tl (R c))) (W(q := W q @ [now_running s c]))"
    using sc(1,5) one_place_sleep [OF P cur, of q]
    by (simp add: sched_rep_def sleep_on_def Let_def)
qed

lemma sleep_on_locked_eq: "sleep_on_locked q c s = sleep_on q c s"
  by (simp add: sleep_on_def sleep_on_locked_def)

lemma sys_yield_rep:
  assumes S: "sched_rep s R W" and cur: "now_running s c \<noteq> idle s c"
  shows "sched_rep (sys_yield c s) (R(c := tl (R c @ [now_running s c]))) W"
    and "now_running (sys_yield c s) = (now_running s)(c := hd (R c @ [now_running s c]))"
proof -
  let ?t = "now_running s c"
  have L: "lists_rep s R W" and P: "one_place R W (now_running s) (idle s)"
    using S by (simp_all add: sched_rep_def)
  have L1: "lists_rep (s\<lparr>tstate := (tstate s)(?t := TASK_STATE_READY),
      lk := list_add_tail (ready_list_item ?t) (ready_list c) (lk s),
      total_ready_num := (total_ready_num s)(c := total_ready_num s c + 1)\<rparr>) (R(c := R c @ [?t])) W"
    using lists_ready_tail [OF L one_placeD(1) [OF P], of c c]
    by (rule lists_rep_cong) simp_all
  have nt: "next_task (R c @ [?t]) i = hd (R c @ [?t])" for i by (cases "R c") (simp_all add: next_task_def)
  note sc = schedule_locked_lists [OF L1, of c]
  show "now_running (sys_yield c s) = (now_running s)(c := hd (R c @ [?t]))"
    using sc(2) by (simp add: sys_yield_def Let_def nt)
  then show "sched_rep (sys_yield c s) (R(c := tl (R c @ [?t]))) W"
    using sc(1,5) one_place_yield [OF P cur] by (simp add: sched_rep_def sys_yield_def Let_def)
qed

lemma wake_one_rep:
  assumes S: "sched_rep s R W" and w: "W q = t # ws"
  shows "sched_rep (wake_one q s) (R(cpuid s t := t # R (cpuid s t))) (W(q := ws))"
    and "now_running (wake_one q s) = now_running s" "cpuid (wake_one q s) = cpuid s"
    and "tstate (wake_one q s) = (tstate s)(t := TASK_STATE_READY)" "idle (wake_one q s) = idle s"
proof -
  have L: "lists_rep s R W" and P: "one_place R W (now_running s) (idle s)"
    using S by (simp_all add: sched_rep_def)
  note h = lists_wait_head [OF L w]
  have "t \<notin> set (R c)" for c using one_placeD(3) [OF P, of t q c] w by simp
  note f = lists_ready_front [OF h(2) this]
  show "now_running (wake_one q s) = now_running s" "cpuid (wake_one q s) = cpuid s"
    "tstate (wake_one q s) = (tstate s)(t := TASK_STATE_READY)" "idle (wake_one q s) = idle s"
    by (simp_all add: wake_one_def Let_def put_to_ready_list_first_def h(1))
  then show "sched_rep (wake_one q s) (R(cpuid s t := t # R (cpuid s t))) (W(q := ws))"
    using f one_place_wake [OF P w, of "cpuid s t"]
    by (simp add: sched_rep_def wake_one_def Let_def h(1))
qed

text \<open>What waking the tasks \<open>ws\<close> one after the other does to the ready lists.\<close>

fun push_ready :: "(nat \<Rightarrow> nat) \<Rightarrow> nat list \<Rightarrow> (nat \<Rightarrow> nat list) \<Rightarrow> nat \<Rightarrow> nat list" where
  "push_ready cp [] R = R"
| "push_ready cp (t # ts) R = push_ready cp ts (R(cp t := t # R (cp t)))"

lemma push_ready_eq: "push_ready cp ts R c = rev (filter (\<lambda>t. cp t = c) ts) @ R c"
  by (induction ts arbitrary: R) auto

lemma sched_rep_wait: "sched_rep s R W \<Longrightarrow> dl (lk s) (wq_list q) (map wait_list_item (W q))"
  by (simp add: sched_rep_def lists_rep_def)

lemma wake_up_all_rep:
  assumes "sched_rep s R W"
  shows "\<exists>s'. wake_up_all q s = Some s' \<and>
    sched_rep s' (push_ready (cpuid s) (W q) R) (W(q := [])) \<and>
    now_running s' = now_running s \<and> cpuid s' = cpuid s \<and> idle s' = idle s \<and>
    tstate s' = (\<lambda>t. if t \<in> set (W q) then TASK_STATE_READY else tstate s t)"
  using assms
proof (induction "W q" arbitrary: s R W)
  case Nil
  then have "list_empty (wq_list q) (lk s)" "W(q := []) = W"
    using dl_empty [OF sched_rep_wait [OF Nil(2), of q]] by (auto simp: fun_upd_idem)
  then show ?case using Nil by (simp add: wake_up_all.simps [of q s] fun_eq_iff flip: Nil(1))
next
  case (Cons t ws)
  have w: "W q = t # ws" using Cons.hyps(2) by simp
  have ne: "\<not> list_empty (wq_list q) (lk s)"
    using dl_empty [OF sched_rep_wait [OF Cons.prems, of q]] w by simp
  note one = wake_one_rep [OF Cons.prems w]
  have ts: "(\<lambda>u. if u \<in> set ws then TASK_STATE_READY else ((tstate s)(t := TASK_STATE_READY)) u) =
      (\<lambda>u. if u \<in> set (W q) then TASK_STATE_READY else tstate s u)"
    by (auto simp: w)
  have "ws = (W(q := ws)) q" by simp
  from Cons.hyps(1) [OF this one(1), unfolded one(2-5)] show ?case
    using ne ts by (simp add: wake_up_all.simps [of q s] w)
qed

text \<open>The tasks the scheduler holds.\<close>

definition held :: "(nat \<Rightarrow> nat list) \<Rightarrow> (nat \<Rightarrow> nat list) \<Rightarrow> (nat \<Rightarrow> nat) \<Rightarrow> nat set" where
  "held R W run = {t. \<exists>p. at_place R W run p t}"

lemma held_iff: "t \<in> held R W run \<longleftrightarrow> (\<exists>c. run c = t) \<or> (\<exists>c. t \<in> set (R c)) \<or> (\<exists>q. t \<in> set (W q))"
proof -
  have "(\<exists>p. at_place R W run p t) \<longleftrightarrow>
      (\<exists>c. at_place R W run (Running c) t) \<or> (\<exists>c. at_place R W run (Ready c) t) \<or> (\<exists>q. at_place R W run (Waiting q) t)"
    by (metis place.exhaust)
  then show ?thesis by (simp add: held_def)
qed

text \<open>The steps that keep all tasks: a task yields or is preempted by the timer, goes to sleep on a queue or is
  woken, the idle task of a CPU gives way to the first ready task, and ready tasks move between CPUs.\<close>

inductive sched_step :: "sched \<Rightarrow> sched \<Rightarrow> bool" where
  step_yield: "now_running s c \<noteq> idle s c \<Longrightarrow> sched_step s (sys_yield c s)"
| step_idle: "now_running s c = idle s c \<Longrightarrow> sched_step s (schedule_locked c s)"
| step_sleep: "now_running s c \<noteq> idle s c \<Longrightarrow> sched_step s (sleep_on q c s)"
| step_wake_first: "sched_step s (wake_up_first q s)"
| step_wake_all: "wake_up_all q s = Some s' \<Longrightarrow> sched_step s s'"
| step_timer: "sched_step s (timer_resched c s)"
| step_balance: "sched_step s (load_balance total_num c s)"

text \<open>All steps, with the set \<open>H\<close> of the tasks that the scheduler should hold, idle tasks apart: a task that calls
  \<open>schedule\<close> itself, as \<open>mutex_lock\<close> does, or \<open>sys_exit\<close> leaves; a new task, and a task put on a ready list
  from outside the wait queues, as \<open>mutex_unlock\<close> does, enters.\<close>

inductive sched_move :: "sched \<times> nat set \<Rightarrow> sched \<times> nat set \<Rightarrow> bool" where
  move_step: "sched_step s s' \<Longrightarrow> sched_move (s, H) (s', H)"
| move_schedule: "now_running s c \<noteq> idle s c \<Longrightarrow> sched_move (s, H) (schedule_locked c s, H - {now_running s c})"
| move_exit: "now_running s c \<noteq> idle s c \<Longrightarrow> sys_exit_end q c s = Some s' \<Longrightarrow> sched_move (s, H) (s', H - {now_running s c})"
| move_ready: "t \<notin> H \<Longrightarrow> t \<notin> range (idle s) \<Longrightarrow> sched_move (s, H) (put_to_ready_list_first t s, insert t H)"
| move_new: "t \<notin> H \<Longrightarrow> t \<notin> range (idle s) \<Longrightarrow> add_to_cpu_n_ready_list total_num t n s = Some s' \<Longrightarrow>
    sched_move (s, H) (s', insert t H)"

text \<open>\<open>keeps s R W s'\<close>: the state \<open>s'\<close> is well-formed and holds the tasks that \<open>s\<close> held.\<close>

definition keeps :: "sched \<Rightarrow> (nat \<Rightarrow> nat list) \<Rightarrow> (nat \<Rightarrow> nat list) \<Rightarrow> sched \<Rightarrow> bool" where
  "keeps s R W s' \<longleftrightarrow> (\<exists>R' W'. sched_rep s' R' W' \<and> idle s' = idle s \<and>
     held R' W' (now_running s') - range (idle s) = held R W (now_running s) - range (idle s))"

lemma keepsI:
  assumes "sched_rep s' R' W'" "idle s' = idle s"
    "\<And>t. t \<notin> range (idle s) \<Longrightarrow> t \<in> held R' W' (now_running s') \<longleftrightarrow> t \<in> held R W (now_running s)"
  shows "keeps s R W s'"
  using assms unfolding keeps_def by blast

lemma ex_upd: "(\<exists>c'. P ((f(c := v)) c')) \<longleftrightarrow> P v \<or> (\<exists>c'. c' \<noteq> c \<and> P (f c'))"
  by (metis fun_upd_other fun_upd_same)

lemma ex_split: "(\<exists>c'. P (f c')) \<longleftrightarrow> P (f c) \<or> (\<exists>c'. c' \<noteq> c \<and> P (f c'))"
  by metis

lemma idle_sleep_on [simp]: "idle (sleep_on q c s) = idle s"
  by (simp add: sleep_on_def schedule_locked_def Let_def)

lemma idle_sys_yield [simp]: "idle (sys_yield c s) = idle s"
  by (simp add: sys_yield_def schedule_locked_def Let_def)

lemma keeps_sleep:
  assumes "sched_rep s R W" "now_running s c \<noteq> idle s c"
  shows "keeps s R W (sleep_on q c s)"
proof (rule keepsI [OF sleep_on_rep(1) [OF assms]])
  fix t assume "t \<notin> range (idle s)"
  then show "t \<in> held (R(c := tl (R c))) (W(q := W q @ [now_running s c])) (now_running (sleep_on q c s)) \<longleftrightarrow>
      t \<in> held R W (now_running s)"
    unfolding held_iff sleep_on_rep(2) [OF assms]
      ex_upd [of "\<lambda>r. r = t"] ex_upd [of "\<lambda>r. t \<in> set r"]
      ex_split [of "\<lambda>r. r = t" "now_running s" c] ex_split [of "\<lambda>r. t \<in> set r" R c]
      ex_split [of "\<lambda>r. t \<in> set r" W q]
    by (cases "R c") (auto simp: next_task_def)
qed simp

lemma keeps_yield:
  assumes "sched_rep s R W" "now_running s c \<noteq> idle s c"
  shows "keeps s R W (sys_yield c s)"
proof (rule keepsI [OF sys_yield_rep(1) [OF assms]])
  fix t
  show "t \<in> held (R(c := tl (R c @ [now_running s c]))) W (now_running (sys_yield c s)) \<longleftrightarrow>
      t \<in> held R W (now_running s)"
    unfolding held_iff sys_yield_rep(2) [OF assms]
      ex_upd [of "\<lambda>r. r = t"] ex_upd [of "\<lambda>r. t \<in> set r"]
      ex_split [of "\<lambda>r. r = t" "now_running s" c] ex_split [of "\<lambda>r. t \<in> set r" R c]
    by (cases "R c") auto
qed simp

lemma keeps_idle:
  assumes S: "sched_rep s R W" and i: "now_running s c = idle s c"
  shows "keeps s R W (schedule_locked c s)"
proof -
  have L: "lists_rep s R W" and P: "one_place R W (now_running s) (idle s)"
    using S by (simp_all add: sched_rep_def)
  note sl = schedule_locked_lists [OF L, of c]
  have "sched_rep (schedule_locked c s) (R(c := tl (R c))) W"
    using sl(1,2,5) one_place_next [OF P] by (simp add: sched_rep_def)
  then show ?thesis
  proof (rule keepsI)
    fix t assume "t \<notin> range (idle s)"
    then show "t \<in> held (R(c := tl (R c))) W (now_running (schedule_locked c s)) \<longleftrightarrow> t \<in> held R W (now_running s)"
      unfolding held_iff sl(2)
        ex_upd [of "\<lambda>r. r = t"] ex_upd [of "\<lambda>r. t \<in> set r"]
        ex_split [of "\<lambda>r. r = t" "now_running s" c] ex_split [of "\<lambda>r. t \<in> set r" R c]
      using i by (cases "R c") (auto simp: next_task_def)
  qed (rule sl(5))
qed

lemma keeps_wake_first:
  assumes S: "sched_rep s R W"
  shows "keeps s R W (wake_up_first q s)"
proof (cases "W q")
  case Nil
  then have "wake_up_first q s = s"
    using dl_empty [OF sched_rep_wait [OF S, of q]] by (simp add: wake_up_first_def)
  then show ?thesis using S by (auto simp: keeps_def)
next
  case (Cons w ws)
  then have eq: "wake_up_first q s = wake_one q s"
    using dl_empty [OF sched_rep_wait [OF S, of q]] by (simp add: wake_up_first_def)
  note one = wake_one_rep [OF S Cons]
  show ?thesis
    unfolding eq
  proof (rule keepsI [OF one(1,5)])
    fix t
    show "t \<in> held (R(cpuid s w := w # R (cpuid s w))) (W(q := ws)) (now_running (wake_one q s)) \<longleftrightarrow>
        t \<in> held R W (now_running s)"
      unfolding held_iff one(2) ex_upd [of "\<lambda>r. t \<in> set r"]
        ex_split [of "\<lambda>r. t \<in> set r" R "cpuid s w"] ex_split [of "\<lambda>r. t \<in> set r" W q] Cons
      by auto
  qed
qed

lemma keeps_wake_all:
  assumes S: "sched_rep s R W" and w: "wake_up_all q s = Some s'"
  shows "keeps s R W s'"
proof -
  from wake_up_all_rep [OF S, of q] w
  have r: "sched_rep s' (push_ready (cpuid s) (W q) R) (W(q := []))" "now_running s' = now_running s" "idle s' = idle s"
    by auto
  show ?thesis
  proof (rule keepsI [OF r(1,3)])
    fix t
    show "t \<in> held (push_ready (cpuid s) (W q) R) (W(q := [])) (now_running s') \<longleftrightarrow> t \<in> held R W (now_running s)"
      unfolding held_iff r(2) push_ready_eq ex_upd [of "\<lambda>r. t \<in> set r"] ex_split [of "\<lambda>r. t \<in> set r" W q]
      by auto
  qed
qed

lemma timer_resched_eq: "timer_resched c s = (if now_running s c \<noteq> idle s c then sys_yield c s else schedule_locked c s)"
  by (simp add: timer_resched_def sys_yield_def Let_def)

lemma keeps_travel:
  assumes S: "sched_rep s R W" and ne: "d \<noteq> c" and r: "R d \<noteq> []"
  shows "keeps s R W (task_timer_travel (container_of (prv (lk s) (ready_list d))) d c s)"
proof -
  have L: "lists_rep s R W" and P: "one_place R W (now_running s) (idle s)"
    using S by (simp_all add: sched_rep_def)
  obtain ts t where t: "R d = ts @ [t]" using r rev_exhaust by blast
  have "dl (lk s) (ready_list d) (map ready_list_item (ts @ [t]))" using L t by (metis lists_rep_def)
  then have n: "container_of (prv (lk s) (ready_list d)) = t" by (simp add: dl_prv_head)
  let ?s = "task_timer_travel t d c s"
  have D: "distinct (ts @ [t])" using t P unfolding one_place_def by metis
  have out: "t \<notin> set ((R(d := ts)) e)" for e
    using D one_place_uniq [OF P, of "Ready d" t "Ready e"] t by (cases "e = d") auto
  have "lists_rep (s\<lparr>lk := list_del_init (ready_list_item t) (lk s),
      total_ready_num := (total_ready_num s)(d := total_ready_num s d - 1)\<rparr>) (R(d := ts)) W"
    using lists_ready_del [OF L, of d ts t "[]"] t by simp
  from lists_ready_tail [OF this out, of c]
  have "lists_rep ?s ((R(d := ts))(c := (R(d := ts)) c @ [t])) W"
    by (rule lists_rep_cong) (simp_all add: task_timer_travel_def Let_def)
  then have "lists_rep ?s (R(d := ts, c := R c @ [t])) W" using ne by simp
  then have "sched_rep ?s (R(d := ts, c := R c @ [t])) W"
    using one_place_travel [OF P t ne] by (simp add: sched_rep_def task_timer_travel_def Let_def)
  then show ?thesis
    unfolding n
  proof (rule keepsI)
    fix u
    have "u \<in> set ((R(d := ts, c := R c @ [t])) (if e = d \<and> u = t then c else e))" if "u \<in> set (R e)" for e
      using that ne t by auto
    moreover have "\<exists>e'. u \<in> set (R e')" if "u \<in> set ((R(d := ts, c := R c @ [t])) e)" for e
      using that t by (auto split: if_splits intro: exI [of _ d])
    ultimately have "(\<exists>e. u \<in> set ((R(d := ts, c := R c @ [t])) e)) \<longleftrightarrow> (\<exists>e. u \<in> set (R e))" by blast
    then show "u \<in> held (R(d := ts, c := R c @ [t])) W (now_running ?s) \<longleftrightarrow> u \<in> held R W (now_running s)"
      unfolding held_iff by (simp add: task_timer_travel_def Let_def)
  qed (simp add: task_timer_travel_def Let_def)
qed

lemma keeps_refl: "sched_rep s R W \<Longrightarrow> keeps s R W s"
  by (auto simp: keeps_def)

lemma keeps_tasks_travel:
  assumes S: "sched_rep s R W"
  shows "keeps s R W (tasks_travel d c s)"
proof (cases "d = c \<or> total_ready_num s d \<le> total_ready_num s c \<or> (total_ready_num s d - total_ready_num s c) div 2 < 1")
  case True
  then show ?thesis using keeps_refl [OF S] by (auto simp: tasks_travel_def MULTI_CORE_BALANCE_DELTA_def Let_def)
next
  case False
  have "total_ready_num s d = length (R d)" using S by (simp add: sched_rep_def lists_rep_def)
  then have "R d \<noteq> []" using False by auto
  from keeps_travel [OF S _ this, of c] False show ?thesis
    by (simp add: tasks_travel_def MULTI_CORE_BALANCE_DELTA_def Let_def upt_rec)
qed

lemma keeps_load_balance: "sched_rep s R W \<Longrightarrow> keeps s R W (load_balance n c s)"
  by (simp add: load_balance_def keeps_refl keeps_tasks_travel Let_def split: prod.split)

lemma sched_step_keeps: "sched_step s s' \<Longrightarrow> sched_rep s R W \<Longrightarrow> keeps s R W s'"
  by (induction rule: sched_step.induct)
     (simp_all add: keeps_sleep keeps_yield keeps_idle keeps_wake_first keeps_wake_all timer_resched_eq keeps_load_balance)

text \<open>\<open>holds s H\<close>: the structure is well-formed and holds the tasks \<open>H\<close> besides idle tasks.\<close>

definition holds :: "(nat \<Rightarrow> nat) \<Rightarrow> sched \<Rightarrow> nat set \<Rightarrow> bool" where
  "holds idl s H \<longleftrightarrow> (\<exists>R W. sched_rep s R W \<and> idle s = idl \<and> held R W (now_running s) - range idl = H)"

lemma holds_keeps: "holds idl s H \<Longrightarrow> (\<And>R W. sched_rep s R W \<Longrightarrow> keeps s R W s') \<Longrightarrow> holds idl s' H"
  unfolding holds_def keeps_def by metis

lemma holds_schedule:
  assumes "holds idl s H" "now_running s c \<noteq> idle s c"
  shows "holds idl (schedule_locked c s) (H - {now_running s c})"
proof -
  obtain R W where S: "sched_rep s R W" "idle s = idl" "held R W (now_running s) - range idl = H"
    using assms(1) by (auto simp: holds_def)
  have L: "lists_rep s R W" and P: "one_place R W (now_running s) (idle s)" using S(1) by (simp_all add: sched_rep_def)
  note sl = schedule_locked_lists [OF L, of c]
  let ?R = "R(c := tl (R c))" and ?r = "now_running s c"
  have "sched_rep (schedule_locked c s) ?R W" using sl(1,2,5) one_place_next [OF P] by (simp add: sched_rep_def)
  moreover have "held ?R W (now_running (schedule_locked c s)) - range idl = H - {?r}"
  proof -
    have out: "?r \<notin> set (R d)" "?r \<notin> set (W q)" "now_running s d = ?r \<Longrightarrow> d = c" for d q
      using one_placeD(1,2) [OF P] one_place_uniq [OF P, of "Running d" ?r "Running c"] by auto
    have "t \<in> held ?R W (now_running (schedule_locked c s)) \<longleftrightarrow> t \<in> held R W (now_running s) \<and> t \<noteq> ?r"
      if "t \<notin> range (idle s)" for t
      unfolding held_iff sl(2) ex_upd [of "\<lambda>r. r = t"] ex_upd [of "\<lambda>r. t \<in> set r"]
        ex_split [of "\<lambda>r. r = t" "now_running s" c] ex_split [of "\<lambda>r. t \<in> set r" R c]
      using that out by (cases "R c") (auto simp: next_task_def, (metis list.set_intros)+)
    then show ?thesis using S(2,3) by auto
  qed
  ultimately show ?thesis using S(2) sl(5) by (auto simp: holds_def)
qed

lemma holds_exit:
  assumes "holds idl s H" "now_running s c \<noteq> idle s c" "sys_exit_end q c s = Some s'"
  shows "holds idl s' (H - {now_running s c})"
proof -
  let ?z = "s\<lparr>tstate := (tstate s)(now_running s c := TASK_ZOMBIE)\<rparr>"
  have z: "holds idl ?z H" using assms(1) by (simp add: holds_def sched_rep_def)
  obtain s1 where s1: "wake_up_all q ?z = Some s1" "s' = schedule_locked c s1"
    using assms(3) by (auto simp: sys_exit_end_def Let_def bind_eq_Some_conv)
  obtain R W where "sched_rep ?z R W" using z by (auto simp: holds_def)
  from wake_up_all_rep [OF this, of q] s1(1) have "now_running s1 = now_running s" "idle s1 = idle s" by auto
  moreover have "holds idl s1 H" using holds_keeps [OF z] keeps_wake_all s1(1) by blast
  ultimately show ?thesis using holds_schedule [of idl s1 H c] assms(2) s1(2) by simp
qed

lemma holds_enter:
  assumes "holds idl s H" "t \<notin> H" "t \<notin> range (idle s)" "lk s' = list_add (ready_list_item t) (ready_list n) (lk s)"
    "total_ready_num s' = (total_ready_num s)(n := total_ready_num s n + 1)" "now_running s' = now_running s" "idle s' = idle s"
  shows "holds idl s' (insert t H)"
proof -
  obtain R W where S: "sched_rep s R W" "idle s = idl" "held R W (now_running s) - range idl = H"
    using assms(1) by (auto simp: holds_def)
  have L: "lists_rep s R W" and P: "one_place R W (now_running s) (idle s)" using S(1) by (simp_all add: sched_rep_def)
  have out: "\<not> at_place R W (now_running s) p t" for p using assms(2,3) S by (auto simp: held_def)
  have "lists_rep (put_to_ready_list_first t (s\<lparr>cpuid := (cpuid s)(t := n)\<rparr>)) (R(n := t # R n)) W"
    using lists_ready_front [OF lists_rep_cong [OF L, of "s\<lparr>cpuid := (cpuid s)(t := n)\<rparr>"], of t] out [of "Ready _"] by simp
  then have "lists_rep s' (R(n := t # R n)) W"
    by (rule lists_rep_cong) (simp_all add: put_to_ready_list_first_def Let_def assms)
  then have "sched_rep s' (R(n := t # R n)) W" using one_place_enter [OF P out assms(3)] assms(6,7) by (simp add: sched_rep_def)
  moreover have "held (R(n := t # R n)) W (now_running s') - range idl = insert t H"
  proof -
    have "u \<in> held (R(n := t # R n)) W (now_running s') \<longleftrightarrow> u = t \<or> u \<in> held R W (now_running s)" for u
      unfolding held_iff assms(6) ex_upd [of "\<lambda>r. u \<in> set r"] ex_split [of "\<lambda>r. u \<in> set r" R n] by auto
    then show ?thesis using S(2,3) assms(3) by auto
  qed
  ultimately show ?thesis using assms(7) S(2) by (auto simp: holds_def)
qed

lemma sched_move_holds: "sched_move a b \<Longrightarrow> holds idl (fst a) (snd a) \<Longrightarrow> holds idl (fst b) (snd b)"
proof (induction rule: sched_move.induct)
  case (move_step s s' H)
  then show ?case using holds_keeps sched_step_keeps by (metis fst_conv snd_conv)
next
  case (move_ready t H s)
  then show ?case using holds_enter [of idl s H t "put_to_ready_list_first t s" "cpuid s t"]
    by (simp add: put_to_ready_list_first_def Let_def)
next
  case (move_new t H s n k s')
  then show ?case using holds_enter [of idl s H t s' k]
    by (auto simp: add_to_cpu_n_ready_list_def Let_def split: if_splits)
qed (use holds_schedule holds_exit in auto)

interpretation sm: invariant_system "\<lambda>a. holds idl (fst a) (snd a)" sched_move "\<lambda>a. holds idl (fst a) (snd a)" for idl
  by unfold_locales (auto dest: sched_move_holds)

section \<open>Properties\<close>

text \<open>C6: exact accounting of tasks.  In every run of yields, timer preemptions, sleeps, wake-ups, load balancing,
  direct calls of \<open>schedule\<close>, exits and task starts, the ready lists and wait queues stay well-formed, the
  ready counters are right, each task is in one place only (running on one CPU, in one ready list or in one
  wait queue), and the tasks held besides the idle tasks are exactly those held at the start and those put on
  a ready list since, without those that left by \<open>sys_exit\<close> or by calling \<open>schedule\<close> themselves: no other
  operation loses, adds or duplicates a task.\<close>

theorem sched_no_task_lost:
  assumes "sched_move\<^sup>*\<^sup>* (s, held R W (now_running s) - range (idle s)) (s', H')" "sched_rep s R W"
  shows "\<exists>R' W'. sched_rep s' R' W' \<and> idle s' = idle s \<and> held R' W' (now_running s') - range (idle s) = H'"
proof -
  have "holds (idle s) s (held R W (now_running s) - range (idle s))" using assms(2) by (auto simp: holds_def)
  then show ?thesis using sm.reachable [OF assms(1), of "idle s"] by (auto simp: holds_def)
qed

definition boot_sched :: sched where
  "boot_sched = \<lparr>lk = \<lparr>nxt = id, prv = id\<rparr>, cpuid = (\<lambda>t. t div 2), tstate = (\<lambda>_. TASK_STATE_RUNNING),
     now_running = (\<lambda>c. 2 * c), idle = (\<lambda>c. 2 * c + 1), total_ready_num = (\<lambda>_. 0)\<rparr>"

lemma boot_sched_rep: "sched_rep boot_sched (\<lambda>_. []) (\<lambda>_. [])"
proof -
  have "p = p'" if "at_place (\<lambda>_. []) (\<lambda>_. []) (\<lambda>c. 2 * c) p t" "at_place (\<lambda>_. []) (\<lambda>_. []) (\<lambda>c. 2 * c) p' t" for p p' t
    using that by (cases p; cases p') auto
  moreover have "p = Running c" if "at_place (\<lambda>_. []) (\<lambda>_. []) (\<lambda>c. 2 * c) p (2 * c + 1)" for p c
    using that by (cases p; simp; presburger)
  ultimately show ?thesis
    by (auto simp: sched_rep_def lists_rep_def one_place_def boot_sched_def dl_def inj_def)
qed

theorem sched_no_task_lost_witness:
  "\<exists>R' W'. sched_rep (schedule_locked 1 (sleep_on 0 0 boot_sched)) R' W' \<and>
     held R' W' (now_running (schedule_locked 1 (sleep_on 0 0 boot_sched))) - range (idle boot_sched) = range ((*) 2) - {2}"
proof -
  let ?H = "held (\<lambda>_. []) (\<lambda>_. []) (now_running boot_sched) - range (idle boot_sched)"
  have H: "?H = range ((*) 2)" by (auto simp: held_iff boot_sched_def; presburger)
  have r: "now_running (sleep_on 0 0 boot_sched) 1 = 2" "now_running (sleep_on 0 0 boot_sched) 1 \<noteq> idle (sleep_on 0 0 boot_sched) 1"
    using sleep_on_rep(2) [OF boot_sched_rep, of 0 0] by (simp_all add: boot_sched_def)
  have "now_running boot_sched 0 \<noteq> idle boot_sched 0" by (simp add: boot_sched_def)
  then have 1: "sched_move (boot_sched, ?H) (sleep_on 0 0 boot_sched, ?H)" by (intro move_step step_sleep)
  have 2: "sched_move (sleep_on 0 0 boot_sched, ?H) (schedule_locked 1 (sleep_on 0 0 boot_sched), ?H - {2})"
    using move_schedule [OF r(2)] r(1) by simp
  from sched_no_task_lost [OF two_steps [where step = sched_move, OF 1 2] boot_sched_rep] show ?thesis unfolding H by blast
qed

text \<open>C20: \<open>wake_up_all\<close> ends and empties the wait queue: every waiter becomes ready and goes to the
  front of the ready list of its CPU, later waiters in front of earlier ones.\<close>

theorem wake_up_all_correct:
  assumes "sched_rep s R W"
  shows "\<exists>s' R'. wake_up_all q s = Some s' \<and> sched_rep s' R' (W(q := [])) \<and>
    (\<forall>c. R' c = rev (filter (\<lambda>t. cpuid s t = c) (W q)) @ R c) \<and>
    (\<forall>t. tstate s' t = (if t \<in> set (W q) then TASK_STATE_READY else tstate s t)) \<and>
    now_running s' = now_running s"
  using wake_up_all_rep [OF assms, of q] by (auto simp: push_ready_eq intro!: exI [of _ "push_ready _ _ _"])

theorem wake_up_all_correct_witness:
  "\<exists>s'. wake_up_all 7 (sleep_on 7 0 boot_sched) = Some s' \<and> tstate s' 0 = TASK_STATE_READY"
proof -
  have "now_running boot_sched 0 \<noteq> idle boot_sched 0" by (simp add: boot_sched_def)
  from wake_up_all_correct [OF sleep_on_rep(1) [OF boot_sched_rep this], of 7 7] show ?thesis
    by (auto simp: boot_sched_def)
qed

end
