(* ===== verification/Bitmaps.thy ===== *)
theory Bitmaps
  imports Prelude
begin

text \<open>
  The bitmaps of \<open>include/lib/bitmap.h\<close> over 64-bit words: setting, clearing and testing a bit, and
  the search for the first clear one.
\<close>

unbundle bit_operations_syntax

record bitmap =
  data :: "64 word list"
  nbits :: nat
  nwords :: nat

text \<open>\<open>bitmap_init\<close> uses the caller's buffer; the words it owns are cleared.\<close>

definition bitmap_init :: "64 word list \<Rightarrow> nat \<Rightarrow> bitmap" where
  "bitmap_init buffer n =
     (let nw = drop_bit 6 (n + 63)
      in \<lparr>data = fold (\<lambda>i d. d[i := 0]) [0..<nw] buffer, nbits = n, nwords = nw\<rparr>)"

definition bitmap_set :: "bitmap \<Rightarrow> nat \<Rightarrow> bitmap" where
  "bitmap_set bm idx = bm\<lparr>data := (data bm)[idx div 64 := data bm ! (idx div 64) OR push_bit (idx mod 64) 1]\<rparr>"

definition bitmap_clear :: "bitmap \<Rightarrow> nat \<Rightarrow> bitmap" where
  "bitmap_clear bm idx = bm\<lparr>data := (data bm)[idx div 64 := data bm ! (idx div 64) AND NOT (push_bit (idx mod 64) 1)]\<rparr>"

definition bitmap_test :: "bitmap \<Rightarrow> nat \<Rightarrow> bool" where
  "bitmap_test bm idx \<longleftrightarrow> drop_bit (idx mod 64) (data bm ! (idx div 64)) AND 1 \<noteq> 0"

text \<open>\<open>__builtin_ctzll\<close>: the position of the lowest set bit of a non-zero word.\<close>

definition ctzll :: "64 word \<Rightarrow> nat" where
  "ctzll w = (case first_from (bit w) 0 64 of Some i \<Rightarrow> i | None \<Rightarrow> 64)"

function find_zero_from :: "bitmap \<Rightarrow> nat \<Rightarrow> nat option" where
  "find_zero_from bm i =
     (if i < nwords bm
      then if NOT (data bm ! i) \<noteq> 0 \<and> i * 64 + ctzll (NOT (data bm ! i)) < nbits bm
           then Some (i * 64 + ctzll (NOT (data bm ! i)))
           else find_zero_from bm (i + 1)
      else None)"
  by pat_completeness auto
termination by (relation "measure (\<lambda>(bm, i). nwords bm - i)") auto

declare find_zero_from.simps [simp del]

definition bitmap_find_zero :: "bitmap \<Rightarrow> nat option" where
  "bitmap_find_zero bm = find_zero_from bm 0"

section \<open>Correctness\<close>

definition bitmap_inv :: "bitmap \<Rightarrow> bool" where
  "bitmap_inv bm \<longleftrightarrow> nwords bm = (nbits bm + 63) div 64 \<and> nwords bm \<le> length (data bm)"

lemma bitmap_test_bit: "bitmap_test bm idx \<longleftrightarrow> bit (data bm ! (idx div 64)) (idx mod 64)"
  by (simp add: bitmap_test_def and_one_eq odd_iff_mod_2_eq_one [symmetric] bit_iff_odd_drop_bit)

lemma idx_word: "bitmap_inv bm \<Longrightarrow> idx < nbits bm \<Longrightarrow> idx div 64 < length (data bm)"
  unfolding bitmap_inv_def by linarith

lemma test_set:
  assumes "bitmap_inv bm" "i < nbits bm"
  shows "bitmap_test (bitmap_set bm i) j \<longleftrightarrow> i = j \<or> bitmap_test bm j"
proof (cases "i div 64 = j div 64")
  case True
  have "i = j \<longleftrightarrow> i mod 64 = j mod 64" using True by (metis div_mod_decomp)
  then show ?thesis using idx_word [OF assms] True
    by (auto simp: bitmap_test_bit bitmap_set_def bit_or_iff bit_exp_iff possible_bit_def)
next
  case False
  then show ?thesis by (auto simp: bitmap_test_bit bitmap_set_def)
qed

lemma test_clear:
  assumes "bitmap_inv bm" "i < nbits bm"
  shows "bitmap_test (bitmap_clear bm i) j \<longleftrightarrow> i \<noteq> j \<and> bitmap_test bm j"
proof (cases "i div 64 = j div 64")
  case True
  have "i = j \<longleftrightarrow> i mod 64 = j mod 64" using True by (metis div_mod_decomp)
  then show ?thesis using idx_word [OF assms] True
    by (auto simp: bitmap_test_bit bitmap_clear_def bit_and_iff bit_not_iff bit_exp_iff possible_bit_def)
next
  case False
  then show ?thesis by (auto simp: bitmap_test_bit bitmap_clear_def)
qed

lemma ctzll_spec:
  assumes "w \<noteq> 0"
  shows "ctzll w < 64" "bit w (ctzll w)" "k < ctzll w \<Longrightarrow> \<not> bit w k"
proof -
  obtain n where "bit w n" using assms by (metis bit_eq_iff bit_0_eq bot_apply bot_bool_def)
  moreover from this have "n < 64" using bit_imp_le_length by fastforce
  ultimately obtain i where i: "first_from (bit w) 0 64 = Some i" using first_from_ex [of 0 n 64 "bit w"] by auto
  from first_from_SomeD [OF i] i
  show "ctzll w < 64" "bit w (ctzll w)" "k < ctzll w \<Longrightarrow> \<not> bit w k" by (auto simp: ctzll_def)
qed

lemma find_zero_from_spec:
  assumes "bitmap_inv bm" "\<forall>j < i * 64. j < nbits bm \<longrightarrow> bitmap_test bm j"
  shows "case find_zero_from bm i of
      Some k \<Rightarrow> k < nbits bm \<and> \<not> bitmap_test bm k \<and> (\<forall>j<k. bitmap_test bm j)
    | None \<Rightarrow> \<forall>j<nbits bm. bitmap_test bm j"
  using assms
proof (induction bm i rule: find_zero_from.induct)
  case (1 bm i)
  let ?inv = "NOT (data bm ! i)"
  let ?k = "i * 64 + ctzll ?inv"
  show ?case
  proof (cases "i < nwords bm")
    case False
    then have "nbits bm \<le> i * 64" using "1.prems"(1) unfolding bitmap_inv_def by linarith
    then show ?thesis using "1.prems"(2) False by (simp add: find_zero_from.simps [of bm i])
  next
    case True
    have below: "bitmap_test bm j" if "j < nbits bm" "j < ?k \<or> ?inv = 0" "j < (i + 1) * 64" for j
    proof (cases "j < i * 64")
      case True
      then show ?thesis using "1.prems"(2) that(1) by blast
    next
      case False
      then obtain r where j: "j = i * 64 + r" using le_Suc_ex by (metis not_less)
      have r: "r < 64" using that(3) j by simp
      have "\<not> bit ?inv r"
        using that(2) j ctzll_spec(3) [of ?inv r] by (cases "?inv = 0") auto
      then show ?thesis using j r by (simp add: bitmap_test_bit bit_not_iff)
    qed
    show ?thesis
    proof (cases "?inv \<noteq> 0 \<and> ?k < nbits bm")
      case A: True
      then have c: "ctzll ?inv < 64" "bit ?inv (ctzll ?inv)" using ctzll_spec by auto
      then have "\<not> bitmap_test bm ?k" by (simp add: bitmap_test_bit bit_not_iff)
      moreover have "\<forall>j<?k. bitmap_test bm j" using below A c(1) by auto
      ultimately show ?thesis using A True by (simp add: find_zero_from.simps [of bm i])
    next
      case B: False
      have "\<forall>j < (i + 1) * 64. j < nbits bm \<longrightarrow> bitmap_test bm j" using below B by force
      moreover have "find_zero_from bm i = find_zero_from bm (i + 1)"
        using True B by (auto simp: find_zero_from.simps [of bm i])
      ultimately show ?thesis using "1.IH" [OF True B] "1.prems"(1) by simp
    qed
  qed
qed

section \<open>Properties\<close>

text \<open>C28: \<open>bitmap_find_zero\<close> returns the least clear bit below \<open>nbits\<close>, and reports none exactly
  when all of them are set; \<open>bitmap_set\<close> and \<open>bitmap_clear\<close> change the tested bit and no other.\<close>

theorem bitmap_find_zero_correct:
  assumes "bitmap_inv bm"
  shows "(case bitmap_find_zero bm of
      Some k \<Rightarrow> k < nbits bm \<and> \<not> bitmap_test bm k \<and> (\<forall>j<k. bitmap_test bm j)
    | None \<Rightarrow> \<forall>j<nbits bm. bitmap_test bm j) \<and>
    (\<forall>i<nbits bm. \<forall>j. (bitmap_test (bitmap_set bm i) j \<longleftrightarrow> i = j \<or> bitmap_test bm j) \<and>
      (bitmap_test (bitmap_clear bm i) j \<longleftrightarrow> i \<noteq> j \<and> bitmap_test bm j))"
  using find_zero_from_spec [OF assms, of 0] test_set [OF assms] test_clear [OF assms]
  by (simp add: bitmap_find_zero_def)

theorem bitmap_find_zero_correct_witness:
  "bitmap_find_zero \<lparr>data = [7], nbits = 3, nwords = 1\<rparr> = None"
  using bitmap_find_zero_correct [of "\<lparr>data = [7], nbits = 3, nwords = 1\<rparr>"]
  by (auto simp: bitmap_inv_def bitmap_test_bit less_Suc_eq numeral_3_eq_3 split: option.splits)

end
