(* ===== verification/Locks.thy ===== *)
theory Locks
  imports Prelude
begin

text \<open>
  The locks of \<open>src/lib/lock.c\<close> as step systems over any number of threads.  A step is one atomic
  access to the lock word (spin lock), or one critical section under the inner spin lock (read/write
  lock, mutex); threads interleave freely between steps.  Memory is sequentially consistent, as the
  barriers and locked instructions of the code make it on x86.
\<close>

section \<open>Spin locks\<close>

text \<open>\<open>cmpxchg\<close>: the value read, and the value of the word afterwards.\<close>

definition atomic_compare_exchange :: "nat \<Rightarrow> nat \<Rightarrow> nat \<Rightarrow> nat \<times> nat" where
  "atomic_compare_exchange dest expected new = (dest, if dest = expected then new else dest)"

datatype spin_pc = SpinOut | Spinning | SpinHeld | TryHeld

record spin =
  lock_word :: nat
  preempt_count :: "nat \<Rightarrow> int"
  spin_pc :: "nat \<Rightarrow> spin_pc"

definition spin_lock_init :: "spin \<Rightarrow> spin" where
  "spin_lock_init s = s\<lparr>lock_word := 0\<rparr>"

text \<open>\<open>spin_lock\<close>: disabling preemption, then one round of the loop at a time.\<close>

definition spin_enter :: "bool \<Rightarrow> nat \<Rightarrow> spin \<Rightarrow> spin" where
  "spin_enter multi_core_start t s =
     s\<lparr>preempt_count := (if multi_core_start then (preempt_count s)(t := preempt_count s t + 1) else preempt_count s),
       spin_pc := (spin_pc s)(t := Spinning)\<rparr>"

definition spin_round :: "nat \<Rightarrow> spin \<Rightarrow> spin" where
  "spin_round t s =
     (let (r, v) = atomic_compare_exchange (lock_word s) 0 1; s = s\<lparr>lock_word := v\<rparr>
      in if r = 1 then s else s\<lparr>spin_pc := (spin_pc s)(t := SpinHeld)\<rparr>)"

definition spin_unlock :: "bool \<Rightarrow> nat \<Rightarrow> spin \<Rightarrow> spin" where
  "spin_unlock multi_core_start t s =
     s\<lparr>lock_word := 0,
       preempt_count := (if multi_core_start then (preempt_count s)(t := preempt_count s t - 1) else preempt_count s),
       spin_pc := (spin_pc s)(t := SpinOut)\<rparr>"

definition spin_trylock :: "nat \<Rightarrow> spin \<Rightarrow> bool \<times> spin" where
  "spin_trylock t s =
     (let (r, v) = atomic_compare_exchange (lock_word s) 0 1; s = s\<lparr>lock_word := v\<rparr>
      in if r = 0 then (True, s\<lparr>spin_pc := (spin_pc s)(t := TryHeld)\<rparr>) else (False, s))"

inductive spin_step :: "bool \<Rightarrow> spin \<Rightarrow> spin \<Rightarrow> bool" for mc where
  s_enter: "spin_pc s t = SpinOut \<Longrightarrow> spin_step mc s (spin_enter mc t s)"
| s_round: "spin_pc s t = Spinning \<Longrightarrow> spin_step mc s (spin_round t s)"
| s_try: "spin_pc s t = SpinOut \<Longrightarrow> spin_step mc s (snd (spin_trylock t s))"
| s_unlock: "spin_pc s t = SpinHeld \<or> spin_pc s t = TryHeld \<Longrightarrow> spin_step mc s (spin_unlock mc t s)"

definition spin_start :: "spin \<Rightarrow> bool" where
  "spin_start s \<longleftrightarrow> lock_word s = 0 \<and> (\<forall>t. spin_pc s t = SpinOut)"

definition spin_holders :: "(nat \<Rightarrow> spin_pc) \<Rightarrow> nat set" where
  "spin_holders pc = {t. pc t = SpinHeld \<or> pc t = TryHeld}"

lemma spin_holders_upd [simp]: "spin_holders (pc(t := v)) =
    (if v = SpinHeld \<or> v = TryHeld then insert t (spin_holders pc) else spin_holders pc - {t})"
  by (auto simp: spin_holders_def)

lemma spin_holders_iff: "t \<in> spin_holders pc \<longleftrightarrow> pc t = SpinHeld \<or> pc t = TryHeld"
  by (simp add: spin_holders_def)

definition spin_inv :: "spin \<Rightarrow> bool" where
  "spin_inv s \<longleftrightarrow> (lock_word s = 0 \<and> spin_holders (spin_pc s) = {}) \<or>
     (lock_word s = 1 \<and> (\<exists>h. spin_holders (spin_pc s) = {h}))"

lemmas spin_defs = spin_enter_def spin_round_def spin_unlock_def spin_trylock_def
  atomic_compare_exchange_def Let_def

interpretation spin: invariant_system spin_start "spin_step mc" spin_inv for mc
proof
  show "spin_inv s" if "spin_start s" for s
    using that by (simp add: spin_start_def spin_inv_def spin_holders_def)
  show "spin_inv s'" if "spin_inv s" "spin_step mc s s'" for s s'
    using that(2,1)
  proof cases
    case (s_enter t)
    then have "t \<notin> spin_holders (spin_pc s)" by (simp add: spin_holders_iff)
    then show ?thesis using that(1) s_enter by (auto simp: spin_inv_def spin_enter_def)
  next
    case (s_unlock t)
    then have "t \<in> spin_holders (spin_pc s)" by (simp add: spin_holders_iff)
    then have "spin_holders (spin_pc s) = {t}" using that(1) by (auto simp: spin_inv_def)
    then show ?thesis using s_unlock by (simp add: spin_inv_def spin_defs)
  qed (use that(1) in \<open>auto simp: spin_inv_def spin_defs\<close>)
qed

section \<open>Read/write locks\<close>

datatype rw_pc = RwOut | Reading | Writing

text \<open>The counters are C \<open>int\<close>s; the reader count stays far inside their range, as there is one count per reading
  thread.\<close>

record rwlock =
  readers :: int
  writer :: int
  rw_pc :: "nat \<Rightarrow> rw_pc"

definition rwlock_init :: "rwlock \<Rightarrow> rwlock" where
  "rwlock_init l = l\<lparr>readers := 0, writer := 0\<rparr>"

text \<open>One round of the acquiring loops: the section under the inner lock; a thread that fails
  yields and tries again.\<close>

definition read_lock_round :: "nat \<Rightarrow> rwlock \<Rightarrow> rwlock" where
  "read_lock_round t l =
     (if writer l = 0 then l\<lparr>readers := readers l + 1, rw_pc := (rw_pc l)(t := Reading)\<rparr> else l)"

definition read_unlock :: "nat \<Rightarrow> rwlock \<Rightarrow> rwlock" where
  "read_unlock t l = l\<lparr>readers := readers l - 1, rw_pc := (rw_pc l)(t := RwOut)\<rparr>"

definition write_lock_round :: "nat \<Rightarrow> rwlock \<Rightarrow> rwlock" where
  "write_lock_round t l =
     (if writer l = 0 \<and> readers l = 0 then l\<lparr>writer := 1, rw_pc := (rw_pc l)(t := Writing)\<rparr> else l)"

definition write_unlock :: "nat \<Rightarrow> rwlock \<Rightarrow> rwlock" where
  "write_unlock t l = l\<lparr>writer := 0, rw_pc := (rw_pc l)(t := RwOut)\<rparr>"

inductive rw_step :: "rwlock \<Rightarrow> rwlock \<Rightarrow> bool" where
  rw_read: "rw_pc l t = RwOut \<Longrightarrow> rw_step l (read_lock_round t l)"
| rw_read_done: "rw_pc l t = Reading \<Longrightarrow> rw_step l (read_unlock t l)"
| rw_write: "rw_pc l t = RwOut \<Longrightarrow> rw_step l (write_lock_round t l)"
| rw_write_done: "rw_pc l t = Writing \<Longrightarrow> rw_step l (write_unlock t l)"

definition rw_start :: "rwlock \<Rightarrow> bool" where
  "rw_start l \<longleftrightarrow> readers l = 0 \<and> writer l = 0 \<and> (\<forall>t. rw_pc l t = RwOut)"

definition rw_at :: "rw_pc \<Rightarrow> (nat \<Rightarrow> rw_pc) \<Rightarrow> nat set" where
  "rw_at v pc = {t. pc t = v}"

lemma rw_at_upd [simp]: "rw_at v (pc(t := u)) = (if u = v then insert t (rw_at v pc) else rw_at v pc - {t})"
  by (auto simp: rw_at_def)

lemma rw_at_iff: "t \<in> rw_at v pc \<longleftrightarrow> pc t = v"
  by (simp add: rw_at_def)

definition rw_inv :: "rwlock \<Rightarrow> bool" where
  "rw_inv l \<longleftrightarrow> finite (rw_at Reading (rw_pc l)) \<and> readers l = int (card (rw_at Reading (rw_pc l))) \<and>
     (writer l = 0 \<and> rw_at Writing (rw_pc l) = {} \<or>
      writer l = 1 \<and> readers l = 0 \<and> (\<exists>w. rw_at Writing (rw_pc l) = {w}))"

interpretation rw: invariant_system rw_start rw_step rw_inv
proof
  show "rw_inv l" if "rw_start l" for l using that by (simp add: rw_start_def rw_inv_def rw_at_def)
  show "rw_inv l'" if "rw_inv l" "rw_step l l'" for l l'
    using that(2,1)
  proof cases
    case (rw_read t)
    then have "t \<notin> rw_at Reading (rw_pc l)" by (simp add: rw_at_iff)
    then show ?thesis using that(1) rw_read by (auto simp: rw_inv_def read_lock_round_def)
  next
    case (rw_read_done t)
    then have t: "t \<in> rw_at Reading (rw_pc l)" by (simp add: rw_at_iff)
    then have "card (rw_at Reading (rw_pc l)) > 0" using that(1) by (auto simp: rw_inv_def card_gt_0_iff)
    then show ?thesis using rw_read_done that(1) t
      by (auto simp: rw_inv_def read_unlock_def)
  next
    case (rw_write t)
    then show ?thesis using that(1) by (auto simp: rw_inv_def write_lock_round_def)
  next
    case (rw_write_done t)
    then have "t \<in> rw_at Writing (rw_pc l)" and r: "t \<notin> rw_at Reading (rw_pc l)" by (simp_all add: rw_at_iff)
    then have "writer l = 1" "rw_at Writing (rw_pc l) = {t}" using that(1) by (auto simp: rw_inv_def)
    with r show ?thesis using rw_write_done that(1) by (auto simp: rw_inv_def write_unlock_def)
  qed
qed

section \<open>Mutexes\<close>

text \<open>A thread that called \<open>mutex_lock\<close> is queued (\<open>MxQueued\<close>), made ready by an unlock
  (\<open>MxWoken\<close>), or holds the lock.  \<open>MxGone\<close> is a thread that left the CPU through \<open>schedule()\<close>
  while being in no ready list and no wait queue.\<close>

datatype mx_pc = MxOut | MxQueued | MxWoken | MxHeld | MxGone

record mutex =
  locked :: nat
  wait_queue :: "nat list"
  mx_pc :: "nat \<Rightarrow> mx_pc"

definition mutex_init :: "mutex \<Rightarrow> mutex" where
  "mutex_init l = l\<lparr>locked := 0, wait_queue := []\<rparr>"

definition mutex_lock :: "nat \<Rightarrow> mutex \<Rightarrow> mutex" where
  "mutex_lock t l =
     (if locked l = 0 then l\<lparr>locked := 1, mx_pc := (mx_pc l)(t := MxHeld)\<rparr>
      else l\<lparr>wait_queue := wait_queue l @ [t], mx_pc := (mx_pc l)(t := MxQueued)\<rparr>)"

text \<open>The loop after the wake-up: \<open>while (__sync_lock_test_and_set(&lock->locked, 1)) schedule();\<close>  The step is
  the first round: a thread that finds the lock taken calls \<open>schedule()\<close> off every list and does not come to the
  second round unless something outside the mutex makes it ready.\<close>

definition mutex_lock_woken :: "nat \<Rightarrow> mutex \<Rightarrow> mutex" where
  "mutex_lock_woken t l =
     (let old = locked l; l = l\<lparr>locked := 1\<rparr>
      in if old \<noteq> 0 then l\<lparr>mx_pc := (mx_pc l)(t := MxGone)\<rparr> else l\<lparr>mx_pc := (mx_pc l)(t := MxHeld)\<rparr>)"

definition mutex_unlock :: "nat \<Rightarrow> mutex \<Rightarrow> mutex" where
  "mutex_unlock t l =
     (let l = l\<lparr>locked := 0, mx_pc := (mx_pc l)(t := MxOut)\<rparr>
      in case wait_queue l of [] \<Rightarrow> l
         | w # ws \<Rightarrow> l\<lparr>wait_queue := ws, mx_pc := (mx_pc l)(w := MxWoken)\<rparr>)"

definition mutex_trylock :: "nat \<Rightarrow> mutex \<Rightarrow> bool \<times> mutex" where
  "mutex_trylock t l =
     (if locked l = 0 then (True, l\<lparr>locked := 1, mx_pc := (mx_pc l)(t := MxHeld)\<rparr>) else (False, l))"

inductive mx_step :: "mutex \<Rightarrow> mutex \<Rightarrow> bool" where
  mx_lock: "mx_pc l t = MxOut \<Longrightarrow> mx_step l (mutex_lock t l)"
| mx_woken: "mx_pc l t = MxWoken \<Longrightarrow> mx_step l (mutex_lock_woken t l)"
| mx_unlock: "mx_pc l t = MxHeld \<Longrightarrow> mx_step l (mutex_unlock t l)"
| mx_try: "mx_pc l t = MxOut \<Longrightarrow> mx_step l (snd (mutex_trylock t l))"

definition mx_start :: "mutex \<Rightarrow> bool" where
  "mx_start l \<longleftrightarrow> locked l = 0 \<and> wait_queue l = [] \<and> (\<forall>t. mx_pc l t = MxOut)"

definition mx_at :: "mx_pc \<Rightarrow> (nat \<Rightarrow> mx_pc) \<Rightarrow> nat set" where
  "mx_at v pc = {t. pc t = v}"

lemma mx_at_upd [simp]: "mx_at v (pc(t := u)) = (if u = v then insert t (mx_at v pc) else mx_at v pc - {t})"
  by (auto simp: mx_at_def)

lemma mx_at_iff: "t \<in> mx_at v pc \<longleftrightarrow> pc t = v"
  by (simp add: mx_at_def)

definition mx_inv :: "mutex \<Rightarrow> bool" where
  "mx_inv l \<longleftrightarrow> distinct (wait_queue l) \<and> set (wait_queue l) = mx_at MxQueued (mx_pc l) \<and>
     (locked l = 0 \<and> mx_at MxHeld (mx_pc l) = {} \<or> locked l = 1 \<and> (\<exists>h. mx_at MxHeld (mx_pc l) = {h}))"

interpretation mx: invariant_system mx_start mx_step mx_inv
proof
  show "mx_inv l" if "mx_start l" for l using that by (simp add: mx_start_def mx_inv_def mx_at_def)
  show "mx_inv l'" if "mx_inv l" "mx_step l l'" for l l'
    using that(2,1)
  proof cases
    case (mx_lock t)
    then have "t \<notin> mx_at MxQueued (mx_pc l)" "t \<notin> mx_at MxHeld (mx_pc l)" by (simp_all add: mx_at_iff)
    then show ?thesis using that(1) mx_lock by (auto simp: mx_inv_def mutex_lock_def)
  next
    case (mx_woken t)
    then have "t \<notin> mx_at MxQueued (mx_pc l)" "t \<notin> mx_at MxHeld (mx_pc l)" by (simp_all add: mx_at_iff)
    then show ?thesis using that(1) mx_woken by (auto simp: mx_inv_def mutex_lock_woken_def Let_def)
  next
    case (mx_unlock t)
    then have t: "t \<notin> mx_at MxQueued (mx_pc l)" by (simp add: mx_at_iff)
    have "t \<in> mx_at MxHeld (mx_pc l)" using mx_unlock by (simp add: mx_at_iff)
    then have "mx_at MxHeld (mx_pc l) = {t}" using that(1) by (auto simp: mx_inv_def)
    moreover have "t \<notin> set (wait_queue l)" using t that(1) by (simp add: mx_inv_def)
    ultimately show ?thesis using mx_unlock that(1) t
      by (cases "wait_queue l") (auto simp: mx_inv_def mutex_unlock_def Let_def)
  next
    case (mx_try t)
    then have "t \<notin> mx_at MxQueued (mx_pc l)" by (simp add: mx_at_iff)
    then show ?thesis using that(1) mx_try by (auto simp: mx_inv_def mutex_trylock_def)
  qed
qed

lemma gone_stays: "mx_step\<^sup>*\<^sup>* l l' \<Longrightarrow> mx_inv l \<Longrightarrow> mx_pc l t = MxGone \<Longrightarrow> mx_pc l' t = MxGone"
proof (induction rule: rtranclp_induct)
  case base
  then show ?case by simp
next
  case (step l' l'')
  have inv: "mx_inv l'" using step.hyps(1) step.prems(1) by (induction rule: rtranclp_induct) (auto intro: mx.step_inv)
  have g: "mx_pc l' t = MxGone" using step by simp
  from step.hyps(2) show ?case
  proof cases
    case (mx_unlock u)
    have "t \<notin> set (wait_queue l')" using inv g by (simp add: mx_inv_def mx_at_iff)
    then show ?thesis using mx_unlock g by (auto simp: mutex_unlock_def Let_def split: list.splits)
  qed (use g in \<open>auto simp: mutex_lock_def mutex_lock_woken_def mutex_trylock_def Let_def\<close>)
qed

section \<open>Properties\<close>

text \<open>C10: at most one thread is ever inside a spin lock, whether it came in through \<open>spin_lock\<close> or
  \<open>spin_trylock\<close>, and the lock word is 1 exactly while some thread is inside.\<close>

theorem spin_mutual_exclusion:
  assumes "spin_start s" "(spin_step mc)\<^sup>*\<^sup>* s s'"
  shows "(\<forall>t u. t \<in> spin_holders (spin_pc s') \<longrightarrow> u \<in> spin_holders (spin_pc s') \<longrightarrow> t = u) \<and>
    (lock_word s' = 1 \<longleftrightarrow> spin_holders (spin_pc s') \<noteq> {})"
  using spin.reachable [OF assms(2,1)] by (auto simp: spin_inv_def)

theorem spin_mutual_exclusion_witness:
  "lock_word (spin_round 3 (spin_enter True 3 \<lparr>lock_word = 0, preempt_count = (\<lambda>_. 0), spin_pc = (\<lambda>_. SpinOut)\<rparr>)) = 1"
proof -
  let ?s = "\<lparr>lock_word = 0, preempt_count = (\<lambda>_. 0), spin_pc = (\<lambda>_. SpinOut)\<rparr>"
  have "spin_start ?s" by (simp add: spin_start_def)
  moreover have "spin_step True ?s (spin_enter True 3 ?s)" by (rule s_enter) simp
  moreover have "spin_step True (spin_enter True 3 ?s) (spin_round 3 (spin_enter True 3 ?s))"
    by (rule s_round) (simp add: spin_enter_def)
  ultimately have "lock_word (spin_round 3 (spin_enter True 3 ?s)) = 1 \<longleftrightarrow>
      spin_holders (spin_pc (spin_round 3 (spin_enter True 3 ?s))) \<noteq> {}"
    using spin_mutual_exclusion [OF _ two_steps] by blast
  then show ?thesis by (simp add: spin_defs)
qed

text \<open>C21: a read/write lock admits either any number of readers or one writer: while a thread
  writes no other reads or writes, and \<open>readers\<close> counts the reading threads.\<close>

theorem rwlock_exclusion:
  assumes "rw_start l" "rw_step\<^sup>*\<^sup>* l l'"
  shows "(\<forall>t u. rw_pc l' t = Writing \<longrightarrow> rw_pc l' u \<noteq> RwOut \<longrightarrow> u = t) \<and>
    readers l' = int (card {t. rw_pc l' t = Reading})"
proof -
  have inv: "rw_inv l'" by (rule rw.reachable [OF assms(2,1)])
  have "u = t" if t: "rw_pc l' t = Writing" and u: "rw_pc l' u \<noteq> RwOut" for t u
  proof -
    have "t \<in> rw_at Writing (rw_pc l')" using t by (simp add: rw_at_iff)
    then have W: "rw_at Writing (rw_pc l') = {t}" and "rw_at Reading (rw_pc l') = {}"
      using inv by (auto simp: rw_inv_def)
    then have "rw_pc l' u \<noteq> Reading" by (metis empty_iff rw_at_iff)
    then have "u \<in> rw_at Writing (rw_pc l')" using u by (cases "rw_pc l' u") (auto simp: rw_at_iff)
    then show ?thesis using W by simp
  qed
  then show ?thesis using inv by (simp add: rw_inv_def rw_at_def)
qed

theorem rwlock_exclusion_witness:
  "readers (read_lock_round 1 (read_lock_round 0 \<lparr>readers = 0, writer = 0, rw_pc = (\<lambda>_. RwOut)\<rparr>)) = int (card {0, 1 :: nat})"
proof -
  let ?s = "\<lparr>readers = 0, writer = 0, rw_pc = (\<lambda>_. RwOut)\<rparr>"
  have "rw_start ?s" by (simp add: rw_start_def)
  moreover have "rw_step ?s (read_lock_round 0 ?s)" by (rule rw_read) simp
  moreover have "rw_step (read_lock_round 0 ?s) (read_lock_round 1 (read_lock_round 0 ?s))"
    by (rule rw_read) (simp add: read_lock_round_def)
  ultimately have "readers (read_lock_round 1 (read_lock_round 0 ?s)) =
      int (card {t. rw_pc (read_lock_round 1 (read_lock_round 0 ?s)) t = Reading})"
    using rwlock_exclusion [OF _ two_steps] by blast
  moreover have "{t. rw_pc (read_lock_round 1 (read_lock_round 0 ?s)) t = Reading} = {0, 1}"
    by (auto simp: read_lock_round_def)
  ultimately show ?thesis by simp
qed

text \<open>C22: at most one thread holds a mutex, and exactly the queued threads are in its wait queue.\<close>

theorem mutex_exclusion:
  assumes "mx_start l" "mx_step\<^sup>*\<^sup>* l l'"
  shows "(\<forall>t u. mx_pc l' t = MxHeld \<longrightarrow> mx_pc l' u = MxHeld \<longrightarrow> t = u) \<and>
    (\<forall>t. t \<in> set (wait_queue l') \<longleftrightarrow> mx_pc l' t = MxQueued)"
  using mx.reachable [OF assms(2,1)]
  unfolding mx_at_iff [of _ MxHeld "mx_pc l'", symmetric] mx_at_iff [of _ MxQueued "mx_pc l'", symmetric]
  by (auto simp: mx_inv_def)

theorem mutex_exclusion_witness:
  "set (wait_queue (mutex_lock 1 (mutex_lock 0 \<lparr>locked = 0, wait_queue = [], mx_pc = (\<lambda>_. MxOut)\<rparr>))) = {1}"
proof -
  let ?s = "\<lparr>locked = 0, wait_queue = [], mx_pc = (\<lambda>_. MxOut)\<rparr>"
  have "mx_start ?s" by (simp add: mx_start_def)
  moreover have "mx_step ?s (mutex_lock 0 ?s)" by (rule mx_lock) simp
  moreover have "mx_step (mutex_lock 0 ?s) (mutex_lock 1 (mutex_lock 0 ?s))"
    by (rule mx_lock) (simp add: mutex_lock_def)
  ultimately have "\<forall>t. t \<in> set (wait_queue (mutex_lock 1 (mutex_lock 0 ?s))) \<longleftrightarrow>
      mx_pc (mutex_lock 1 (mutex_lock 0 ?s)) t = MxQueued"
    using mutex_exclusion [OF _ two_steps] by blast
  then show ?thesis by (auto simp: mutex_lock_def)
qed

text \<open>The run in which a waiter is lost.\<close>

definition lost_run :: mutex where
  "lost_run = (let s = mutex_lock 0 \<lparr>locked = 0, wait_queue = [], mx_pc = (\<lambda>_. MxOut)\<rparr>;
     s = mutex_lock 1 s; s = mutex_unlock 0 s; s = mutex_lock 2 s; s = mutex_lock_woken 1 s
   in mutex_unlock 2 s)"

lemma lost_run_reachable:
  "mx_step\<^sup>*\<^sup>* \<lparr>locked = 0, wait_queue = [], mx_pc = (\<lambda>_. MxOut)\<rparr> lost_run"
proof -
  let ?s0 = "\<lparr>locked = 0, wait_queue = [], mx_pc = (\<lambda>_. MxOut)\<rparr>"
  let ?s1 = "mutex_lock 0 ?s0" let ?s2 = "mutex_lock 1 ?s1" let ?s3 = "mutex_unlock 0 ?s2"
  let ?s4 = "mutex_lock 2 ?s3" let ?s5 = "mutex_lock_woken 1 ?s4"
  note d = mutex_lock_def mutex_unlock_def mutex_lock_woken_def Let_def
  have 1: "mx_step ?s0 ?s1" by (rule mx_lock) simp
  have 2: "mx_step ?s1 ?s2" by (rule mx_lock) (simp add: d)
  have 3: "mx_step ?s2 ?s3" by (rule mx_unlock) (simp add: d)
  have 4: "mx_step ?s3 ?s4" by (rule mx_lock) (simp add: d)
  have 5: "mx_step ?s4 ?s5" by (rule mx_woken) (simp add: d)
  have 6: "mx_step ?s5 (mutex_unlock 2 ?s5)" by (rule mx_unlock) (simp add: d)
  have "lost_run = mutex_unlock 2 ?s5" by (simp only: lost_run_def Let_def)
  with rtranclp_trans [OF rtranclp_trans [OF two_steps [where step = mx_step, OF 1 2] two_steps [where step = mx_step, OF 3 4]] two_steps [where step = mx_step, OF 5 6]]
  show ?thesis by simp
qed

text \<open>C23: a woken waiter can be lost.  If another thread takes the mutex between the unlock and the
  waiter's retry, the waiter calls \<open>schedule()\<close> without entering a list again: there is a run to a
  state where the mutex is free, nobody waits in its queue, and a thread that called \<open>mutex_lock\<close>
  stays off every list in all further runs.\<close>

theorem mutex_waiter_lost:
  "\<exists>l t. mx_step\<^sup>*\<^sup>* \<lparr>locked = 0, wait_queue = [], mx_pc = (\<lambda>_. MxOut)\<rparr> l \<and>
     locked l = 0 \<and> wait_queue l = [] \<and> (\<forall>l'. mx_step\<^sup>*\<^sup>* l l' \<longrightarrow> mx_pc l' t = MxGone)"
proof (intro exI conjI)
  show "mx_step\<^sup>*\<^sup>* \<lparr>locked = 0, wait_queue = [], mx_pc = (\<lambda>_. MxOut)\<rparr> lost_run" by (rule lost_run_reachable)
  have "mx_inv lost_run"
    by (rule mx.reachable [OF lost_run_reachable]) (simp add: mx_start_def)
  moreover have g: "locked lost_run = 0" "wait_queue lost_run = []" "mx_pc lost_run 1 = MxGone"
    by (simp_all add: lost_run_def mutex_lock_def mutex_unlock_def mutex_lock_woken_def Let_def)
  ultimately show "\<forall>l'. mx_step\<^sup>*\<^sup>* lost_run l' \<longrightarrow> mx_pc l' 1 = MxGone" using gone_stays by blast
  show "locked lost_run = 0" "wait_queue lost_run = []" by (rule g)+
qed

theorem mutex_waiter_lost_witness:
  "\<exists>l t. mx_step\<^sup>*\<^sup>* \<lparr>locked = 0, wait_queue = [], mx_pc = (\<lambda>_. MxOut)\<rparr> l \<and> locked l = 0 \<and> mx_pc l t = MxGone"
  using mutex_waiter_lost by blast

text \<open>C24: \<open>spin_lock\<close> disables preemption once per holder, but \<open>spin_trylock\<close> does not while
  \<open>spin_unlock\<close> always enables it: after a successful \<open>spin_trylock\<close> and \<open>spin_unlock\<close> the
  preemption count of the thread is one less than before.\<close>

theorem spin_trylock_unbalanced:
  assumes "lock_word s = 0"
  shows "preempt_count (spin_unlock True t (spin_round t (spin_enter True t s))) = preempt_count s \<and>
    fst (spin_trylock t s) \<and>
    preempt_count (spin_unlock True t (snd (spin_trylock t s))) t = preempt_count s t - 1"
  using assms by (simp add: spin_defs)

theorem spin_trylock_unbalanced_witness:
  "preempt_count (spin_unlock True 0 (snd (spin_trylock 0
     \<lparr>lock_word = 0, preempt_count = (\<lambda>_. 0), spin_pc = (\<lambda>_. SpinOut)\<rparr>))) 0 = - 1"
  using spin_trylock_unbalanced [of "\<lparr>lock_word = 0, preempt_count = (\<lambda>_. 0), spin_pc = (\<lambda>_. SpinOut)\<rparr>" 0]
  by simp

end
