(* ===== verification/Ring.thy ===== *)
theory Ring
  imports Prelude
begin

text \<open>
  Ring buffers with a head and a tail index, as the pipe, the terminal output buffer and the queue
  of finished terminal lines use them, the interface of a bounded FIFO queue, and the two loops that
  all of them share: pushing characters until the buffer is full and popping until it is empty.
\<close>

section \<open>The index arithmetic\<close>

definition ring_count :: "nat \<Rightarrow> nat \<Rightarrow> nat \<Rightarrow> nat" where
  "ring_count n head tail = (head + n - tail) mod n"

definition ring_list :: "nat \<Rightarrow> 'a list \<Rightarrow> nat \<Rightarrow> nat \<Rightarrow> 'a list" where
  "ring_list n buf head tail = map (\<lambda>k. buf ! ((tail + k) mod n)) [0..<ring_count n head tail]"

lemma length_ring_list [simp]: "length (ring_list n buf head tail) = ring_count n head tail"
  by (simp add: ring_list_def)

lemma ring_count_less: "0 < n \<Longrightarrow> ring_count n head tail < n"
  by (simp add: ring_count_def)

lemma ring_count_eq:
  "head < n \<Longrightarrow> tail < n \<Longrightarrow> ring_count n head tail = (if tail \<le> head then head - tail else head + n - tail)"
  by (auto simp: ring_count_def mod_if)

lemma ring_empty: "head < n \<Longrightarrow> tail < n \<Longrightarrow> head = tail \<longleftrightarrow> ring_count n head tail = 0"
  by (auto simp: ring_count_eq)

lemma ring_full: "head < n \<Longrightarrow> tail < n \<Longrightarrow> (head + 1) mod n = tail \<longleftrightarrow> ring_count n head tail = n - 1"
  by (cases "head + 1 = n") (auto simp: ring_count_eq)

lemma ring_head: "head < n \<Longrightarrow> tail < n \<Longrightarrow> (tail + ring_count n head tail) mod n = head"
  by (auto simp: ring_count_eq)

lemma ring_count_push:
  "head < n \<Longrightarrow> tail < n \<Longrightarrow> (head + 1) mod n \<noteq> tail \<Longrightarrow>
     ring_count n ((head + 1) mod n) tail = ring_count n head tail + 1"
  by (cases "head + 1 = n") (auto simp: ring_count_def mod_if)

lemma ring_count_pop:
  "head < n \<Longrightarrow> tail < n \<Longrightarrow> head \<noteq> tail \<Longrightarrow>
     ring_count n head ((tail + 1) mod n) = ring_count n head tail - 1"
  by (cases "tail + 1 = n") (auto simp: ring_count_def mod_if)

lemma ring_index_other:
  assumes "head < n" "tail < n" "k < ring_count n head tail"
  shows "(tail + k) mod n \<noteq> head"
proof (cases "tail + k < n")
  case True
  then show ?thesis using assms by (simp add: ring_count_eq split: if_splits)
next
  case False
  have "k < n" using assms ring_count_less [of n head tail] by linarith
  then have "(tail + k) mod n = tail + k - n" using assms(2) False by (simp add: mod_if)
  then show ?thesis using assms False by (simp add: ring_count_eq split: if_splits)
qed

lemma ring_push:
  assumes "head < n" "tail < n" "(head + 1) mod n \<noteq> tail" "length buf = n"
  shows "ring_list n (buf[head := x]) ((head + 1) mod n) tail = ring_list n buf head tail @ [x]"
proof -
  have "ring_list n (buf[head := x]) ((head + 1) mod n) tail =
      map (\<lambda>k. buf[head := x] ! ((tail + k) mod n)) [0..<ring_count n head tail] @ [x]"
    using assms ring_head [OF assms(1,2)]
    by (simp only: ring_list_def ring_count_push [OF assms(1-3)]) simp
  also have "map (\<lambda>k. buf[head := x] ! ((tail + k) mod n)) [0..<ring_count n head tail] = ring_list n buf head tail"
    using ring_index_other [OF assms(1,2), THEN not_sym] by (auto simp: ring_list_def)
  finally show ?thesis .
qed

lemma ring_pop:
  assumes "head < n" "tail < n" "head \<noteq> tail"
  shows "ring_list n buf head tail = buf ! tail # ring_list n buf head ((tail + 1) mod n)"
proof -
  have "0 < ring_count n head tail" using assms ring_empty [of head n tail] by simp
  then have r: "[0..<ring_count n head tail] = 0 # map Suc [0..<ring_count n head tail - 1]"
    by (simp add: map_Suc_upt upt_conv_Cons)
  have "(tail + Suc k) mod n = ((tail + 1) mod n + k) mod n" for k
    by (simp add: mod_simps)
  then show ?thesis using assms(2)
    by (simp add: ring_list_def ring_count_pop [OF assms, simplified] r o_def)
qed

text \<open>Changing the item at the tail does not touch the others.\<close>

lemma ring_rest_update:
  assumes "head < n" "tail < n" "head \<noteq> tail"
  shows "ring_list n (buf[tail := x]) head ((tail + 1) mod n) = ring_list n buf head ((tail + 1) mod n)"
proof -
  have "tail \<noteq> ((tail + 1) mod n + k) mod n" if "k < ring_count n head tail - 1" for k
  proof
    assume "tail = ((tail + 1) mod n + k) mod n"
    then have "(tail + Suc k) mod n = tail" by (simp add: mod_simps)
    moreover have "Suc k < n" "0 < n" using that ring_count_less [of n head tail] assms(1) by linarith+
    ultimately show False using assms(2) by (cases "tail + Suc k < n") (simp_all add: mod_if split: if_splits)
  qed
  then show ?thesis
    using ring_count_pop [OF assms] by (auto simp: ring_list_def)
qed

section \<open>Filling and draining\<close>

text \<open>The loop \<open>while (count < len) { if (full) break; push(data[count++]); }\<close>; the result is the
  number of items pushed.\<close>

fun fill :: "('s \<Rightarrow> bool) \<Rightarrow> ('a \<Rightarrow> 's \<Rightarrow> 's) \<Rightarrow> 'a list \<Rightarrow> 's \<Rightarrow> nat \<times> 's" where
  "fill isfull push [] s = (0, s)"
| "fill isfull push (x # xs) s =
     (if isfull s then (0, s) else let (n, s') = fill isfull push xs (push x s) in (Suc n, s'))"

text \<open>The loop \<open>while (count < len) { if (empty) break; buf[count++] = pop(); }\<close>.\<close>

fun drain :: "('s \<Rightarrow> bool) \<Rightarrow> ('s \<Rightarrow> 'a \<times> 's) \<Rightarrow> nat \<Rightarrow> 's \<Rightarrow> 'a list \<times> 's" where
  "drain isempty pop 0 s = ([], s)"
| "drain isempty pop (Suc n) s =
     (if isempty s then ([], s) else let (x, s) = pop s; (xs, s) = drain isempty pop n s in (x # xs, s))"

text \<open>Fields that a single push or pop leaves alone are left alone by the loops.\<close>

lemma fill_keeps: "(\<And>x s. f (push x s) = f s) \<Longrightarrow> f (snd (fill isfull push xs s)) = f s"
  by (induction xs arbitrary: s) (auto simp: split_beta)

lemma drain_keeps: "(\<And>s. f (snd (pop s)) = f s) \<Longrightarrow> f (snd (drain isempty pop n s)) = f s"
  by (induction n arbitrary: s) (auto simp: split_beta)

section \<open>The queue interface\<close>

locale bounded_queue =
  fixes contents :: "'s \<Rightarrow> 'a list" and inv :: "'s \<Rightarrow> bool" and cap :: nat
    and isempty isfull :: "'s \<Rightarrow> bool" and push :: "'a \<Rightarrow> 's \<Rightarrow> 's" and pop :: "'s \<Rightarrow> 'a \<times> 's"
  assumes empty_iff: "inv s \<Longrightarrow> isempty s \<longleftrightarrow> contents s = []"
    and full_iff: "inv s \<Longrightarrow> isfull s \<longleftrightarrow> length (contents s) = cap"
    and bounded: "inv s \<Longrightarrow> length (contents s) \<le> cap"
    and push_inv: "inv s \<Longrightarrow> \<not> isfull s \<Longrightarrow> inv (push x s)"
    and push_contents: "inv s \<Longrightarrow> \<not> isfull s \<Longrightarrow> contents (push x s) = contents s @ [x]"
    and pop_inv: "inv s \<Longrightarrow> \<not> isempty s \<Longrightarrow> inv (snd (pop s))"
    and pop_contents: "inv s \<Longrightarrow> \<not> isempty s \<Longrightarrow> contents s = fst (pop s) # contents (snd (pop s))"
begin

lemma fill_correct:
  "inv s \<Longrightarrow> (\<exists>s'. fill isfull push xs s = (min (length xs) (cap - length (contents s)), s') \<and> inv s' \<and>
     contents s' = contents s @ take (cap - length (contents s)) xs)"
proof (induction xs arbitrary: s)
  case Nil
  then show ?case by simp
next
  case (Cons x xs)
  show ?case
  proof (cases "isfull s")
    case True
    then show ?thesis using Cons.prems full_iff by simp
  next
    case False
    have p: "inv (push x s)" "contents (push x s) = contents s @ [x]"
      using Cons.prems False by (simp_all add: push_inv push_contents)
    have less: "length (contents s) < cap"
      using bounded [OF Cons.prems] full_iff [OF Cons.prems] False by linarith
    then have "cap - length (contents s) = Suc (cap - Suc (length (contents s)))" by simp
    moreover obtain s' where "fill isfull push xs (push x s) = (min (length xs) (cap - Suc (length (contents s))), s')"
      "inv s'" "contents s' = contents s @ x # take (cap - Suc (length (contents s))) xs"
      using Cons.IH [OF p(1)] p(2) by auto
    ultimately show ?thesis using False by simp
  qed
qed

lemma drain_correct:
  "inv s \<Longrightarrow> (\<exists>s'. drain isempty pop n s = (take n (contents s), s') \<and> inv s' \<and> contents s' = drop n (contents s))"
proof (induction n arbitrary: s)
  case 0
  then show ?case by simp
next
  case (Suc n)
  show ?case
  proof (cases "isempty s")
    case True
    then show ?thesis using Suc.prems empty_iff by simp
  next
    case False
    obtain x s1 where ps: "pop s = (x, s1)" by (cases "pop s")
    have p: "inv s1" "contents s = x # contents s1"
      using pop_inv [OF Suc.prems False] pop_contents [OF Suc.prems False] ps by simp_all
    obtain s' where "drain isempty pop n s1 = (take n (contents s1), s')" "inv s'" "contents s' = drop n (contents s1)"
      using Suc.IH [OF p(1)] by blast
    then show ?thesis using False ps p(2) by simp
  qed
qed

end

end
