(* ===== verification/Pipe.thy ===== *)
theory Pipe
  imports Ring
begin

text \<open>
  Pipes (\<open>src/fs/pipe.c\<close>): the buffer, the read and write calls, and a step system in which any
  number of tasks read and write the same pipe.  A task holds the pipe lock from the moment it takes
  it until it returns or goes to sleep, so one step is such a section; \<open>wake_up_all\<close> empties a wait
  queue and makes its tasks runnable, which \<open>Sched\<close> shows of the real queues.
\<close>

section \<open>The buffer\<close>

definition PIPE_BUFSIZE :: nat where "PIPE_BUFSIZE = 4096 * 4"

record pipe =
  single :: bool
  buf_head :: nat
  buf_tail :: nat
  read_wq :: "nat list"
  write_wq :: "nat list"
  buf :: "byte list"

definition new_pipe :: "byte list \<Rightarrow> pipe" where
  "new_pipe mem = \<lparr>single = False, buf_head = 0, buf_tail = 0, read_wq = [], write_wq = [], buf = mem\<rparr>"

definition pipe_empty :: "pipe \<Rightarrow> bool" where
  "pipe_empty p \<longleftrightarrow> buf_head p = buf_tail p"

definition pipe_full :: "pipe \<Rightarrow> bool" where
  "pipe_full p \<longleftrightarrow> (buf_head p + 1) mod PIPE_BUFSIZE = buf_tail p"

definition pipe_put :: "byte \<Rightarrow> pipe \<Rightarrow> pipe" where
  "pipe_put x p = p\<lparr>buf := (buf p)[buf_head p := x], buf_head := (buf_head p + 1) mod PIPE_BUFSIZE\<rparr>"

definition pipe_get :: "pipe \<Rightarrow> byte \<times> pipe" where
  "pipe_get p = (buf p ! buf_tail p, p\<lparr>buf_tail := (buf_tail p + 1) mod PIPE_BUFSIZE\<rparr>)"

text \<open>A call, from taking the lock to giving it up: it returns, or it sleeps on its wait queue.
  The task is the caller; the items moved before sleeping are part of the result.\<close>

definition pipe_read_section :: "nat \<Rightarrow> nat \<Rightarrow> pipe \<Rightarrow> byte list \<times> bool \<times> pipe" where
  "pipe_read_section task len p =
     (let (bs, p) = drain pipe_empty pipe_get len p in
      if length bs < len \<and> \<not> single p
      then let p = (if bs \<noteq> [] then p\<lparr>write_wq := []\<rparr> else p)
           in (bs, False, p\<lparr>read_wq := read_wq p @ [task]\<rparr>)
      else (bs, True, p))"

definition pipe_write_section :: "nat \<Rightarrow> byte list \<Rightarrow> pipe \<Rightarrow> nat \<times> bool \<times> pipe" where
  "pipe_write_section task data p =
     (let (n, p) = fill pipe_full pipe_put data p in
      if n < length data \<and> \<not> single p
      then let p = (if n > 0 then p\<lparr>read_wq := []\<rparr> else p)
           in (n, False, p\<lparr>write_wq := write_wq p @ [task]\<rparr>)
      else (n, True, p))"

definition pipe_release :: "pipe \<Rightarrow> pipe" where
  "pipe_release p = (if single p then p else p\<lparr>single := True, read_wq := [], write_wq := []\<rparr>)"

definition pipe_inv :: "pipe \<Rightarrow> bool" where
  "pipe_inv p \<longleftrightarrow> length (buf p) = PIPE_BUFSIZE \<and> buf_head p < PIPE_BUFSIZE \<and> buf_tail p < PIPE_BUFSIZE"

definition pipe_contents :: "pipe \<Rightarrow> byte list" where
  "pipe_contents p = ring_list PIPE_BUFSIZE (buf p) (buf_head p) (buf_tail p)"

lemma bufsize_pos [simp]: "0 < PIPE_BUFSIZE"
  by (simp add: PIPE_BUFSIZE_def)

lemmas pipe_defs = pipe_inv_def pipe_contents_def pipe_empty_def pipe_full_def pipe_put_def pipe_get_def

interpretation pq: bounded_queue pipe_contents pipe_inv "PIPE_BUFSIZE - 1" pipe_empty pipe_full pipe_put pipe_get
proof
  fix p x assume inv: "pipe_inv p"
  then have b: "buf_head p < PIPE_BUFSIZE" "buf_tail p < PIPE_BUFSIZE" "length (buf p) = PIPE_BUFSIZE"
    by (simp_all add: pipe_inv_def)
  show "pipe_empty p \<longleftrightarrow> pipe_contents p = []"
    using ring_empty [OF b(1,2)] by (simp add: pipe_defs flip: length_0_conv)
  show "pipe_full p \<longleftrightarrow> length (pipe_contents p) = PIPE_BUFSIZE - 1"
    using ring_full [OF b(1,2)] by (simp add: pipe_defs)
  show "length (pipe_contents p) \<le> PIPE_BUFSIZE - 1"
    using ring_count_less [of PIPE_BUFSIZE "buf_head p" "buf_tail p"] by (simp add: pipe_contents_def)
  show "pipe_inv (pipe_put x p)" "pipe_inv (snd (pipe_get p))"
    using b by (simp_all add: pipe_defs)
  show "pipe_contents (pipe_put x p) = pipe_contents p @ [x]" if "\<not> pipe_full p"
    using that ring_push [OF b(1,2) _ b(3)] by (simp add: pipe_defs)
  show "pipe_contents p = fst (pipe_get p) # pipe_contents (snd (pipe_get p))" if "\<not> pipe_empty p"
    using that ring_pop [OF b(1,2)] by (simp add: pipe_defs)
qed

section \<open>Tasks on a pipe\<close>

text \<open>What a task is doing: nothing, a read of so many more bytes, a write of the remaining bytes,
  each runnable or asleep.\<close>

datatype pipe_task = PIdle | PReading nat | PReadSleep nat | PWriting "byte list" | PWriteSleep "byte list"

record pipe_sys =
  the_pipe :: pipe
  sent :: "byte list"
  received :: "byte list"
  ptask :: "nat \<Rightarrow> pipe_task"

text \<open>Tasks that are asleep but in no wait queue have been woken.\<close>

definition wake_tasks :: "pipe \<Rightarrow> (nat \<Rightarrow> pipe_task) \<Rightarrow> nat \<Rightarrow> pipe_task" where
  "wake_tasks p f t = (case f t of
      PReadSleep n \<Rightarrow> if t \<in> set (read_wq p) then f t else PReading n
    | PWriteSleep xs \<Rightarrow> if t \<in> set (write_wq p) then f t else PWriting xs
    | _ \<Rightarrow> f t)"

definition run_read :: "nat \<Rightarrow> nat \<Rightarrow> pipe_sys \<Rightarrow> pipe_sys" where
  "run_read t len s =
     (let (bs, done, p) = pipe_read_section t len (the_pipe s)
      in s\<lparr>the_pipe := p, received := received s @ bs,
           ptask := wake_tasks p ((ptask s)(t := if done then PIdle else PReadSleep (len - length bs)))\<rparr>)"

definition run_write :: "nat \<Rightarrow> byte list \<Rightarrow> pipe_sys \<Rightarrow> pipe_sys" where
  "run_write t data s =
     (let (n, done, p) = pipe_write_section t data (the_pipe s)
      in s\<lparr>the_pipe := p, sent := sent s @ take n data,
           ptask := wake_tasks p ((ptask s)(t := if done then PIdle else PWriteSleep (drop n data)))\<rparr>)"

inductive pipe_step :: "pipe_sys \<Rightarrow> pipe_sys \<Rightarrow> bool" where
  call_read: "ptask s t = PIdle \<Longrightarrow> pipe_step s (s\<lparr>ptask := (ptask s)(t := PReading len)\<rparr>)"
| call_write: "ptask s t = PIdle \<Longrightarrow> pipe_step s (s\<lparr>ptask := (ptask s)(t := PWriting data)\<rparr>)"
| do_read: "ptask s t = PReading len \<Longrightarrow> pipe_step s (run_read t len s)"
| do_write: "ptask s t = PWriting data \<Longrightarrow> pipe_step s (run_write t data s)"
| do_release: "pipe_step s (s\<lparr>the_pipe := pipe_release (the_pipe s),
     ptask := wake_tasks (pipe_release (the_pipe s)) (ptask s)\<rparr>)"

text \<open>The same steps with the task that makes them; a task closes its end only while it is in no call.\<close>

inductive pipe_act :: "nat \<Rightarrow> pipe_sys \<Rightarrow> pipe_sys \<Rightarrow> bool" for t where
  act_call_read: "ptask s t = PIdle \<Longrightarrow> pipe_act t s (s\<lparr>ptask := (ptask s)(t := PReading len)\<rparr>)"
| act_call_write: "ptask s t = PIdle \<Longrightarrow> pipe_act t s (s\<lparr>ptask := (ptask s)(t := PWriting data)\<rparr>)"
| act_read: "ptask s t = PReading len \<Longrightarrow> pipe_act t s (run_read t len s)"
| act_write: "ptask s t = PWriting data \<Longrightarrow> pipe_act t s (run_write t data s)"
| act_release: "ptask s t = PIdle \<Longrightarrow> pipe_act t s (s\<lparr>the_pipe := pipe_release (the_pipe s),
     ptask := wake_tasks (pipe_release (the_pipe s)) (ptask s)\<rparr>)"

text \<open>Steps of the tasks of a set.\<close>

definition pipe_by :: "nat set \<Rightarrow> pipe_sys \<Rightarrow> pipe_sys \<Rightarrow> bool" where
  "pipe_by T s s' \<longleftrightarrow> (\<exists>t\<in>T. pipe_act t s s')"

definition pipe_start :: "pipe_sys \<Rightarrow> bool" where
  "pipe_start s \<longleftrightarrow> (\<exists>mem. length mem = PIPE_BUFSIZE \<and> the_pipe s = new_pipe mem) \<and>
     sent s = [] \<and> received s = [] \<and> (\<forall>t. ptask s t = PIdle)"

definition pipe_sys_inv :: "pipe_sys \<Rightarrow> bool" where
  "pipe_sys_inv s \<longleftrightarrow> pipe_inv (the_pipe s) \<and> sent s = received s @ pipe_contents (the_pipe s)"

lemma contents_wq [simp]:
  "pipe_contents (p\<lparr>read_wq := r\<rparr>) = pipe_contents p" "pipe_contents (p\<lparr>write_wq := r\<rparr>) = pipe_contents p"
  "pipe_contents (p\<lparr>single := b\<rparr>) = pipe_contents p"
  "pipe_inv (p\<lparr>read_wq := r\<rparr>) = pipe_inv p" "pipe_inv (p\<lparr>write_wq := r\<rparr>) = pipe_inv p"
  "pipe_inv (p\<lparr>single := b\<rparr>) = pipe_inv p"
  by (simp_all add: pipe_contents_def pipe_inv_def)

lemma read_section_contents:
  assumes "pipe_inv p" "pipe_read_section t len p = (bs, done, p')"
  shows "pipe_inv p'" "bs = take len (pipe_contents p)" "pipe_contents p' = drop len (pipe_contents p)"
proof -
  obtain q where q: "drain pipe_empty pipe_get len p = (take len (pipe_contents p), q)" "pipe_inv q"
    "pipe_contents q = drop len (pipe_contents p)"
    using pq.drain_correct [OF assms(1)] by blast
  show "pipe_inv p'" "bs = take len (pipe_contents p)" "pipe_contents p' = drop len (pipe_contents p)"
    using assms(2) q by (auto simp: pipe_read_section_def Let_def split: if_splits)
qed

lemma write_section_contents:
  assumes "pipe_inv p" "pipe_write_section t data p = (n, done, p')"
  shows "pipe_inv p'" "n = min (length data) (PIPE_BUFSIZE - 1 - length (pipe_contents p))"
    "pipe_contents p' = pipe_contents p @ take n data"
proof -
  let ?k = "PIPE_BUFSIZE - 1 - length (pipe_contents p)"
  obtain q where q: "fill pipe_full pipe_put data p = (min (length data) ?k, q)" "pipe_inv q"
    "pipe_contents q = pipe_contents p @ take ?k data"
    using pq.fill_correct [OF assms(1)] by blast
  show n: "n = min (length data) ?k" "pipe_inv p'"
    using assms(2) q by (auto simp: pipe_write_section_def Let_def split: if_splits)
  have "pipe_contents p' = pipe_contents q"
    using assms(2) q by (auto simp: pipe_write_section_def Let_def split: if_splits)
  then show "pipe_contents p' = pipe_contents p @ take n data" using q(3) n(1) by (simp add: min_def)
qed

interpretation ps: invariant_system pipe_start pipe_step pipe_sys_inv
proof
  show "pipe_sys_inv s" if "pipe_start s" for s
    using that by (auto simp: pipe_start_def pipe_sys_inv_def new_pipe_def pipe_inv_def pipe_contents_def
        ring_list_def ring_count_def)
  show "pipe_sys_inv s'" if inv: "pipe_sys_inv s" and step: "pipe_step s s'" for s s'
    using step
  proof cases
    case (do_read t len)
    obtain bs d p where r: "pipe_read_section t len (the_pipe s) = (bs, d, p)" by (metis prod_cases3)
    from read_section_contents [OF _ r] inv do_read r show ?thesis
      by (simp add: pipe_sys_inv_def run_read_def)
  next
    case (do_write t data)
    obtain n d p where r: "pipe_write_section t data (the_pipe s) = (n, d, p)" by (metis prod_cases3)
    from write_section_contents(1,3) [OF _ r] inv do_write r show ?thesis
      by (simp add: pipe_sys_inv_def run_write_def)
  next
    case do_release
    then show ?thesis using inv by (simp add: pipe_sys_inv_def pipe_release_def)
  qed (use inv in \<open>simp_all add: pipe_sys_inv_def\<close>)
qed

text \<open>The three cases of a call that matter for waking: a read on an empty pipe sleeps and wakes
  nobody; a write that fits returns and wakes nobody; a write to a full pipe sleeps and wakes nobody.\<close>

lemma read_empty:
  "pipe_empty p \<Longrightarrow> \<not> single p \<Longrightarrow> 0 < len \<Longrightarrow>
     pipe_read_section t len p = ([], False, p\<lparr>read_wq := read_wq p @ [t]\<rparr>)"
  by (cases len) (simp_all add: pipe_read_section_def)

lemma write_full:
  "pipe_full p \<Longrightarrow> \<not> single p \<Longrightarrow> data \<noteq> [] \<Longrightarrow>
     pipe_write_section t data p = (0, False, p\<lparr>write_wq := write_wq p @ [t]\<rparr>)"
  by (cases data) (simp_all add: pipe_write_section_def)

lemma write_fits:
  assumes "pipe_inv p" "length (pipe_contents p) + length data < PIPE_BUFSIZE"
  shows "\<exists>p'. pipe_write_section t data p = (length data, True, p') \<and> pipe_inv p' \<and>
    pipe_contents p' = pipe_contents p @ data \<and> read_wq p' = read_wq p \<and> write_wq p' = write_wq p \<and> single p' = single p"
proof -
  obtain q where q: "fill pipe_full pipe_put data p = (min (length data) (PIPE_BUFSIZE - 1 - length (pipe_contents p)), q)"
    "pipe_inv q" "pipe_contents q = pipe_contents p @ take (PIPE_BUFSIZE - 1 - length (pipe_contents p)) data"
    using pq.fill_correct [OF assms(1)] by blast
  have "read_wq q = read_wq p" "write_wq q = write_wq p" "single q = single p"
    using fill_keeps [of read_wq pipe_put pipe_full data p] fill_keeps [of write_wq pipe_put pipe_full data p]
      fill_keeps [of single pipe_put pipe_full data p] q(1)
    by (simp_all add: pipe_put_def)
  moreover have "min (length data) (PIPE_BUFSIZE - 1 - length (pipe_contents p)) = length data"
    "take (PIPE_BUFSIZE - 1 - length (pipe_contents p)) data = data"
    using assms(2) by simp_all
  ultimately show ?thesis using q by (simp add: pipe_write_section_def)
qed

text \<open>A task that is asleep makes no step.\<close>

lemma asleep_stuck:
  assumes "\<And>t. t \<in> T \<Longrightarrow> \<exists>n xs. ptask s t = PReadSleep n \<or> ptask s t = PWriteSleep xs"
  shows "\<not> pipe_by T s u"
proof
  assume "pipe_by T s u"
  then obtain t where t: "t \<in> T" "pipe_act t s u" by (auto simp: pipe_by_def)
  from t(2) assms [OF t(1)] show False by (cases rule: pipe_act.cases) auto
qed

text \<open>A state in which task 0 is asleep in a read although the pipe holds \<open>data\<close>.\<close>

lemma stuck_reader:
  assumes "pipe_start s" "data \<noteq> []" "length data < PIPE_BUFSIZE"
  shows "\<exists>s'. (pipe_by {0, 1})\<^sup>*\<^sup>* s s' \<and> pipe_inv (the_pipe s') \<and> pipe_contents (the_pipe s') = data \<and>
    read_wq (the_pipe s') = [0] \<and> write_wq (the_pipe s') = [] \<and> \<not> single (the_pipe s') \<and>
    ptask s' = (\<lambda>_. PIdle)(0 := PReadSleep 1)"
proof -
  obtain mem where mem: "length mem = PIPE_BUFSIZE" "the_pipe s = new_pipe mem" and idle: "ptask s = (\<lambda>_. PIdle)"
    using assms(1) by (auto simp: pipe_start_def fun_eq_iff)
  let ?p = "new_pipe mem"
  have p: "pipe_inv ?p" "pipe_contents ?p = []" "pipe_empty ?p" "\<not> single ?p" "read_wq ?p = []" "write_wq ?p = []"
    using mem by (simp_all add: new_pipe_def pipe_defs ring_list_def ring_count_def)
  define p1 where "p1 = ?p\<lparr>read_wq := [0]\<rparr>"
  have p1: "pipe_inv p1" "pipe_contents p1 = []" "read_wq p1 = [0]" "write_wq p1 = []" "\<not> single p1"
    using p by (simp_all add: p1_def)
  define s1 where "s1 = s\<lparr>ptask := (\<lambda>_. PIdle)(0 := PReading 1)\<rparr>"
  have step1: "pipe_by {0, 1} s s1" using act_call_read [of s 0 1] by (simp add: s1_def idle pipe_by_def)
  define s2 where "s2 = run_read 0 1 s1"
  have step2: "pipe_by {0, 1} s1 s2" using act_read [of s1 0 1] by (simp add: s2_def s1_def pipe_by_def)
  have "pipe_read_section 0 1 (the_pipe s1) = ([], False, p1)"
    using read_empty [of ?p 1 0] p by (simp add: s1_def mem(2) p1_def)
  then have s2: "the_pipe s2 = p1" "ptask s2 = (\<lambda>_. PIdle)(0 := PReadSleep 1)"
    using p1 by (auto simp: s2_def run_read_def s1_def wake_tasks_def fun_eq_iff)
  define s3 where "s3 = s2\<lparr>ptask := (\<lambda>_. PIdle)(0 := PReadSleep 1, 1 := PWriting data)\<rparr>"
  have step3: "pipe_by {0, 1} s2 s3" using act_call_write [of s2 1 data] by (simp add: s3_def s2 pipe_by_def)
  obtain p4 where p4: "pipe_write_section 1 data p1 = (length data, True, p4)" "pipe_inv p4"
      "pipe_contents p4 = data" "read_wq p4 = [0]" "write_wq p4 = []" "\<not> single p4"
    using write_fits [of p1 data 1] p1 assms(3) by auto
  have step4: "pipe_by {0, 1} s3 (run_write 1 data s3)" using act_write [of s3 1 data] by (simp add: s3_def pipe_by_def)
  have "the_pipe (run_write 1 data s3) = p4 \<and> ptask (run_write 1 data s3) = (\<lambda>_. PIdle)(0 := PReadSleep 1)"
    using p4 by (auto simp: run_write_def s3_def s2 wake_tasks_def fun_eq_iff)
  moreover have "(pipe_by {0, 1})\<^sup>*\<^sup>* s (run_write 1 data s3)"
    using step1 step2 step3 step4 by auto
  ultimately show ?thesis using p4 by blast
qed

section \<open>Properties\<close>

text \<open>C7: a pipe is a FIFO: whatever the interleaving of readers, writers and closes, the bytes
  written so far are the bytes read so far followed by the bytes in the buffer, so nothing is lost,
  duplicated or reordered.\<close>

theorem pipe_fifo:
  assumes "pipe_start s" "pipe_step\<^sup>*\<^sup>* s s'"
  shows "sent s' = received s' @ pipe_contents (the_pipe s') \<and> length (pipe_contents (the_pipe s')) < PIPE_BUFSIZE"
  using ps.reachable [OF assms(2,1)] ring_count_less [of PIPE_BUFSIZE]
  by (simp add: pipe_sys_inv_def pipe_contents_def)

definition pipe_sys0 :: pipe_sys where
  "pipe_sys0 = \<lparr>the_pipe = new_pipe (replicate PIPE_BUFSIZE 0), sent = [], received = [], ptask = (\<lambda>_. PIdle)\<rparr>"

lemma pipe_sys0_start: "pipe_start pipe_sys0"
  unfolding pipe_start_def pipe_sys0_def by (auto intro!: exI [of _ "replicate PIPE_BUFSIZE 0"])

theorem pipe_fifo_witness:
  "sent (run_write 0 [7] (pipe_sys0\<lparr>ptask := (\<lambda>_. PIdle)(0 := PWriting [7])\<rparr>)) =
   received pipe_sys0 @ pipe_contents (the_pipe (run_write 0 [7] (pipe_sys0\<lparr>ptask := (\<lambda>_. PIdle)(0 := PWriting [7])\<rparr>)))"
proof -
  let ?s = "pipe_sys0\<lparr>ptask := (\<lambda>_. PIdle)(0 := PWriting [7])\<rparr>"
  have 1: "pipe_step pipe_sys0 ?s" using call_write [of pipe_sys0 0 "[7]"] by (simp add: pipe_sys0_def)
  have 2: "pipe_step ?s (run_write 0 [7] ?s)" by (rule do_write) simp
  show ?thesis
    using pipe_fifo [OF pipe_sys0_start two_steps [where step = pipe_step, OF 1 2]]
    by (simp add: run_write_def split_beta)
qed

text \<open>C25: the calls do not wake the other side when they return, so a reader and a writer can block
  each other for good.  Some run of two tasks alone ends in a state where the pipe is full and open, task 0 sleeps
  in the read queue and task 1 in the write queue, and neither of the two can make a step: both sleep
  for good unless a third task that has the pipe open acts on it.\<close>

theorem pipe_deadlock:
  "\<exists>s. (pipe_by {0, 1})\<^sup>*\<^sup>* pipe_sys0 s \<and> pipe_full (the_pipe s) \<and> \<not> single (the_pipe s) \<and>
     read_wq (the_pipe s) = [0] \<and> write_wq (the_pipe s) = [1] \<and>
     ptask s = (\<lambda>_. PIdle)(0 := PReadSleep 1, 1 := PWriteSleep [7]) \<and>
     (\<nexists>s'. pipe_by {0, 1} s s')"
proof -
  let ?data = "replicate (PIPE_BUFSIZE - 1) (0 :: byte)"
  have "?data \<noteq> []" "length ?data < PIPE_BUFSIZE" by (simp_all add: PIPE_BUFSIZE_def)
  from stuck_reader [OF pipe_sys0_start this] obtain s where s: "(pipe_by {0, 1})\<^sup>*\<^sup>* pipe_sys0 s"
      "pipe_inv (the_pipe s)" "pipe_contents (the_pipe s) = ?data" "read_wq (the_pipe s) = [0]"
      "write_wq (the_pipe s) = []" "\<not> single (the_pipe s)" "ptask s = (\<lambda>_. PIdle)(0 := PReadSleep 1)"
    by blast
  have full: "pipe_full (the_pipe s)" using pq.full_iff [OF s(2)] s(3) by simp
  define s1 where "s1 = s\<lparr>ptask := (\<lambda>_. PIdle)(0 := PReadSleep 1, 1 := PWriting [7])\<rparr>"
  have 1: "pipe_by {0, 1} s s1" using act_call_write [of s 1 "[7]"] s(7) by (simp add: s1_def pipe_by_def)
  have 2: "pipe_by {0, 1} s1 (run_write 1 [7] s1)" using act_write [of s1 1 "[7]"] by (simp add: s1_def pipe_by_def)
  have w: "pipe_write_section 1 [7] (the_pipe s1) = (0, False, (the_pipe s)\<lparr>write_wq := [1]\<rparr>)"
    using write_full [OF full s(6), of "[7]" 1] s(5) by (simp add: s1_def)
  have "the_pipe (run_write 1 [7] s1) = (the_pipe s)\<lparr>write_wq := [1]\<rparr> \<and>
      ptask (run_write 1 [7] s1) = wake_tasks ((the_pipe s)\<lparr>write_wq := [1]\<rparr>) ((ptask s1)(1 := PWriteSleep [7]))"
    unfolding run_write_def w by simp
  then have "the_pipe (run_write 1 [7] s1) = (the_pipe s)\<lparr>write_wq := [1]\<rparr> \<and>
      ptask (run_write 1 [7] s1) = (\<lambda>_. PIdle)(0 := PReadSleep 1, 1 := PWriteSleep [7])"
    using s(4) by (auto simp: s1_def wake_tasks_def fun_eq_iff)
  then have "pipe_full (the_pipe (run_write 1 [7] s1)) \<and> \<not> single (the_pipe (run_write 1 [7] s1)) \<and>
      read_wq (the_pipe (run_write 1 [7] s1)) = [0] \<and> write_wq (the_pipe (run_write 1 [7] s1)) = [1] \<and>
      ptask (run_write 1 [7] s1) = (\<lambda>_. PIdle)(0 := PReadSleep 1, 1 := PWriteSleep [7])"
    using full s(4,6) by (simp add: pipe_full_def)
  moreover have "(pipe_by {0, 1})\<^sup>*\<^sup>* pipe_sys0 (run_write 1 [7] s1)"
    by (rule rtranclp_trans [OF s(1) two_steps [where step = "pipe_by {0, 1}", OF 1 2]])
  moreover have "\<not> pipe_by {0, 1} (run_write 1 [7] s1) s'" for s'
    using calculation(1) by (intro asleep_stuck) auto
  ultimately show ?thesis by blast
qed

end
