(* ===== verification/Pty.thy ===== *)
theory Pty
  imports Ring
begin

text \<open>
  Pseudo terminals (\<open>src/console/pty.c\<close>): the line discipline that turns the characters written to
  the master into edited lines for the slave and echoes them, the output ring from slave to master,
  and the open, release, read and write calls of both sides.  A line handed to the slave is the
  block of bytes \<open>kmalloc\<close> returned for it, with its terminating NUL.  Calls that may sleep are
  modelled by the section from taking the lock to returning or sleeping.
\<close>

section \<open>State\<close>

definition PTY_COUNT :: nat where "PTY_COUNT = 8"
definition PTY_BUFSIZE :: nat where "PTY_BUFSIZE = 4096"
definition LINE_MAX :: nat where "LINE_MAX = 256"
definition LINE_QUEUE_SIZE :: nat where "LINE_QUEUE_SIZE = 16"

text \<open>The flag word of the terminal: \<open>ICANON\<close> is bit 0, \<open>ECHO\<close> bit 1, \<open>ISIG\<close> bit 2.\<close>

definition ECHO_set :: "nat \<Rightarrow> bool" where "ECHO_set f \<longleftrightarrow> odd (f div 2)"

record line_discipline =
  line_buf :: "byte list"
  line_pos :: nat
  completed_lines :: "byte list list"
  completed_head :: nat
  completed_tail :: nat
  c_lflag :: nat

record pty_pair =
  allocated :: bool
  master_ref :: int
  slave_ref :: int
  m2s_head :: nat
  m2s_tail :: nat
  s2m_buf :: "byte list"
  s2m_head :: nat
  s2m_tail :: nat
  ldisc :: line_discipline
  wq_s_r :: "nat list"
  wq_s_w :: "nat list"

section \<open>The line discipline\<close>

definition ldisc_init :: line_discipline where
  "ldisc_init = \<lparr>line_buf = replicate LINE_MAX 0, line_pos = 0, completed_lines = replicate LINE_QUEUE_SIZE [],
     completed_head = 0, completed_tail = 0, c_lflag = 7\<rparr>"

definition s2m_full :: "pty_pair \<Rightarrow> bool" where
  "s2m_full p \<longleftrightarrow> (s2m_head p + 1) mod PTY_BUFSIZE = s2m_tail p"

definition s2m_empty :: "pty_pair \<Rightarrow> bool" where
  "s2m_empty p \<longleftrightarrow> s2m_head p = s2m_tail p"

definition s2m_put :: "byte \<Rightarrow> pty_pair \<Rightarrow> pty_pair" where
  "s2m_put x p = p\<lparr>s2m_buf := (s2m_buf p)[s2m_head p := x], s2m_head := (s2m_head p + 1) mod PTY_BUFSIZE\<rparr>"

definition s2m_get :: "pty_pair \<Rightarrow> byte \<times> pty_pair" where
  "s2m_get p = (s2m_buf p ! s2m_tail p, p\<lparr>s2m_tail := (s2m_tail p + 1) mod PTY_BUFSIZE\<rparr>)"

definition ldisc_echo :: "byte list \<Rightarrow> pty_pair \<Rightarrow> pty_pair" where
  "ldisc_echo data p = snd (fill s2m_full s2m_put data p)"

definition line_full :: "line_discipline \<Rightarrow> bool" where
  "line_full ld \<longleftrightarrow> (completed_head ld + 1) mod LINE_QUEUE_SIZE = completed_tail ld"

definition line_empty :: "line_discipline \<Rightarrow> bool" where
  "line_empty ld \<longleftrightarrow> completed_head ld = completed_tail ld"

definition line_put :: "byte list \<Rightarrow> line_discipline \<Rightarrow> line_discipline" where
  "line_put l ld = ld\<lparr>completed_lines := (completed_lines ld)[completed_head ld := l],
     completed_head := (completed_head ld + 1) mod LINE_QUEUE_SIZE\<rparr>"

definition line_get :: "line_discipline \<Rightarrow> byte list \<times> line_discipline" where
  "line_get ld = (completed_lines ld ! completed_tail ld,
     ld\<lparr>completed_tail := (completed_tail ld + 1) mod LINE_QUEUE_SIZE\<rparr>)"

text \<open>One character; \<open>ok\<close> says whether the \<open>kmalloc\<close> for a finished line succeeds.\<close>

definition ldisc_char :: "bool \<Rightarrow> byte \<Rightarrow> pty_pair \<Rightarrow> pty_pair" where
  "ldisc_char ok c p =
     (let ld = ldisc p in
      if c = 10 then
        let ld = (if ok \<and> \<not> line_full ld then line_put (take (line_pos ld) (line_buf ld) @ [0]) ld else ld);
            p = p\<lparr>ldisc := ld\<lparr>line_pos := 0\<rparr>\<rparr>
        in if c_lflag ld \<noteq> 0 then ldisc_echo [10] p else p
      else if c = 8 then
        if line_pos ld > 0 then
          let p = p\<lparr>ldisc := ld\<lparr>line_pos := line_pos ld - 1\<rparr>\<rparr>
          in if c_lflag ld \<noteq> 0 then ldisc_echo [8] p else p
        else p
      else if line_pos ld < LINE_MAX - 1 then
        let p = p\<lparr>ldisc := ld\<lparr>line_buf := (line_buf ld)[line_pos ld := c], line_pos := line_pos ld + 1\<rparr>\<rparr>
        in if ECHO_set (c_lflag ld) then ldisc_echo [c] p else p
      else p)"

text \<open>\<open>ok i\<close> is the outcome of the allocation made for the character at position \<open>i\<close>.  Readers
  are woken when a line was allocated, even if the queue was full.\<close>

definition ldisc_input :: "(nat \<Rightarrow> bool) \<Rightarrow> byte list \<Rightarrow> pty_pair \<Rightarrow> pty_pair" where
  "ldisc_input ok data p =
     (let p = fold (\<lambda>i p. ldisc_char (ok i) (data ! i) p) [0..<length data] p;
          new_lines = (\<exists>i \<in> set [0..<length data]. data ! i = 10 \<and> ok i)
      in if new_lines then p\<lparr>wq_s_r := []\<rparr> else p)"

section \<open>The calls\<close>

definition pty_master_open :: "int \<Rightarrow> pty_pair list \<Rightarrow> int \<times> pty_pair list" where
  "pty_master_open idx ps =
     (if idx < 0 \<or> idx \<ge> int PTY_COUNT then (-1, ps)
      else let p = ps ! nat idx;
               p = (if master_ref p = 0
                    then p\<lparr>allocated := True, m2s_head := 0, m2s_tail := 0, s2m_head := 0, s2m_tail := 0,
                           ldisc := ldisc_init, wq_s_r := [], wq_s_w := []\<rparr>
                    else p);
               p = p\<lparr>master_ref := master_ref p + 1\<rparr>
           in (0, ps[nat idx := p]))"

definition pty_master_read :: "nat \<Rightarrow> pty_pair \<Rightarrow> byte list \<times> pty_pair" where
  "pty_master_read len p =
     (let (bs, p) = drain s2m_empty s2m_get len p
      in if bs \<noteq> [] then (bs, p\<lparr>wq_s_w := []\<rparr>) else (bs, p))"

definition pty_master_write :: "(nat \<Rightarrow> bool) \<Rightarrow> byte list \<Rightarrow> pty_pair \<Rightarrow> nat \<times> pty_pair" where
  "pty_master_write ok data p = (length data, ldisc_input ok data p)"

definition pty_master_release :: "pty_pair \<Rightarrow> pty_pair" where
  "pty_master_release p =
     (let p = p\<lparr>master_ref := master_ref p - 1\<rparr>
      in if master_ref p = 0 \<and> slave_ref p = 0 then p\<lparr>allocated := False\<rparr> else p)"

definition pty_slave_open :: "int \<Rightarrow> pty_pair list \<Rightarrow> int \<times> pty_pair list" where
  "pty_slave_open idx ps =
     (if idx < 0 \<or> idx \<ge> int PTY_COUNT then (-1, ps)
      else let p = ps ! nat idx in
        if \<not> allocated p \<or> master_ref p = 0 then (-1, ps)
        else (0, ps[nat idx := p\<lparr>slave_ref := slave_ref p + 1\<rparr>]))"

text \<open>A slave read: the characters, or \<open>None\<close> when no line is finished and the task \<open>t\<close> goes to
  sleep.  A line longer than the caller's buffer stays in the queue, shifted.\<close>

definition pty_slave_read :: "nat \<Rightarrow> nat \<Rightarrow> pty_pair \<Rightarrow> byte list option \<times> pty_pair" where
  "pty_slave_read t len p =
     (let ld = ldisc p in
      if line_empty ld then (None, p\<lparr>wq_s_r := wq_s_r p @ [t]\<rparr>)
      else let line = completed_lines ld ! completed_tail ld;
               line_len = length (takeWhile (\<lambda>x. x \<noteq> 0) line) + 1
           in if line_len > len
              then let line' = take (line_len - len) (drop len line) @ drop (line_len - len) line
                   in (Some (take len line),
                       p\<lparr>ldisc := ld\<lparr>completed_lines := (completed_lines ld)[completed_tail ld := line']\<rparr>\<rparr>)
              else (Some (take line_len line), p\<lparr>ldisc := snd (line_get ld)\<rparr>))"

text \<open>A slave write: how many characters went out and whether the call has returned; otherwise the
  task sleeps until the master reads.\<close>

definition pty_slave_write :: "nat \<Rightarrow> byte list \<Rightarrow> pty_pair \<Rightarrow> nat \<times> bool \<times> pty_pair" where
  "pty_slave_write t data p =
     (let (n, p) = fill s2m_full s2m_put data p
      in if n < length data then (n, False, p\<lparr>wq_s_w := wq_s_w p @ [t]\<rparr>) else (n, True, p))"

definition pty_slave_release :: "pty_pair \<Rightarrow> pty_pair" where
  "pty_slave_release p =
     (let p = p\<lparr>slave_ref := slave_ref p - 1\<rparr>
      in if master_ref p = 0 \<and> slave_ref p = 0 then p\<lparr>allocated := False\<rparr> else p)"

text \<open>\<open>pty_init\<close> allocates the table and clears it.\<close>

definition zero_ldisc :: line_discipline where
  "zero_ldisc = \<lparr>line_buf = replicate LINE_MAX 0, line_pos = 0, completed_lines = replicate LINE_QUEUE_SIZE [],
     completed_head = 0, completed_tail = 0, c_lflag = 0\<rparr>"

definition pty_init :: "pty_pair list" where
  "pty_init = replicate PTY_COUNT \<lparr>allocated = False, master_ref = 0, slave_ref = 0, m2s_head = 0, m2s_tail = 0,
     s2m_buf = replicate PTY_BUFSIZE 0, s2m_head = 0, s2m_tail = 0, ldisc = zero_ldisc, wq_s_r = [], wq_s_w = []\<rparr>"

section \<open>Invariants and queues\<close>

definition ld_inv :: "line_discipline \<Rightarrow> bool" where
  "ld_inv ld \<longleftrightarrow> length (line_buf ld) = LINE_MAX \<and> line_pos ld < LINE_MAX \<and>
     length (completed_lines ld) = LINE_QUEUE_SIZE \<and>
     completed_head ld < LINE_QUEUE_SIZE \<and> completed_tail ld < LINE_QUEUE_SIZE"

definition s2m_inv :: "pty_pair \<Rightarrow> bool" where
  "s2m_inv p \<longleftrightarrow> length (s2m_buf p) = PTY_BUFSIZE \<and> s2m_head p < PTY_BUFSIZE \<and> s2m_tail p < PTY_BUFSIZE"

definition pty_inv :: "pty_pair \<Rightarrow> bool" where
  "pty_inv p \<longleftrightarrow> s2m_inv p \<and> ld_inv (ldisc p)"

definition lines :: "line_discipline \<Rightarrow> byte list list" where
  "lines ld = ring_list LINE_QUEUE_SIZE (completed_lines ld) (completed_head ld) (completed_tail ld)"

definition pending_out :: "pty_pair \<Rightarrow> byte list" where
  "pending_out p = ring_list PTY_BUFSIZE (s2m_buf p) (s2m_head p) (s2m_tail p)"

definition current_line :: "line_discipline \<Rightarrow> byte list" where
  "current_line ld = take (line_pos ld) (line_buf ld)"

lemma sizes_pos [simp]: "0 < PTY_BUFSIZE" "0 < LINE_QUEUE_SIZE"
  by (simp_all add: PTY_BUFSIZE_def LINE_QUEUE_SIZE_def)

lemmas s2m_defs = s2m_inv_def pending_out_def s2m_empty_def s2m_full_def s2m_put_def s2m_get_def
lemmas line_defs = ld_inv_def lines_def line_empty_def line_full_def line_put_def line_get_def

interpretation oq: bounded_queue pending_out s2m_inv "PTY_BUFSIZE - 1" s2m_empty s2m_full s2m_put s2m_get
proof
  fix p x assume inv: "s2m_inv p"
  then have b: "s2m_head p < PTY_BUFSIZE" "s2m_tail p < PTY_BUFSIZE" "length (s2m_buf p) = PTY_BUFSIZE"
    by (simp_all add: s2m_inv_def)
  show "s2m_empty p \<longleftrightarrow> pending_out p = []"
    using ring_empty [OF b(1,2)] by (simp add: s2m_defs flip: length_0_conv)
  show "s2m_full p \<longleftrightarrow> length (pending_out p) = PTY_BUFSIZE - 1"
    using ring_full [OF b(1,2)] by (simp add: s2m_defs)
  show "length (pending_out p) \<le> PTY_BUFSIZE - 1"
    using ring_count_less [of PTY_BUFSIZE "s2m_head p" "s2m_tail p"] by (simp add: pending_out_def)
  show "s2m_inv (s2m_put x p)" "s2m_inv (snd (s2m_get p))" using b by (simp_all add: s2m_defs)
  show "pending_out (s2m_put x p) = pending_out p @ [x]" if "\<not> s2m_full p"
    using that ring_push [OF b(1,2) _ b(3)] by (simp add: s2m_defs)
  show "pending_out p = fst (s2m_get p) # pending_out (snd (s2m_get p))" if "\<not> s2m_empty p"
    using that ring_pop [OF b(1,2)] by (simp add: s2m_defs)
qed

interpretation lq: bounded_queue lines ld_inv "LINE_QUEUE_SIZE - 1" line_empty line_full line_put line_get
proof
  fix ld x assume inv: "ld_inv ld"
  then have b: "completed_head ld < LINE_QUEUE_SIZE" "completed_tail ld < LINE_QUEUE_SIZE"
      "length (completed_lines ld) = LINE_QUEUE_SIZE"
    by (simp_all add: ld_inv_def)
  show "line_empty ld \<longleftrightarrow> lines ld = []"
    using ring_empty [OF b(1,2)] by (simp add: line_defs flip: length_0_conv)
  show "line_full ld \<longleftrightarrow> length (lines ld) = LINE_QUEUE_SIZE - 1"
    using ring_full [OF b(1,2)] by (simp add: line_defs)
  show "length (lines ld) \<le> LINE_QUEUE_SIZE - 1"
    using ring_count_less [of LINE_QUEUE_SIZE "completed_head ld" "completed_tail ld"] by (simp add: lines_def)
  show "ld_inv (line_put x ld)" "ld_inv (snd (line_get ld))" using inv by (simp_all add: line_defs)
  show "lines (line_put x ld) = lines ld @ [x]" if "\<not> line_full ld"
    using that ring_push [OF b(1,2) _ b(3)] by (simp add: line_defs)
  show "lines ld = fst (line_get ld) # lines (snd (line_get ld))" if "\<not> line_empty ld"
    using that ring_pop [OF b(1,2)] by (simp add: line_defs)
qed

section \<open>Refinement of the line discipline\<close>

text \<open>What a user sees of a terminal: the line being edited, the finished lines, the output.\<close>

definition push_cap :: "nat \<Rightarrow> 'a list \<Rightarrow> 'a \<Rightarrow> 'a list" where
  "push_cap n q x = (if length q < n then q @ [x] else q)"

type_synonym term_view = "byte list \<times> byte list list \<times> byte list"

definition term_char :: "nat \<Rightarrow> bool \<Rightarrow> byte \<Rightarrow> term_view \<Rightarrow> term_view" where
  "term_char flags ok c v =
     (case v of (cur, ls, out) \<Rightarrow>
        if c = 10 then
          ([], if ok then push_cap (LINE_QUEUE_SIZE - 1) ls (cur @ [0]) else ls,
           if flags \<noteq> 0 then push_cap (PTY_BUFSIZE - 1) out 10 else out)
        else if c = 8 then
          if cur \<noteq> [] then (butlast cur, ls, if flags \<noteq> 0 then push_cap (PTY_BUFSIZE - 1) out 8 else out)
          else (cur, ls, out)
        else if length cur < LINE_MAX - 1 then
          (cur @ [c], ls, if ECHO_set flags then push_cap (PTY_BUFSIZE - 1) out c else out)
        else (cur, ls, out))"

definition view :: "pty_pair \<Rightarrow> term_view" where
  "view p = (current_line (ldisc p), lines (ldisc p), pending_out p)"

lemma ldisc_echo_one:
  assumes "s2m_inv p"
  shows "s2m_inv (ldisc_echo [c] p)" "pending_out (ldisc_echo [c] p) = push_cap (PTY_BUFSIZE - 1) (pending_out p) c"
    "ldisc (ldisc_echo [c] p) = ldisc p"
proof -
  show "s2m_inv (ldisc_echo [c] p)"
    using assms oq.push_inv by (simp add: ldisc_echo_def)
  show "pending_out (ldisc_echo [c] p) = push_cap (PTY_BUFSIZE - 1) (pending_out p) c"
    using oq.push_contents [OF assms] oq.full_iff [OF assms] oq.bounded [OF assms]
    by (simp add: ldisc_echo_def push_cap_def)
  show "ldisc (ldisc_echo [c] p) = ldisc p" by (simp add: ldisc_echo_def s2m_put_def)
qed

lemma s2m_ldisc [simp]: "s2m_inv (p\<lparr>ldisc := ld\<rparr>) = s2m_inv p" "pending_out (p\<lparr>ldisc := ld\<rparr>) = pending_out p"
  by (simp_all add: s2m_inv_def pending_out_def)

lemma ld_fields [simp]:
  "lines (ld\<lparr>line_pos := n\<rparr>) = lines ld" "lines (ld\<lparr>line_buf := b\<rparr>) = lines ld"
  "line_pos (line_put l ld) = line_pos ld" "line_buf (line_put l ld) = line_buf ld" "c_lflag (line_put l ld) = c_lflag ld"
  by (simp_all add: lines_def line_put_def)

lemma ld_inv_pos: "ld_inv ld \<Longrightarrow> n < LINE_MAX \<Longrightarrow> ld_inv (ld\<lparr>line_pos := n\<rparr>)"
  by (simp add: ld_inv_def)

lemma ldisc_char_newline:
  assumes inv: "pty_inv p"
  shows "pty_inv (ldisc_char ok 10 p) \<and> view (ldisc_char ok 10 p) = term_char (c_lflag (ldisc p)) ok 10 (view p) \<and>
    c_lflag (ldisc (ldisc_char ok 10 p)) = c_lflag (ldisc p)"
proof -
  let ?ld = "ldisc p"
  have I: "s2m_inv p" "ld_inv ?ld" using inv by (simp_all add: pty_inv_def)
  define ld where "ld = (if ok \<and> \<not> line_full ?ld then line_put (current_line ?ld @ [0]) ?ld else ?ld)"
  have ld: "ld_inv ld" "c_lflag ld = c_lflag ?ld"
    "lines ld = (if ok then push_cap (LINE_QUEUE_SIZE - 1) (lines ?ld) (current_line ?ld @ [0]) else lines ?ld)"
    using I(2) lq.push_inv [OF I(2)] lq.push_contents [OF I(2)] lq.full_iff [OF I(2)] lq.bounded [OF I(2)]
    by (auto simp: ld_def push_cap_def)
  define q where "q = p\<lparr>ldisc := ld\<lparr>line_pos := 0\<rparr>\<rparr>"
  have q: "s2m_inv q" "ldisc q = ld\<lparr>line_pos := 0\<rparr>" "pending_out q = pending_out p" "ld_inv (ld\<lparr>line_pos := 0\<rparr>)"
    using I ld(1) by (simp_all add: q_def ld_inv_def)
  have eq: "ldisc_char ok 10 p = (if c_lflag ?ld \<noteq> 0 then ldisc_echo [10] q else q)"
    by (simp add: ldisc_char_def Let_def q_def ld_def current_line_def)
  show ?thesis
    unfolding eq using q ldisc_echo_one [OF q(1), of 10] ld(2,3)
    by (simp add: pty_inv_def view_def term_char_def current_line_def)
qed

lemma ldisc_char_backspace:
  assumes inv: "pty_inv p"
  shows "pty_inv (ldisc_char ok 8 p) \<and> view (ldisc_char ok 8 p) = term_char (c_lflag (ldisc p)) ok 8 (view p) \<and>
    c_lflag (ldisc (ldisc_char ok 8 p)) = c_lflag (ldisc p)"
proof -
  let ?ld = "ldisc p"
  have I: "s2m_inv p" "ld_inv ?ld" using inv by (simp_all add: pty_inv_def)
  have len: "length (line_buf ?ld) = LINE_MAX" "line_pos ?ld < LINE_MAX" using I(2) by (simp_all add: ld_inv_def)
  then have ne: "current_line ?ld \<noteq> [] \<longleftrightarrow> line_pos ?ld > 0" by (auto simp: current_line_def)
  define q where "q = p\<lparr>ldisc := ?ld\<lparr>line_pos := line_pos ?ld - 1\<rparr>\<rparr>"
  have q: "s2m_inv q" "ldisc q = ?ld\<lparr>line_pos := line_pos ?ld - 1\<rparr>" "pending_out q = pending_out p"
    "ld_inv (?ld\<lparr>line_pos := line_pos ?ld - 1\<rparr>)"
    using I len(2) by (simp_all add: q_def ld_inv_def)
  have cur: "take (line_pos ?ld - 1) (line_buf ?ld) = butlast (current_line ?ld)"
    using len by (simp add: current_line_def butlast_take)
  have eq: "ldisc_char ok 8 p = (if line_pos ?ld > 0 then if c_lflag ?ld \<noteq> 0 then ldisc_echo [8] q else q else p)"
    by (simp add: ldisc_char_def Let_def q_def)
  show ?thesis
    unfolding eq using q ldisc_echo_one [OF q(1), of 8] ne inv cur
    by (simp add: pty_inv_def view_def term_char_def current_line_def)
qed

lemma ldisc_char_other:
  assumes inv: "pty_inv p" and c: "c \<noteq> 10" "c \<noteq> 8"
  shows "pty_inv (ldisc_char ok c p) \<and> view (ldisc_char ok c p) = term_char (c_lflag (ldisc p)) ok c (view p) \<and>
    c_lflag (ldisc (ldisc_char ok c p)) = c_lflag (ldisc p)"
proof -
  let ?ld = "ldisc p"
  have I: "s2m_inv p" "ld_inv ?ld" using inv by (simp_all add: pty_inv_def)
  have len: "length (line_buf ?ld) = LINE_MAX" "line_pos ?ld < LINE_MAX" using I(2) by (simp_all add: ld_inv_def)
  then have ln: "length (current_line ?ld) = line_pos ?ld" by (simp add: current_line_def)
  define ld where "ld = ?ld\<lparr>line_buf := (line_buf ?ld)[line_pos ?ld := c], line_pos := line_pos ?ld + 1\<rparr>"
  define q where "q = p\<lparr>ldisc := ld\<rparr>"
  have q: "s2m_inv q" "ldisc q = ld" "pending_out q = pending_out p" "lines ld = lines ?ld" "c_lflag ld = c_lflag ?ld"
    using I by (simp_all add: q_def ld_def lines_def)
  have fits: "ld_inv ld" "current_line ld = current_line ?ld @ [c]" if "line_pos ?ld < LINE_MAX - 1"
    using that I(2) len by (simp_all add: ld_def ld_inv_def current_line_def take_Suc_conv_app_nth)
  have eq: "ldisc_char ok c p = (if line_pos ?ld < LINE_MAX - 1 then if ECHO_set (c_lflag ?ld) then ldisc_echo [c] q else q else p)"
    using c by (simp add: ldisc_char_def Let_def q_def ld_def)
  show ?thesis
    unfolding eq using q ldisc_echo_one [OF q(1), of c] fits inv c ln
    by (simp add: pty_inv_def view_def term_char_def)
qed

lemma ldisc_char_view:
  assumes "pty_inv p"
  shows "pty_inv (ldisc_char ok c p)" "view (ldisc_char ok c p) = term_char (c_lflag (ldisc p)) ok c (view p)"
    "c_lflag (ldisc (ldisc_char ok c p)) = c_lflag (ldisc p)"
  using ldisc_char_newline [OF assms, of ok] ldisc_char_backspace [OF assms, of ok]
    ldisc_char_other [OF assms, of c ok]
  by (cases "c = 10"; cases "c = 8"; simp)+

lemma ldisc_fold_view:
  "pty_inv p \<Longrightarrow> pty_inv (fold (\<lambda>i p. ldisc_char (ok i) (data ! i) p) ns p) \<and>
    view (fold (\<lambda>i p. ldisc_char (ok i) (data ! i) p) ns p) =
      fold (\<lambda>i v. term_char (c_lflag (ldisc p)) (ok i) (data ! i) v) ns (view p) \<and>
    c_lflag (ldisc (fold (\<lambda>i p. ldisc_char (ok i) (data ! i) p) ns p)) = c_lflag (ldisc p)"
  by (induction ns arbitrary: p) (simp_all add: ldisc_char_view)

lemma wq_s_r_irrelevant [simp]:
  "pty_inv (p\<lparr>wq_s_r := ws\<rparr>) = pty_inv p" "view (p\<lparr>wq_s_r := ws\<rparr>) = view p"
  by (simp_all add: pty_inv_def view_def s2m_inv_def pending_out_def)

lemma ldisc_input_view:
  assumes "pty_inv p"
  shows "pty_inv (ldisc_input ok data p)"
    "view (ldisc_input ok data p) =
       fold (\<lambda>i v. term_char (c_lflag (ldisc p)) (ok i) (data ! i) v) [0..<length data] (view p)"
    "c_lflag (ldisc (ldisc_input ok data p)) = c_lflag (ldisc p)"
  using ldisc_fold_view [OF assms, of ok data "[0..<length data]"] by (simp_all add: ldisc_input_def Let_def)

text \<open>Typing ordinary characters extends the current line.\<close>

lemma type_chars:
  assumes "\<forall>x \<in> set xs. x \<noteq> 10 \<and> x \<noteq> 8" "length cur + length xs < LINE_MAX"
  shows "\<exists>out'. fold (\<lambda>i v. term_char f (ok i) ((xs @ ys) ! i) v) [0..<length xs] (cur, ls, out) = (cur @ xs, ls, out')"
  using assms
proof (induction xs arbitrary: ys rule: rev_induct)
  case Nil
  then show ?case by simp
next
  case (snoc x xs)
  obtain out' where "fold (\<lambda>i v. term_char f (ok i) ((xs @ [x] @ ys) ! i) v) [0..<length xs] (cur, ls, out) = (cur @ xs, ls, out')"
    using snoc.IH [of "[x] @ ys"] snoc.prems by auto
  then show ?case using snoc.prems by (simp add: term_char_def nth_append LINE_MAX_def)
qed

lemma type_line:
  assumes "\<forall>x \<in> set xs. x \<noteq> 10 \<and> x \<noteq> 8" "length xs < LINE_MAX" "ok (length xs)" "length ls < LINE_QUEUE_SIZE - 1"
  shows "\<exists>out'. fold (\<lambda>i v. term_char f (ok i) ((xs @ [10]) ! i) v) [0..<length (xs @ [10])] ([], ls, out) =
    ([], ls @ [xs @ [0]], out')"
proof -
  obtain out' where "fold (\<lambda>i v. term_char f (ok i) ((xs @ [10]) ! i) v) [0..<length xs] ([], ls, out) = (xs, ls, out')"
    using type_chars [OF assms(1), of "[]" f ok "[10]" ls out] assms(2) by auto
  then show ?thesis using assms(3,4) by (simp add: term_char_def push_cap_def)
qed

text \<open>A slave read hands out the first finished line, or the part of it that fits.\<close>

lemma slave_read_line:
  assumes inv: "pty_inv p" and ls: "lines (ldisc p) = (xs @ 0 # junk) # ls" and xs: "0 \<notin> set xs"
  shows "\<exists>p'. pty_inv p' \<and>
    (if len \<le> length xs
     then pty_slave_read t len p = (Some (take len xs), p') \<and> (\<exists>junk'. lines (ldisc p') = (drop len xs @ 0 # junk') # ls)
     else pty_slave_read t len p = (Some (xs @ [0]), p') \<and> lines (ldisc p') = ls)"
proof -
  let ?ld = "ldisc p"
  let ?l = "completed_lines ?ld ! completed_tail ?ld"
  have I: "ld_inv ?ld" "s2m_inv p" using inv by (simp_all add: pty_inv_def)
  have ne: "\<not> line_empty ?ld" using lq.empty_iff [OF I(1)] ls by simp
  have l: "?l = xs @ 0 # junk" "lines (snd (line_get ?ld)) = ls"
    using lq.pop_contents [OF I(1) ne] ls by (simp_all add: line_get_def)
  have tw: "takeWhile (\<lambda>x. x \<noteq> 0) ?l = xs" unfolding l(1) using xs by (subst takeWhile_append2) auto
  show ?thesis
  proof (cases "len \<le> length xs")
    case True
    let ?l' = "take (Suc (length xs) - len) (drop len ?l) @ drop (Suc (length xs) - len) ?l"
    let ?ld' = "?ld\<lparr>completed_lines := (completed_lines ?ld)[completed_tail ?ld := ?l']\<rparr>"
    have b: "completed_head ?ld < LINE_QUEUE_SIZE" "completed_tail ?ld < LINE_QUEUE_SIZE"
        "length (completed_lines ?ld) = LINE_QUEUE_SIZE" "completed_head ?ld \<noteq> completed_tail ?ld"
      using I(1) ne by (simp_all add: ld_inv_def line_empty_def)
    have I': "ld_inv ?ld'" using I(1) by (simp add: ld_inv_def)
    have ne': "\<not> line_empty ?ld'" using ne by (simp add: line_empty_def)
    have "?l' = drop len xs @ 0 # drop (Suc (length xs) - len) ?l"
      using True by (simp add: l(1) Suc_diff_le)
    moreover have "lines ?ld' = ?l' # lines (snd (line_get ?ld))"
    proof -
      have "ring_list LINE_QUEUE_SIZE ((completed_lines ?ld)[completed_tail ?ld := ?l']) (completed_head ?ld)
            ((completed_tail ?ld + 1) mod LINE_QUEUE_SIZE) =
          ring_list LINE_QUEUE_SIZE (completed_lines ?ld) (completed_head ?ld) ((completed_tail ?ld + 1) mod LINE_QUEUE_SIZE)"
        by (rule ring_rest_update [OF b(1,2,4)])
      then show ?thesis
        using lq.pop_contents [OF I' ne'] b(2,3) by (simp add: line_get_def lines_def)
    qed
    moreover have "pty_slave_read t len p = (Some (take len xs), p\<lparr>ldisc := ?ld'\<rparr>)"
      using ne True tw by (simp add: pty_slave_read_def Let_def) (simp add: l(1))
    ultimately show ?thesis using True I' I(2) l(2) by (auto simp: pty_inv_def intro!: exI [of _ "p\<lparr>ldisc := ?ld'\<rparr>"])
  next
    case False
    then have "pty_slave_read t len p = (Some (xs @ [0]), p\<lparr>ldisc := snd (line_get ?ld)\<rparr>)"
      using ne tw by (simp add: pty_slave_read_def Let_def) (simp add: l(1))
    then show ?thesis using False lq.pop_inv [OF I(1) ne] I(2) l(2) by (auto simp: pty_inv_def)
  qed
qed

section \<open>Properties\<close>

text \<open>C11: the line discipline does on its fixed buffers what the edited-line specification
  \<open>term_char\<close> says, character by character: newline finishes the current line, backspace removes
  the last character, other characters are appended while the line has room, full queues drop new
  items, and the echo goes to the output; all array indices stay in range.\<close>

theorem ldisc_input_refines:
  assumes "pty_inv p"
  shows "pty_inv (ldisc_input ok data p) \<and>
    view (ldisc_input ok data p) =
      fold (\<lambda>i v. term_char (c_lflag (ldisc p)) (ok i) (data ! i) v) [0..<length data] (view p)"
  using ldisc_input_view [OF assms] by blast

definition fresh_pty :: pty_pair where
  "fresh_pty = snd (pty_master_open 0 pty_init) ! 0"

lemma fresh_pty_inv: "pty_inv fresh_pty" "view fresh_pty = ([], [], [])"
  by (simp_all add: fresh_pty_def pty_master_open_def pty_init_def PTY_COUNT_def pty_inv_def s2m_inv_def
      ld_inv_def ldisc_init_def view_def current_line_def lines_def pending_out_def ring_list_def ring_count_def
      LINE_MAX_def)

theorem ldisc_input_refines_witness:
  "view (ldisc_input (\<lambda>_. True) [97, 98, 8] fresh_pty) = ([97], [], [97, 98, 8])"
  using ldisc_input_refines [OF fresh_pty_inv(1), of "\<lambda>_. True" "[97, 98, 8]"]
  by (simp add: fresh_pty_inv(2) upt_rec term_char_def push_cap_def ECHO_set_def LINE_MAX_def PTY_BUFSIZE_def)
     (simp add: fresh_pty_def pty_master_open_def pty_init_def PTY_COUNT_def ldisc_init_def)

text \<open>C26: end to end, a line of ordinary characters typed at the master and finished with a newline
  is what the next slave read returns, with its terminating NUL, when its buffer is large enough; a
  smaller buffer gets the first part and the rest of the line stays for the next read.\<close>

theorem pty_line_delivered:
  assumes "pty_inv p" "current_line (ldisc p) = []" "lines (ldisc p) = []"
    and "\<forall>x \<in> set xs. x \<noteq> 0 \<and> x \<noteq> 8 \<and> x \<noteq> 10" "length xs < LINE_MAX" "ok (length xs)"
  shows "\<exists>p'. if len \<le> length xs
     then pty_slave_read t len (ldisc_input ok (xs @ [10]) p) = (Some (take len xs), p') \<and>
       (\<exists>junk. lines (ldisc p') = [drop len xs @ 0 # junk])
     else pty_slave_read t len (ldisc_input ok (xs @ [10]) p) = (Some (xs @ [0]), p') \<and> lines (ldisc p') = []"
proof -
  let ?q = "ldisc_input ok (xs @ [10]) p"
  have v: "view p = ([], [], pending_out p)" using assms(2,3) by (simp add: view_def)
  have "\<exists>out'. view ?q = ([], [xs @ [0]], out')"
    using type_line [of xs ok "[]" "c_lflag (ldisc p)" "pending_out p"] assms(4-6)
      ldisc_input_view(2) [OF assms(1), of ok "xs @ [10]"] v
    by (auto simp: LINE_QUEUE_SIZE_def)
  then have q: "pty_inv ?q" "lines (ldisc ?q) = [xs @ 0 # []]"
    using ldisc_input_view(1) [OF assms(1)] by (auto simp: view_def)
  have "0 \<notin> set xs" using assms(4) by auto
  from slave_read_line [OF q this, of len t] show ?thesis by (auto split: if_splits)
qed

theorem pty_line_delivered_witness:
  "\<exists>p'. pty_slave_read 5 100 (ldisc_input (\<lambda>_. True) ([104, 105] @ [10]) fresh_pty) = (Some [104, 105, 0], p')"
  using pty_line_delivered [OF fresh_pty_inv(1), of "[104, 105]" "\<lambda>_. True" 100 5] fresh_pty_inv(2)
  by (auto simp: view_def LINE_MAX_def)

text \<open>C27: characters written by the slave reach the master in order: what the master reads is the
  front of the output queue, and a slave write appends as many characters as fit.\<close>

theorem pty_output_fifo:
  assumes "pty_inv p"
  shows "\<exists>p' n done q. pty_slave_write t data p = (n, done, p') \<and>
    n = min (length data) (PTY_BUFSIZE - 1 - length (pending_out p)) \<and> (done \<longleftrightarrow> n = length data) \<and>
    pending_out p' = pending_out p @ take n data \<and>
    pty_master_read len p' = (take len (pending_out p @ take n data), q) \<and>
    pending_out q = drop len (pending_out p @ take n data)"
proof -
  let ?k = "PTY_BUFSIZE - 1 - length (pending_out p)"
  have I: "s2m_inv p" using assms by (simp add: pty_inv_def)
  obtain r where r: "fill s2m_full s2m_put data p = (min (length data) ?k, r)" "s2m_inv r"
      "pending_out r = pending_out p @ take ?k data"
    using oq.fill_correct [OF I] by blast
  define p' where "p' = (if min (length data) ?k < length data then r\<lparr>wq_s_w := wq_s_w r @ [t]\<rparr> else r)"
  have p': "s2m_inv p'" "pending_out p' = pending_out p @ take (min (length data) ?k) data"
    using r by (auto simp: p'_def s2m_inv_def pending_out_def min_def)
  obtain q where q: "drain s2m_empty s2m_get len p' = (take len (pending_out p'), q)"
      "pending_out q = drop len (pending_out p')"
    using oq.drain_correct [OF p'(1)] by blast
  let ?q = "if take len (pending_out p') \<noteq> [] then q\<lparr>wq_s_w := []\<rparr> else q"
  have "pty_slave_write t data p = (min (length data) ?k, min (length data) ?k = length data, p')"
    using r(1) by (auto simp: pty_slave_write_def p'_def)
  moreover have "pty_master_read len p' = (take len (pending_out p'), ?q)"
    using q(1) by (simp add: pty_master_read_def)
  moreover have "pending_out ?q = pending_out q" by (simp add: pending_out_def)
  ultimately show ?thesis using p'(2) q(2) by auto
qed

theorem pty_output_fifo_witness:
  "\<exists>p' q. pty_slave_write 0 [104, 105] fresh_pty = (2, True, p') \<and> pty_master_read 10 p' = ([104, 105], q)"
  using pty_output_fifo [OF fresh_pty_inv(1), of 0 "[104, 105]" 10] fresh_pty_inv(2)
  by (auto simp: view_def PTY_BUFSIZE_def)

end
