(* ===== verification/Cmos.thy ===== *)
theory Cmos
  imports Prelude
begin

text \<open>
  The real-time clock (\<open>src/machine/cmos.c\<close>): reading the registers until two readings agree,
  decoding them, and the conversion to seconds since 1970.  The hardware is a parameter: \<open>rd k\<close> is
  what the \<open>k\<close>-th reading of the seven time registers returns, and \<open>registerB\<close> the format register.
\<close>

unbundle bit_operations_syntax

record rtc_regs =
  r_second :: byte
  r_minute :: byte
  r_hour :: byte
  r_day :: byte
  r_month :: byte
  r_year :: byte
  r_weekday :: byte

record rtc_time =
  second :: nat
  minute :: nat
  hour :: nat
  day :: nat
  month :: nat
  year :: nat
  weekday :: nat

definition bcd_to_binary :: "byte \<Rightarrow> byte" where
  "bcd_to_binary bcd = (bcd AND 0x0F) + (drop_bit 4 bcd * 10)"

text \<open>The \<open>do ... while\<close> loop: read again until nothing but the weekday differs.\<close>

definition same_reading :: "rtc_regs \<Rightarrow> rtc_regs \<Rightarrow> bool" where
  "same_reading a b \<longleftrightarrow> r_second a = r_second b \<and> r_minute a = r_minute b \<and> r_hour a = r_hour b \<and>
     r_day a = r_day b \<and> r_month a = r_month b \<and> r_year a = r_year b"

partial_function (option) read_until_stable :: "(nat \<Rightarrow> rtc_regs) \<Rightarrow> nat \<Rightarrow> rtc_regs \<Rightarrow> rtc_regs option" where
  "read_until_stable rd k lst =
     (if same_reading lst (rd k) then Some (rd k) else read_until_stable rd (k + 1) (rd k))"

definition decode_hour :: "byte \<Rightarrow> byte \<Rightarrow> byte" where
  "decode_hour registerB h =
     (let h = (if registerB AND 0x04 = 0
               then ((h AND 0x0F) + (drop_bit 4 (h AND 0x70) * 10)) OR (h AND 0x80) else h)
      in if registerB AND 0x02 = 0 \<and> h AND 0x80 \<noteq> 0 then word_of_nat ((unat (h AND 0x7F) + 12) mod 24)
         else h AND 0x7F)"

text \<open>\<open>year\<close> is an 8-bit variable, so \<open>year += 2000\<close> is taken modulo 256.\<close>

definition decode_rtc :: "byte \<Rightarrow> rtc_regs \<Rightarrow> rtc_time" where
  "decode_rtc registerB r =
     (let f = (if registerB AND 0x04 = 0 then bcd_to_binary else id);
          y = u8 (unat (f (r_year r)) + 2000)
      in \<lparr>second = unat (f (r_second r)), minute = unat (f (r_minute r)), hour = unat (decode_hour registerB (r_hour r)),
          day = unat (f (r_day r)), month = unat (f (r_month r)), year = y, weekday = unat (f (r_weekday r))\<rparr>)"

definition cmos_read_rtc :: "byte \<Rightarrow> (nat \<Rightarrow> rtc_regs) \<Rightarrow> rtc_time option" where
  "cmos_read_rtc registerB rd = map_option (decode_rtc registerB) (read_until_stable rd 1 (rd 0))"

definition is_leap_year :: "nat \<Rightarrow> bool" where
  "is_leap_year y \<longleftrightarrow> y mod 4 = 0 \<and> (y mod 100 \<noteq> 0 \<or> y mod 400 = 0)"

definition month_days :: "nat list" where
  "month_days = [31, 28, 31, 30, 31, 30, 31, 31, 30, 31, 30, 31]"

text \<open>All arithmetic is modulo \<open>2 ^ 64\<close>; \<open>tm->day - 1\<close> is computed as an int, so day 0 counts back.
  A month beyond 13 would read past the table (\<open>None\<close>).\<close>

definition rtc_time_to_timestamp :: "rtc_time \<Rightarrow> int option" where
  "rtc_time_to_timestamp tm =
     (if month tm > 13 then None
      else
        let days = fold (\<lambda>y d. d + (if is_leap_year y then 366 else 365)) [1970..<year tm] 0;
            days = fold (\<lambda>m d. let d = d + int (month_days ! (m - 1))
                               in if m = 2 \<and> is_leap_year (year tm) then d + 1 else d) [1..<month tm] days;
            days = days + int (day tm) - 1;
            seconds = days * 86400 + int (hour tm) * 3600 + int (minute tm) * 60 + int (second tm)
        in Some (seconds mod 2 ^ 64))"

definition real_time_init :: "byte \<Rightarrow> (nat \<Rightarrow> rtc_regs) \<Rightarrow> int option" where
  "real_time_init registerB rd = do { tm \<leftarrow> cmos_read_rtc registerB rd; rtc_time_to_timestamp tm }"

section \<open>Calendar arithmetic\<close>

text \<open>Days from 1970-01-01 to the first of January of a year, without a loop.\<close>

definition days_to_year :: "nat \<Rightarrow> int" where
  "days_to_year y = 365 * (int y - 1970) + (int y - 1) div 4 - (int y - 1) div 100 + (int y - 1) div 400 - 477"

lemma div_pred:
  fixes n k :: int
  assumes "k > 0"
  shows "n div k - (n - 1) div k = (if n mod k = 0 then 1 else 0)"
proof (cases "n mod k = 0")
  case True
  have "n - 1 = k * (n div k - 1) + (k - 1)" using True mult_div_mod_eq [of k n] by (simp add: right_diff_distrib)
  then have "(n - 1) div k = n div k - 1" using assms by (intro int_div_pos_eq [where r = "k - 1"]) auto
  then show ?thesis using True by simp
next
  case False
  have "n - 1 = k * (n div k) + (n mod k - 1)" using mult_div_mod_eq [of k n] by simp
  moreover have "0 < n mod k" using False assms pos_mod_sign [of k n] by linarith
  moreover have "n mod k - 1 < k" using pos_mod_bound [of k n] assms by linarith
  ultimately have "(n - 1) div k = n div k" by (intro int_div_pos_eq [where r = "n mod k - 1"]) auto
  then show ?thesis using False by simp
qed

lemma div_pred_nat: "k > 0 \<Longrightarrow> int y div int k - (int y - 1) div int k = (if y mod k = 0 then 1 else 0)"
  using div_pred [of "int k" "int y"] by (simp flip: of_nat_mod)

lemma days_to_year_Suc:
  "days_to_year (Suc y) = days_to_year y + (if is_leap_year y then 366 else 365)"
proof -
  have "days_to_year (Suc y) - days_to_year y = 365 + (int y div 4 - (int y - 1) div 4) -
      (int y div 100 - (int y - 1) div 100) + (int y div 400 - (int y - 1) div 400)"
    by (simp add: days_to_year_def)
  also have "\<dots> = 365 + (if y mod 4 = 0 then 1 else 0) - (if y mod 100 = 0 then 1 else 0) + (if y mod 400 = 0 then 1 else 0)"
    using div_pred_nat [of 4 y] div_pred_nat [of 100 y] div_pred_nat [of 400 y] by (simp only: of_nat_numeral zero_less_numeral)
  also have "y mod 400 = 0 \<Longrightarrow> y mod 100 = 0" "y mod 100 = 0 \<Longrightarrow> y mod 4 = 0"
    using dvd_trans [of 100 400 y] dvd_trans [of 4 100 y] by (simp_all add: mod_eq_0_iff_dvd)
  then have "365 + (if y mod 4 = 0 then 1 else 0) - (if y mod 100 = 0 then 1 else 0) + (if y mod 400 = 0 then 1 else 0) =
      (if is_leap_year y then 366 else 365 :: int)"
    unfolding is_leap_year_def by (simp split: if_splits)
  finally show ?thesis by linarith
qed

lemma year_loop:
  "1970 \<le> y \<Longrightarrow> fold (\<lambda>y d. d + (if is_leap_year y then 366 else 365)) [1970..<y] 0 = days_to_year y"
proof (induction y rule: nat_induct_at_least)
  case base
  then show ?case by (simp add: days_to_year_def)
next
  case (Suc y)
  then show ?case by (simp add: days_to_year_Suc)
qed

definition days_before_month :: "nat \<Rightarrow> nat \<Rightarrow> int" where
  "days_before_month y m = int (sum_list (take (m - 1) month_days)) + (if m > 2 \<and> is_leap_year y then 1 else 0)"

lemma month_loop:
  "1 \<le> m \<Longrightarrow> m \<le> 13 \<Longrightarrow>
   fold (\<lambda>m d. let d = d + int (month_days ! (m - 1)) in if m = 2 \<and> is_leap_year y then d + 1 else d) [1..<m] x =
     x + days_before_month y m"
proof (induction m rule: nat_induct_at_least)
  case base
  then show ?case by (simp add: days_before_month_def)
next
  case (Suc m)
  have "m < Suc (length month_days)" using Suc.prems by (simp add: month_days_def)
  then have "take (Suc m - 1) month_days = take (m - 1) month_days @ [month_days ! (m - 1)]"
    using Suc.hyps by (cases m) (simp_all add: take_Suc_conv_app_nth)
  then show ?case using Suc by (auto simp: days_before_month_def Let_def)
qed

lemma days_before_month_bound: "m \<le> 12 \<Longrightarrow> 0 \<le> days_before_month y m \<and> days_before_month y m \<le> 335"
proof -
  assume "m \<le> 12"
  then have "m \<in> set [0..<13]" by simp
  then show ?thesis by (auto simp: upt_rec days_before_month_def month_days_def)
qed

lemma days_to_year_bound: "1970 \<le> y \<Longrightarrow> 0 \<le> days_to_year y \<and> days_to_year y \<le> 366 * (int y - 1970)"
proof (induction y rule: nat_induct_at_least)
  case base
  then show ?case by (simp add: days_to_year_def)
next
  case (Suc y)
  then show ?case by (simp add: days_to_year_Suc)
qed

lemma timestamp_days:
  assumes "1 \<le> month tm" "month tm \<le> 12"
  shows "rtc_time_to_timestamp tm = Some ((((if 1970 \<le> year tm then days_to_year (year tm) else 0) +
      days_before_month (year tm) (month tm) + int (day tm) - 1) * 86400 +
      int (hour tm) * 3600 + int (minute tm) * 60 + int (second tm)) mod 2 ^ 64)"
proof -
  have y: "fold (\<lambda>y d. d + (if is_leap_year y then 366 else 365)) [1970..<year tm] (0 :: int) =
      (if 1970 \<le> year tm then days_to_year (year tm) else 0)"
    using year_loop [of "year tm"] by simp
  show ?thesis
    using assms month_loop [OF assms(1), of "year tm"]
    by (simp add: rtc_time_to_timestamp_def y Let_def)
qed

section \<open>The hour register\<close>

text \<open>What the hour register holds, by the format bits of \<open>registerB\<close>: bit 2 clear means BCD; in the 12-hour
  format (bit 1 clear) bit 7 marks the afternoon.\<close>

definition reg_num :: "byte \<Rightarrow> nat \<Rightarrow> byte" where
  "reg_num registerB n = (if registerB AND 0x04 = 0 then word_of_nat (16 * (n div 10) + n mod 10) else word_of_nat n)"

definition reg_hour12 :: "byte \<Rightarrow> nat \<Rightarrow> bool \<Rightarrow> byte" where
  "reg_hour12 registerB h pm = (if pm then reg_num registerB h OR 0x80 else reg_num registerB h)"

text \<open>The hour of the day that the clock face shows: 12 am is hour 0, 12 pm is hour 12.\<close>

definition hour_of_day :: "nat \<Rightarrow> bool \<Rightarrow> nat" where
  "hour_of_day h pm = h mod 12 + (if pm then 12 else 0)"

lemma decode_hour12:
  assumes "registerB AND 0x02 = 0" "1 \<le> h" "h \<le> 12"
  shows "unat (decode_hour registerB (reg_hour12 registerB h pm)) =
    (if h = 12 then (hour_of_day h pm + 12) mod 24 else hour_of_day h pm)"
proof -
  have "h \<in> set [1..<13]" using assms by simp
  then show ?thesis using assms(1)
    by (cases "registerB AND 0x04 = 0"; cases pm)
      (auto simp: upt_rec decode_hour_def reg_hour12_def reg_num_def hour_of_day_def)
qed

lemma decode_hour24:
  assumes "registerB AND 0x02 \<noteq> 0" "h < 24"
  shows "unat (decode_hour registerB (reg_num registerB h)) = h"
proof -
  have "h \<in> set [0..<24]" using assms by simp
  then show ?thesis using assms(1)
    by (cases "registerB AND 0x04 = 0") (auto simp: upt_rec decode_hour_def reg_num_def)
qed

section \<open>Properties\<close>

text \<open>C29: for a date from 1970 on, the timestamp is the number of seconds since 1970-01-01: the year
  loop gives the closed form of the Gregorian day count, the month loop the days before the month.\<close>

theorem timestamp_correct:
  assumes "1970 \<le> year tm" "year tm < 65536" "1 \<le> month tm" "month tm \<le> 12" "1 \<le> day tm" "day tm \<le> 31"
    and "hour tm < 24" "minute tm < 60" "second tm < 60"
  shows "rtc_time_to_timestamp tm = Some ((days_to_year (year tm) + days_before_month (year tm) (month tm) +
      int (day tm) - 1) * 86400 + int (hour tm) * 3600 + int (minute tm) * 60 + int (second tm))"
proof -
  let ?s = "(days_to_year (year tm) + days_before_month (year tm) (month tm) +
      int (day tm) - 1) * 86400 + int (hour tm) * 3600 + int (minute tm) * 60 + int (second tm)"
  have b: "0 \<le> days_to_year (year tm)" "days_to_year (year tm) \<le> 366 * (int (year tm) - 1970)"
    "0 \<le> days_before_month (year tm) (month tm)" "days_before_month (year tm) (month tm) \<le> 335"
    using days_to_year_bound [OF assms(1)] days_before_month_bound [OF assms(4)] by auto
  have i: "int (year tm) < 65536" "1 \<le> int (day tm)" "int (day tm) \<le> 31" "int (hour tm) < 24" "int (minute tm) < 60"
      "int (second tm) < 60"
    using assms by simp_all
  have "0 \<le> ?s" using b(1,3) i by simp
  moreover have "?s < 2 ^ 64" using b i by simp
  ultimately show ?thesis using timestamp_days [OF assms(3,4)] assms(1) by simp
qed

theorem timestamp_correct_witness:
  "rtc_time_to_timestamp \<lparr>second = 40, minute = 46, hour = 1, day = 9, month = 9, year = 2001, weekday = 0\<rparr> = Some 1000000000"
  using timestamp_correct [of "\<lparr>second = 40, minute = 46, hour = 1, day = 9, month = 9, year = 2001, weekday = 0\<rparr>"]
  by (simp add: days_to_year_def days_before_month_def month_days_def is_leap_year_def)

text \<open>C30: the year read from the clock is kept in 8 bits when 2000 is added, so the year handed to the
  conversion is always below 256 and the boot-time clock never counts a single year: whatever the
  hardware reports, the resulting time lies in the first year after 1970-01-01.\<close>

theorem boot_time_loses_year:
  assumes "cmos_read_rtc registerB rd = Some tm" "1 \<le> month tm" "month tm \<le> 12" "1 \<le> day tm" "day tm \<le> 31"
    and "hour tm < 24" "minute tm < 60" "second tm < 60"
  shows "\<exists>t. real_time_init registerB rd = Some t \<and> 0 \<le> t \<and> t < 366 * 86400"
proof -
  have y: "year tm < 256"
    using assms(1) by (auto simp: cmos_read_rtc_def decode_rtc_def Let_def u8_def)
  let ?s = "(days_before_month (year tm) (month tm) + int (day tm) - 1) * 86400 +
    int (hour tm) * 3600 + int (minute tm) * 60 + int (second tm)"
  have b: "0 \<le> days_before_month (year tm) (month tm)" "days_before_month (year tm) (month tm) \<le> 335"
    using days_before_month_bound [OF assms(3)] by auto
  have i: "1 \<le> int (day tm)" "int (day tm) \<le> 31" "int (hour tm) < 24" "int (minute tm) < 60" "int (second tm) < 60"
    using assms by simp_all
  have "0 \<le> ?s" "?s < 366 * 86400" using b i by simp_all
  moreover have "real_time_init registerB rd = Some (?s mod 2 ^ 64)"
    using timestamp_days [OF assms(2,3)] y assms(1) by (simp add: real_time_init_def)
  ultimately show ?thesis by simp
qed

theorem boot_time_loses_year_witness:
  "\<exists>t. real_time_init 6 (\<lambda>_. \<lparr>r_second = 0, r_minute = 0, r_hour = 0, r_day = 1, r_month = 1, r_year = 26, r_weekday = 4\<rparr>) = Some t
     \<and> t < 366 * 86400"
proof -
  let ?rd = "\<lambda>_ :: nat. \<lparr>r_second = 0, r_minute = 0, r_hour = 0, r_day = 1, r_month = 1, r_year = 26, r_weekday = 4\<rparr>"
  have "cmos_read_rtc 6 ?rd = Some \<lparr>second = 0, minute = 0, hour = 0, day = 1, month = 1, year = 234, weekday = 4\<rparr>"
    by (simp add: cmos_read_rtc_def read_until_stable.simps same_reading_def decode_rtc_def decode_hour_def u8_def)
  from boot_time_loses_year [OF this] show ?thesis by auto
qed

text \<open>C31: decoding the hour register.  In the 24-hour format, BCD or binary, every hour is decoded to itself.
  In the 12-hour format, BCD or binary, the hours 1 to 11 of the morning and of the afternoon are decoded to the
  hour of the day, and the hour 12 is decoded to the wrong half of the day: noon to 0, midnight to 12.\<close>

theorem decode_hour_noon_swapped:
  assumes "if registerB AND 0x02 \<noteq> 0 then h < 24 else 1 \<le> h \<and> h \<le> 12"
  shows "if registerB AND 0x02 \<noteq> 0 then unat (decode_hour registerB (reg_num registerB h)) = h
    else unat (decode_hour registerB (reg_hour12 registerB h pm)) =
      (if h = 12 then (hour_of_day h pm + 12) mod 24 else hour_of_day h pm)"
  using assms decode_hour24 [of registerB h] decode_hour12 [of registerB h pm] by (cases "registerB AND 0x02 = 0") simp_all

theorem decode_hour_noon_swapped_witness:
  "unat (decode_hour 0 0x92) = 0 \<and> hour_of_day 12 True = 12 \<and> unat (decode_hour 0x04 0x8B) = 23"
  using decode_hour_noon_swapped [where registerB = 0 and h = 12 and pm = True]
    decode_hour_noon_swapped [where registerB = 4 and h = 11 and pm = True]
  by (simp add: reg_hour12_def reg_num_def hour_of_day_def)

end
