(* ===== verification/PageAlloc.thy ===== *)
theory PageAlloc
  imports Prelude
begin

text \<open>
  The physical page allocator (\<open>src/mm/mm.c\<close>).  The memory reference table \<open>mrt\<close> has one byte per
  page: 0 is free, 0xff is reserved, any other value is a reference count.  The usable memory is a
  list of areas, each with its number of free pages and the address of its first free page.
  \<open>None\<close> is a call of \<open>halt()\<close>, which never returns.  Addresses are numbers, \<open>a >> 12\<close> is
  \<open>a div 4096\<close>.
\<close>

section \<open>State\<close>

record pai =
  spa :: nat
  epa :: nat
  fpp :: nat
  nfpa :: nat

record pool =
  hpa :: nat
  tpp :: nat
  tfpp :: nat
  pais :: "pai list"
  mrt :: "nat \<Rightarrow> byte"

section \<open>Allocation\<close>

definition alloc_page_4k :: "pool \<Rightarrow> (nat \<times> pool) option" where
  "alloc_page_4k s =
     (case first_from (\<lambda>i. fpp (pais s ! i) \<noteq> 0) 0 (length (pais s)) of
        None \<Rightarrow> None
      | Some i \<Rightarrow>
          let p = pais s ! i; ret = nfpa p;
              m = (mrt s)(ret div 4096 := mrt s (ret div 4096) + 1);
              p = p\<lparr>fpp := fpp p - 1\<rparr>
          in if fpp p \<noteq> 0
             then (case first_from (\<lambda>j. m j = 0) (ret div 4096) (epa p div 4096) of
                     Some j \<Rightarrow> Some (ret, s\<lparr>mrt := m, pais := (pais s)[i := p\<lparr>nfpa := j * 4096\<rparr>]\<rparr>)
                   | None \<Rightarrow> None)
             else Some (ret, s\<lparr>mrt := m, pais := (pais s)[i := p]\<rparr>))"

text \<open>The search for \<open>n\<close> consecutive free pages: \<open>m\<close> pages of the current run, which starts at \<open>ret\<close>.\<close>

function run_scan :: "(nat \<Rightarrow> bool) \<Rightarrow> nat \<Rightarrow> nat \<Rightarrow> nat \<Rightarrow> nat \<Rightarrow> nat \<Rightarrow> nat option" where
  "run_scan F n j hi m ret =
     (if j < hi
      then if F j
           then let ret = (if m = 0 then j else ret) in
                if m + 1 = n then Some ret else run_scan F n (j + 1) hi (m + 1) ret
           else run_scan F n (j + 1) hi 0 ret
      else None)"
  by pat_completeness auto
termination by (relation "measure (\<lambda>(F, n, j, hi, m, ret). hi - j)") auto

declare run_scan.simps [simp del]

text \<open>One area, and the loop over the areas from index \<open>i\<close>.  The result 0 means none was found.\<close>

definition alloc_n_in :: "nat \<Rightarrow> nat \<Rightarrow> nat \<Rightarrow> pool \<Rightarrow> (nat \<times> pool) option" where
  "alloc_n_in n i r s =
     (let p = pais s ! i;
          m = fold (\<lambda>k m. m(r + k := 1)) [0..<n] (mrt s);
          p = p\<lparr>fpp := fpp p - n\<rparr>
      in if fpp p \<noteq> 0
         then (case first_from (\<lambda>k. m k = 0) (nfpa p div 4096) (epa p div 4096) of
                 Some k \<Rightarrow> Some (r * 4096, s\<lparr>mrt := m, pais := (pais s)[i := p\<lparr>nfpa := k * 4096\<rparr>]\<rparr>)
               | None \<Rightarrow> None)
         else Some (r * 4096, s\<lparr>mrt := m, pais := (pais s)[i := p]\<rparr>))"

function alloc_n_from :: "nat \<Rightarrow> nat \<Rightarrow> pool \<Rightarrow> (nat \<times> pool) option" where
  "alloc_n_from n i s =
     (if i < length (pais s)
      then let p = pais s ! i in
           if fpp p \<ge> n
           then (case run_scan (\<lambda>j. mrt s j = 0) n (nfpa p div 4096) (epa p div 4096) 0 0 of
                   Some r \<Rightarrow> alloc_n_in n i r s
                 | None \<Rightarrow> alloc_n_from n (i + 1) s)
           else alloc_n_from n (i + 1) s
      else Some (0, s))"
  by pat_completeness auto
termination by (relation "measure (\<lambda>(n, i, s). length (pais s) - i)") auto

declare alloc_n_from.simps [simp del]

definition alloc_n_pages_4k :: "nat \<Rightarrow> pool \<Rightarrow> (nat \<times> pool) option" where
  "alloc_n_pages_4k n s = (if n = 0 then Some (0, s) else alloc_n_from n 0 s)"

section \<open>References\<close>

definition decrease_reference_page_4k :: "nat \<Rightarrow> pool \<Rightarrow> (byte \<times> pool) option" where
  "decrease_reference_page_4k addr s =
     (if addr \<ge> hpa s then None
      else let index = addr div 4096 in
        if mrt s index = 0xff \<or> mrt s index = 0 then None
        else let m = (mrt s)(index := mrt s index - 1); s = s\<lparr>mrt := m\<rparr> in
          if m index = 0
          then (case first_from (\<lambda>i. addr \<ge> spa (pais s ! i) \<and> addr < epa (pais s ! i)) 0 (length (pais s)) of
                  Some i \<Rightarrow>
                    let p = pais s ! i;
                        p = (if fpp p \<noteq> 0 then p\<lparr>nfpa := if nfpa p < addr then nfpa p else addr\<rparr>
                             else p\<lparr>nfpa := addr\<rparr>);
                        p = p\<lparr>fpp := fpp p + 1\<rparr>
                    in Some (0, s\<lparr>pais := (pais s)[i := p]\<rparr>)
                | None \<Rightarrow> None)
          else Some (m index, s))"

definition add_reference_page_4k :: "nat \<Rightarrow> pool \<Rightarrow> (nat \<times> pool) option" where
  "add_reference_page_4k addr s =
     (let index = addr div 4096 in
      if mrt s index = 0xff \<or> mrt s index = 0 then None
      else if mrt s index = 0xfe then Some (1, s)
      else Some (0, s\<lparr>mrt := (mrt s)(index := mrt s index + 1)\<rparr>))"

text \<open>The offset \<open>i << 12\<close> is computed in 32 bits.\<close>

fun free_pages_from :: "nat \<Rightarrow> nat list \<Rightarrow> pool \<Rightarrow> pool option" where
  "free_pages_from addr [] s = Some s"
| "free_pages_from addr (i # is) s = do {
     (r, s) \<leftarrow> decrease_reference_page_4k (addr + u32 (i * 4096)) s;
     free_pages_from addr is s }"

definition free_n_pages_4k :: "nat \<Rightarrow> nat \<Rightarrow> pool \<Rightarrow> pool option" where
  "free_n_pages_4k n addr s =
     (if addr mod 4096 \<noteq> 0 then None else if n = 0 then Some s else free_pages_from addr [0..<n] s)"

section \<open>Boot\<close>

text \<open>An entry of the boot loader's memory map.\<close>

record mmap_entry =
  e_addr :: nat
  e_len :: nat
  e_type :: nat

definition MULTIBOOT_MEMORY_AVAILABLE :: nat where "MULTIBOOT_MEMORY_AVAILABLE = 1"
definition DEFAULT_PAI_NUMBER :: nat where "DEFAULT_PAI_NUMBER = 128"

text \<open>Collecting the areas; writing past the table of 128 areas is \<open>None\<close>.\<close>

fun collect_areas :: "mmap_entry list \<Rightarrow> pai list \<Rightarrow> nat \<Rightarrow> (pai list \<times> nat) option" where
  "collect_areas [] ps h = Some (ps, h)"
| "collect_areas (e # es) ps h =
     (if e_type e = MULTIBOOT_MEMORY_AVAILABLE
      then if length ps \<ge> DEFAULT_PAI_NUMBER then None
           else let s = u64 (e_addr e + 0xfff) div 4096 * 4096;
                    t = u64 (e_addr e + e_len e) div 4096 * 4096
                in if s < t
                   then collect_areas es (ps @ [\<lparr>spa = s, epa = t, fpp = (t - s) div 4096, nfpa = s\<rparr>]) (if h > t then h else t)
                   else collect_areas es ps h
      else collect_areas es ps h)"

definition get_total_memory :: "bool \<Rightarrow> mmap_entry list \<Rightarrow> (nat \<Rightarrow> byte) \<Rightarrow> pool option" where
  "get_total_memory has_map es m =
     (if \<not> has_map then None
      else do {
        (ps, h) \<leftarrow> collect_areas es [] 0x100000000;
        Some \<lparr>hpa = h, tpp = u64 (h + 0xfff) div 4096, tfpp = 0, pais = ps, mrt = m\<rparr> })"

text \<open>The \<open>memset\<close> calls on the reference table.  The kernel's \<open>memset\<close> takes its length in 32 bits; the lengths here
  are numbers of pages, below \<open>2 ^ 32\<close> on machines with less than 16 TiB of physical memory.\<close>

definition mrt_fill :: "nat \<Rightarrow> byte \<Rightarrow> nat \<Rightarrow> (nat \<Rightarrow> byte) \<Rightarrow> nat \<Rightarrow> byte" where
  "mrt_fill from x n m k = (if from \<le> k \<and> k < from + n then x else m k)"

text \<open>The loop of \<open>set_mrt_table\<close>.  An area that starts below the previous one would make the
  length of a \<open>memset\<close> negative, that is, enormous (\<open>None\<close>).\<close>

fun set_mrt_areas :: "nat \<Rightarrow> nat \<Rightarrow> pai list \<Rightarrow> (nat \<Rightarrow> byte) \<Rightarrow> nat \<Rightarrow> (pai list \<times> (nat \<Rightarrow> byte) \<times> nat) option" where
  "set_mrt_areas addr lst [] m t = Some ([], m, t)"
| "set_mrt_areas addr lst (p # ps) m t =
     (if epa p \<le> addr then
        do { (qs, m, t) \<leftarrow> set_mrt_areas addr lst ps m t; Some (p\<lparr>fpp := 0\<rparr> # qs, m, t) }
      else if spa p < addr then
        let p = p\<lparr>spa := addr, nfpa := addr, fpp := (epa p - addr) div 4096\<rparr>;
            m = mrt_fill (addr div 4096) 0 (fpp p) m
        in do { (qs, m, t) \<leftarrow> set_mrt_areas addr (epa p) ps m (t + fpp p); Some (p # qs, m, t) }
      else if spa p < lst then None
      else
        let m = mrt_fill (lst div 4096) 0xff ((spa p - lst) div 4096) m;
            m = mrt_fill (spa p div 4096) 0 (fpp p) m
        in do { (qs, m, t) \<leftarrow> set_mrt_areas addr (epa p) ps m (t + fpp p); Some (p # qs, m, t) })"

definition set_mrt_table :: "nat \<Rightarrow> pool \<Rightarrow> pool option" where
  "set_mrt_table mrt_start s =
     (let addr = u64 (mrt_start + tpp s + 0xfff) div 4096 * 4096;
          m = mrt_fill 0 0xff (addr div 4096) (mrt s)
      in do { (ps, m, t) \<leftarrow> set_mrt_areas addr addr (pais s) m (tfpp s);
              Some (s\<lparr>pais := ps, mrt := m, tfpp := t\<rparr>) })"

section \<open>The invariant\<close>

definition free_pages :: "(nat \<Rightarrow> byte) \<Rightarrow> pai \<Rightarrow> nat set" where
  "free_pages m p = {k. spa p div 4096 \<le> k \<and> k < epa p div 4096 \<and> m k = 0}"

definition pai_ok :: "(nat \<Rightarrow> byte) \<Rightarrow> pai \<Rightarrow> bool" where
  "pai_ok m p \<longleftrightarrow> 4096 dvd spa p \<and> 4096 dvd epa p \<and> fpp p = card (free_pages m p) \<and>
     (free_pages m p \<noteq> {} \<longrightarrow> nfpa p = 4096 * Min (free_pages m p))"

definition pai_pages :: "pai \<Rightarrow> nat set" where
  "pai_pages p = {spa p div 4096..<epa p div 4096}"

definition pool_inv :: "pool \<Rightarrow> bool" where
  "pool_inv s \<longleftrightarrow> (\<forall>p \<in> set (pais s). pai_ok (mrt s) p \<and> epa p \<le> hpa s) \<and>
     (\<forall>i j. i < j \<longrightarrow> j < length (pais s) \<longrightarrow> pai_pages (pais s ! i) \<inter> pai_pages (pais s ! j) = {})"

definition page_free :: "pool \<Rightarrow> nat \<Rightarrow> bool" where
  "page_free s k \<longleftrightarrow> mrt s k = 0 \<and> (\<exists>p \<in> set (pais s). k \<in> pai_pages p)"

lemma finite_free [simp]: "finite (free_pages m p)"
  by (rule finite_subset [of _ "{..<epa p div 4096}"]) (auto simp: free_pages_def)

lemma free_pages_iff: "k \<in> free_pages m p \<longleftrightarrow> k \<in> pai_pages p \<and> m k = 0"
  by (auto simp: free_pages_def pai_pages_def)

lemma free_pages_sel [simp]:
  "free_pages m (p\<lparr>fpp := x\<rparr>) = free_pages m p" "free_pages m (p\<lparr>nfpa := x\<rparr>) = free_pages m p"
  "pai_pages (p\<lparr>fpp := x\<rparr>) = pai_pages p" "pai_pages (p\<lparr>nfpa := x\<rparr>) = pai_pages p"
  by (simp_all add: free_pages_def pai_pages_def)

lemma free_pages_cong: "(\<And>k. k \<in> pai_pages p \<Longrightarrow> m' k = 0 \<longleftrightarrow> m k = 0) \<Longrightarrow> free_pages m' p = free_pages m p"
  by (auto simp: free_pages_iff)

lemma pai_ok_cong: "(\<And>k. k \<in> pai_pages p \<Longrightarrow> m' k = 0 \<longleftrightarrow> m k = 0) \<Longrightarrow> pai_ok m' p = pai_ok m p"
  using free_pages_cong [of p m' m] by (simp add: pai_ok_def)

lemma pool_inv_disjoint:
  "pool_inv s \<Longrightarrow> i < length (pais s) \<Longrightarrow> j < length (pais s) \<Longrightarrow> i \<noteq> j \<Longrightarrow>
     pai_pages (pais s ! i) \<inter> pai_pages (pais s ! j) = {}"
  unfolding pool_inv_def by (metis Int_commute nat_neq_iff)

text \<open>Changing pages of one area, with its counters adjusted, keeps the invariant.\<close>

lemma pool_inv_update:
  assumes inv: "pool_inv s" and i: "i < length (pais s)"
    and off: "\<And>k. k \<notin> pai_pages (pais s ! i) \<Longrightarrow> m k = mrt s k"
    and q: "pai_ok m q" "epa q = epa (pais s ! i)" "spa q = spa (pais s ! i)"
  shows "pool_inv (s\<lparr>mrt := m, pais := (pais s)[i := q]\<rparr>)"
proof -
  have pq: "pai_pages q = pai_pages (pais s ! i)" using q by (simp add: pai_pages_def)
  have ok: "pai_ok m (pais s ! j)" if "j < length (pais s)" "j \<noteq> i" for j
  proof -
    have "pai_ok (mrt s) (pais s ! j)" using inv that by (simp add: pool_inv_def)
    moreover have "\<And>k. k \<in> pai_pages (pais s ! j) \<Longrightarrow> m k = mrt s k"
      using pool_inv_disjoint [OF inv that(1) i that(2)] off by blast
    ultimately show ?thesis using pai_ok_cong [of "pais s ! j" m "mrt s"] by simp
  qed
  have "pai_ok m p \<and> epa p \<le> hpa s" if "p \<in> set ((pais s)[i := q])" for p
  proof -
    from that obtain j where j: "j < length (pais s)" "p = (pais s)[i := q] ! j" by (auto simp: in_set_conv_nth)
    have "epa (pais s ! j) \<le> hpa s" if "j < length (pais s)" for j using inv that by (simp add: pool_inv_def)
    then show ?thesis using ok [of j] j q i by (cases "j = i") auto
  qed
  moreover have "pai_pages ((pais s)[i := q] ! a) \<inter> pai_pages ((pais s)[i := q] ! b) = {}"
    if "a < b" "b < length (pais s)" for a b
  proof -
    have "pai_pages ((pais s)[i := q] ! c) = pai_pages (pais s ! c)" for c
      using pq i by (cases "c = i") auto
    then show ?thesis using pool_inv_disjoint [OF inv, of a b] that by simp
  qed
  ultimately show ?thesis by (simp add: pool_inv_def)
qed

section \<open>Single pages\<close>

lemma nfpa_least:
  assumes "pai_ok m p" "fpp p \<noteq> 0"
  shows "nfpa p div 4096 \<in> free_pages m p" "nfpa p mod 4096 = 0" "\<And>k. k \<in> free_pages m p \<Longrightarrow> nfpa p div 4096 \<le> k"
proof -
  have ne: "free_pages m p \<noteq> {}" using assms by (auto simp: pai_ok_def)
  then have n: "nfpa p = 4096 * Min (free_pages m p)" using assms by (simp add: pai_ok_def)
  then show "nfpa p div 4096 \<in> free_pages m p" "nfpa p mod 4096 = 0" using Min_in [OF finite_free ne] by simp_all
  show "\<And>k. k \<in> free_pages m p \<Longrightarrow> nfpa p div 4096 \<le> k" using n by simp
qed

text \<open>Searching upward from any page at or below the first free one finds the first free one.\<close>

lemma first_free:
  assumes "free_pages m p \<noteq> {}" "spa p div 4096 \<le> lo" "\<And>k. k \<in> free_pages m p \<Longrightarrow> lo \<le> k"
  shows "first_from (\<lambda>j. m j = 0) lo (epa p div 4096) = Some (Min (free_pages m p))"
proof (rule first_from_SomeI)
  have M: "Min (free_pages m p) \<in> free_pages m p" using assms(1) by simp
  then show "lo \<le> Min (free_pages m p)" "Min (free_pages m p) < epa p div 4096" "m (Min (free_pages m p)) = 0"
    using assms(3) by (auto simp: free_pages_def)
  fix k assume k: "lo \<le> k" "k < Min (free_pages m p)"
  show "m k \<noteq> 0"
  proof
    assume "m k = 0"
    then have "k \<in> free_pages m p" using k assms(2) M by (auto simp: free_pages_def)
    then have "Min (free_pages m p) \<le> k" by (rule Min_le [OF finite_free])
    then show False using k by simp
  qed
qed

lemma pai_okI:
  "4096 dvd spa p \<Longrightarrow> 4096 dvd epa p \<Longrightarrow> fpp p = card (free_pages m p) \<Longrightarrow>
     (free_pages m p \<noteq> {} \<Longrightarrow> nfpa p = Min (free_pages m p) * 4096) \<Longrightarrow> pai_ok m p"
  by (simp add: pai_ok_def)

lemma page_free_area:
  assumes "pool_inv s"
  shows "(\<exists>k. page_free s k) \<longleftrightarrow> (\<exists>i<length (pais s). fpp (pais s ! i) \<noteq> 0)"
proof -
  have "fpp p \<noteq> 0 \<longleftrightarrow> (\<exists>k \<in> pai_pages p. mrt s k = 0)" if "p \<in> set (pais s)" for p
  proof -
    have "fpp p = card (free_pages (mrt s) p)" using assms that by (simp add: pool_inv_def pai_ok_def)
    then show ?thesis by (auto simp: free_pages_iff)
  qed
  then show ?thesis unfolding page_free_def by (metis in_set_conv_nth)
qed

lemma alloc_page_halts:
  assumes "pool_inv s" "\<nexists>k. page_free s k"
  shows "alloc_page_4k s = None"
proof -
  have "first_from (\<lambda>i. fpp (pais s ! i) \<noteq> 0) 0 (length (pais s)) = None"
    using page_free_area [OF assms(1)] assms(2) by (simp add: first_from_None_iff)
  then show ?thesis by (simp only: alloc_page_4k_def option.case)
qed

lemma alloc_page_ok:
  assumes inv: "pool_inv s" and free: "\<exists>k. page_free s k"
  shows "\<exists>a s'. alloc_page_4k s = Some (a, s') \<and> pool_inv s' \<and> a mod 4096 = 0 \<and> page_free s (a div 4096) \<and>
    mrt s' = (mrt s)(a div 4096 := 1)"
proof -
  obtain i where i: "first_from (\<lambda>i. fpp (pais s ! i) \<noteq> 0) 0 (length (pais s)) = Some i"
    using page_free_area [OF inv] free first_from_ex [of 0 _ "length (pais s)" "\<lambda>i. fpp (pais s ! i) \<noteq> 0"] by blast
  define p where "p = pais s ! i"
  have il: "i < length (pais s)" and fp: "fpp p \<noteq> 0" using first_from_SomeD [OF i] by (auto simp: p_def)
  have pin: "p \<in> set (pais s)" using il by (simp add: p_def)
  have ok: "pai_ok (mrt s) p" using inv pin by (simp add: pool_inv_def)
  define r where "r = nfpa p div 4096"
  note least = nfpa_least [OF ok fp, folded r_def]
  define m where "m = (mrt s)(r := 1)"
  have m_eq: "(mrt s)(r := mrt s r + 1) = m" using least(1) by (simp add: m_def free_pages_iff)
  have fr: "free_pages m p = free_pages (mrt s) p - {r}" by (auto simp: free_pages_iff m_def split: if_splits)
  have card: "card (free_pages m p) = fpp p - 1" using fr ok least(1) by (simp add: pai_ok_def)
  have off: "\<And>k. k \<notin> pai_pages (pais s ! i) \<Longrightarrow> m k = mrt s k"
    using least(1) by (auto simp: m_def free_pages_iff p_def)
  have pf: "page_free s r" using least(1) pin by (auto simp: page_free_def free_pages_iff)
  define q where "q = (if fpp p - 1 \<noteq> 0 then p\<lparr>fpp := fpp p - 1, nfpa := Min (free_pages m p) * 4096\<rparr> else p\<lparr>fpp := fpp p - 1\<rparr>)"
  have qok: "pai_ok m q"
    using ok card by (auto simp: q_def pai_ok_def)
  have q_ends: "epa q = epa (pais s ! i)" "spa q = spa (pais s ! i)" by (simp_all add: q_def p_def)
  have "alloc_page_4k s = Some (nfpa p, s\<lparr>mrt := m, pais := (pais s)[i := q]\<rparr>)"
  proof (cases "fpp p - 1 \<noteq> 0")
    case True
    then have ne: "free_pages m p \<noteq> {}" using card by auto
    have "first_from (\<lambda>j. m j = 0) r (epa p div 4096) = Some (Min (free_pages m p))"
      by (rule first_free [OF ne]) (use least in \<open>auto simp: fr free_pages_iff pai_pages_def\<close>)
    then show ?thesis using True
      unfolding alloc_page_4k_def i by (simp add: Let_def m_eq q_def flip: p_def r_def)
  next
    case False
    then show ?thesis unfolding alloc_page_4k_def i by (simp add: Let_def m_eq q_def flip: p_def r_def)
  qed
  moreover have "pool_inv (s\<lparr>mrt := m, pais := (pais s)[i := q]\<rparr>)"
    by (rule pool_inv_update [OF inv il off qok q_ends])
  ultimately show ?thesis using least(2) pf by (auto simp: m_def r_def)
qed

section \<open>Runs of pages\<close>

text \<open>The state of the scan: the last \<open>m\<close> pages before \<open>j\<close> are free, and the page before them,
  if it belongs to the range, is not.\<close>

definition scan_inv :: "(nat \<Rightarrow> bool) \<Rightarrow> nat \<Rightarrow> nat \<Rightarrow> nat \<Rightarrow> nat \<Rightarrow> nat \<Rightarrow> bool" where
  "scan_inv F n lo j m ret \<longleftrightarrow> m < n \<and> lo + m \<le> j \<and> (m > 0 \<longrightarrow> ret + m = j) \<and>
     (\<forall>k. j - m \<le> k \<and> k < j \<longrightarrow> F k) \<and> (lo < j - m \<longrightarrow> \<not> F (j - m - 1))"

lemma scan_inv_start: "0 < n \<Longrightarrow> scan_inv F n lo lo 0 ret"
  by (auto simp: scan_inv_def)

lemma scan_inv_free:
  assumes "scan_inv F n lo j m ret" "F j" "m + 1 \<noteq> n"
  shows "scan_inv F n lo (j + 1) (m + 1) (if m = 0 then j else ret)"
  using assms by (auto simp: scan_inv_def less_Suc_eq)

lemma scan_inv_used:
  assumes "scan_inv F n lo j m ret" "\<not> F j"
  shows "scan_inv F n lo (j + 1) 0 ret"
  using assms by (auto simp: scan_inv_def)

lemma run_scan_sound:
  "run_scan F n j hi m ret = Some r \<Longrightarrow> scan_inv F n lo j m ret \<Longrightarrow>
     lo \<le> r \<and> r + n \<le> hi \<and> (\<forall>k. r \<le> k \<and> k < r + n \<longrightarrow> F k)"
proof (induction F n j hi m ret rule: run_scan.induct)
  case (1 F n j hi m ret)
  let ?ret = "if m = 0 then j else ret"
  have j: "j < hi" using "1.prems"(1) by (simp add: run_scan.simps [of F n j] split: if_splits)
  show ?case
  proof (cases "F j")
    case True
    show ?thesis
    proof (cases "m + 1 = n")
      case n: True
      then have r: "r = ?ret" using "1.prems"(1) True j by (simp add: run_scan.simps [of F n j])
      have "?ret + m = j" using "1.prems"(2) by (auto simp: scan_inv_def)
      moreover have "\<forall>k. j - m \<le> k \<and> k < j \<longrightarrow> F k" "lo + m \<le> j" using "1.prems"(2) by (auto simp: scan_inv_def)
      ultimately show ?thesis using r n j True by (auto simp: less_Suc_eq)
    next
      case n: False
      have "run_scan F n (j + 1) hi (m + 1) ?ret = Some r"
        using "1.prems"(1) True j n by (simp add: run_scan.simps [of F n j])
      from "1.IH"(1) [OF j True refl n this scan_inv_free [OF "1.prems"(2) True n]] show ?thesis .
    qed
  next
    case False
    then have "run_scan F n (j + 1) hi 0 ret = Some r"
      using "1.prems"(1) j by (simp add: run_scan.simps [of F n j])
    from "1.IH"(2) [OF j False this scan_inv_used [OF "1.prems"(2) False]] show ?thesis .
  qed
qed

lemma run_scan_complete:
  "run_scan F n j hi m ret = None \<Longrightarrow> scan_inv F n lo j m ret \<Longrightarrow>
     j - m \<le> a \<Longrightarrow> a + n \<le> hi \<Longrightarrow> \<exists>k. a \<le> k \<and> k < a + n \<and> \<not> F k"
proof (induction F n j hi m ret rule: run_scan.induct)
  case (1 F n j hi m ret)
  let ?ret = "if m = 0 then j else ret"
  show ?case
  proof (cases "j < hi")
    case False
    then show ?thesis using "1.prems" by (auto simp: scan_inv_def)
  next
    case j: True
    show ?thesis
    proof (cases "F j")
      case True
      have n: "m + 1 \<noteq> n" using "1.prems"(1) True j by (auto simp: run_scan.simps [of F n j])
      have "run_scan F n (j + 1) hi (m + 1) ?ret = None"
        using "1.prems"(1) True j n by (simp add: run_scan.simps [of F n j])
      from "1.IH"(1) [OF j True refl n this scan_inv_free [OF "1.prems"(2) True n]] "1.prems"(3,4) show ?thesis by auto
    next
      case False
      have *: "run_scan F n (j + 1) hi 0 ret = None"
        using "1.prems"(1) False j by (simp add: run_scan.simps [of F n j])
      show ?thesis
      proof (cases "a \<le> j")
        case True
        have "j < a + n" using "1.prems"(2,3) by (auto simp: scan_inv_def)
        then show ?thesis using True False by blast
      next
        case a: False
        from "1.IH"(2) [OF j False * scan_inv_used [OF "1.prems"(2) False]] a "1.prems"(4) show ?thesis by auto
      qed
    qed
  qed
qed

lemma mark_pages: "fold (\<lambda>k m. m(r + k := x)) [0..<n] m = (\<lambda>k. if r \<le> k \<and> k < r + n then x else m k)"
  by (induction n) (auto simp: fun_eq_iff less_Suc_eq)

text \<open>The pages \<open>[r, r + n)\<close> of area \<open>i\<close> are free and consecutive.\<close>

definition free_run :: "pool \<Rightarrow> nat \<Rightarrow> nat \<Rightarrow> nat \<Rightarrow> bool" where
  "free_run s n i r \<longleftrightarrow> i < length (pais s) \<and> {r..<r + n} \<subseteq> free_pages (mrt s) (pais s ! i)"

lemma free_run_page_free: "free_run s n i r \<Longrightarrow> r \<le> k \<Longrightarrow> k < r + n \<Longrightarrow> page_free s k"
  by (force simp: free_run_def page_free_def free_pages_iff)

lemma alloc_n_in_ok:
  assumes inv: "pool_inv s" and run: "free_run s n i r" and n: "0 < n" and fp: "fpp (pais s ! i) \<ge> n"
  shows "\<exists>s'. alloc_n_in n i r s = Some (r * 4096, s') \<and> pool_inv s' \<and>
    mrt s' = (\<lambda>k. if r \<le> k \<and> k < r + n then 1 else mrt s k)"
proof -
  define p where "p = pais s ! i"
  have il: "i < length (pais s)" and sub: "{r..<r + n} \<subseteq> free_pages (mrt s) p"
    using run by (auto simp: free_run_def p_def)
  have ok: "pai_ok (mrt s) p" using inv il by (simp add: pool_inv_def p_def)
  define m where "m = (\<lambda>k. if r \<le> k \<and> k < r + n then 1 else mrt s k)"
  have fr: "free_pages m p = free_pages (mrt s) p - {r..<r + n}" by (auto simp: free_pages_iff m_def split: if_splits)
  have card: "card (free_pages m p) = fpp p - n"
    using card_Diff_subset [OF _ sub] ok by (simp add: fr pai_ok_def)
  have off: "\<And>k. k \<notin> pai_pages (pais s ! i) \<Longrightarrow> m k = mrt s k"
    using sub by (auto simp: m_def free_pages_iff p_def subset_iff)
  have fp0: "fpp p \<noteq> 0" using fp n by (simp add: p_def)
  note least = nfpa_least [OF ok fp0]
  define q where "q = (if fpp p - n \<noteq> 0 then p\<lparr>fpp := fpp p - n, nfpa := Min (free_pages m p) * 4096\<rparr> else p\<lparr>fpp := fpp p - n\<rparr>)"
  have qok: "pai_ok m q" using ok card by (auto simp: q_def pai_ok_def)
  have q_ends: "epa q = epa (pais s ! i)" "spa q = spa (pais s ! i)" by (simp_all add: q_def p_def)
  have "alloc_n_in n i r s = Some (r * 4096, s\<lparr>mrt := m, pais := (pais s)[i := q]\<rparr>)"
  proof (cases "fpp p - n \<noteq> 0")
    case True
    then have ne: "free_pages m p \<noteq> {}" using card by auto
    have "first_from (\<lambda>j. m j = 0) (nfpa p div 4096) (epa p div 4096) = Some (Min (free_pages m p))"
      by (rule first_free [OF ne]) (use least in \<open>auto simp: fr free_pages_iff pai_pages_def\<close>)
    then show ?thesis using True
      by (simp add: alloc_n_in_def Let_def mark_pages q_def flip: p_def m_def)
  next
    case False
    then show ?thesis by (simp add: alloc_n_in_def Let_def mark_pages q_def flip: p_def m_def)
  qed
  moreover have "pool_inv (s\<lparr>mrt := m, pais := (pais s)[i := q]\<rparr>)"
    by (rule pool_inv_update [OF inv il off qok q_ends])
  ultimately show ?thesis by (auto simp: m_def)
qed

lemma run_in_area:
  assumes inv: "pool_inv s" and i: "i < length (pais s)" and n: "0 < n"
  defines "p \<equiv> pais s ! i"
  shows "fpp p \<ge> n \<Longrightarrow> run_scan (\<lambda>j. mrt s j = 0) n (nfpa p div 4096) (epa p div 4096) 0 0 = Some r \<Longrightarrow> free_run s n i r"
    and "fpp p \<ge> n \<Longrightarrow> run_scan (\<lambda>j. mrt s j = 0) n (nfpa p div 4096) (epa p div 4096) 0 0 = None \<Longrightarrow> \<not> free_run s n i a"
    and "fpp p < n \<Longrightarrow> \<not> free_run s n i a"
proof -
  have ok: "pai_ok (mrt s) p" using inv i by (simp add: pool_inv_def p_def)
  let ?lo = "nfpa p div 4096" and ?F = "\<lambda>j. mrt s j = 0"
  have start: "scan_inv ?F n ?lo ?lo 0 0" using n by (rule scan_inv_start)
  show "free_run s n i r" if fp: "fpp p \<ge> n" and sc: "run_scan ?F n ?lo (epa p div 4096) 0 0 = Some r"
  proof -
    have fp0: "fpp p \<noteq> 0" using fp n by simp
    have "spa p div 4096 \<le> ?lo" using nfpa_least(1) [OF ok fp0] by (auto simp: free_pages_def)
    then show ?thesis using run_scan_sound [OF sc start] i
      by (auto simp: free_run_def free_pages_def p_def)
  qed
  show "\<not> free_run s n i a" if fp: "fpp p \<ge> n" and sc: "run_scan ?F n ?lo (epa p div 4096) 0 0 = None"
  proof
    assume run: "free_run s n i a"
    have fp0: "fpp p \<noteq> 0" using fp n by simp
    have sub: "{a..<a + n} \<subseteq> free_pages (mrt s) p" using run by (simp add: free_run_def p_def)
    then have "a \<in> free_pages (mrt s) p" "a + n - 1 \<in> free_pages (mrt s) p" using n by (auto simp: subset_iff)
    then have "?lo \<le> a" "a + n \<le> epa p div 4096"
      using nfpa_least(3) [OF ok fp0] n by (auto simp: free_pages_def)
    then obtain k where "a \<le> k" "k < a + n" "mrt s k \<noteq> 0"
      using run_scan_complete [OF sc start, of a] by auto
    then show False using sub by (auto simp: free_pages_def subset_iff)
  qed
  show "\<not> free_run s n i a" if fp: "fpp p < n"
  proof
    assume "free_run s n i a"
    then have "card {a..<a + n} \<le> card (free_pages (mrt s) p)"
      by (intro card_mono) (simp_all add: free_run_def p_def)
    then show False using ok fp by (simp add: pai_ok_def)
  qed
qed

lemma alloc_n_from_cases:
  assumes inv: "pool_inv s" and n: "0 < n"
  shows "(\<exists>i' r s'. alloc_n_from n i s = Some (r * 4096, s') \<and> free_run s n i' r \<and> pool_inv s' \<and>
      mrt s' = (\<lambda>k. if r \<le> k \<and> k < r + n then 1 else mrt s k)) \<or>
    (alloc_n_from n i s = Some (0, s) \<and> (\<forall>i' a. i \<le> i' \<longrightarrow> \<not> free_run s n i' a))"
  using assms
proof (induction n i s rule: alloc_n_from.induct)
  case (1 n i s)
  note inv = "1.prems"(1) and n = "1.prems"(2)
  show ?case
  proof (cases "i < length (pais s)")
    case False
    then show ?thesis by (simp add: alloc_n_from.simps [of n i] free_run_def)
  next
    case True
    define p where "p = pais s ! i"
    let ?sc = "run_scan (\<lambda>j. mrt s j = 0) n (nfpa p div 4096) (epa p div 4096) 0 0"
    note area = run_in_area [OF inv True n, folded p_def]
    show ?thesis
    proof (cases "\<exists>r. fpp p \<ge> n \<and> ?sc = Some r")
      case found: True
      then obtain r where r: "fpp p \<ge> n" "?sc = Some r" by blast
      have run: "free_run s n i r" by (rule area(1) [OF r])
      have "alloc_n_from n i s = alloc_n_in n i r s"
        using True r by (simp add: alloc_n_from.simps [of n i] flip: p_def)
      then show ?thesis using alloc_n_in_ok [OF inv run n] r(1) run by (auto simp: p_def)
    next
      case none: False
      have here: "\<not> free_run s n i a" for a
        using none area(2,3) by (cases "fpp p \<ge> n"; cases ?sc) auto
      have eq: "alloc_n_from n i s = alloc_n_from n (i + 1) s"
        using True none by (auto simp: alloc_n_from.simps [of n i] p_def Let_def split: option.splits)
      have IH: "(\<exists>i' r s'. alloc_n_from n (i + 1) s = Some (r * 4096, s') \<and> free_run s n i' r \<and> pool_inv s' \<and>
          mrt s' = (\<lambda>k. if r \<le> k \<and> k < r + n then 1 else mrt s k)) \<or>
        (alloc_n_from n (i + 1) s = Some (0, s) \<and> (\<forall>i' a. i + 1 \<le> i' \<longrightarrow> \<not> free_run s n i' a))"
      proof (cases "fpp p \<ge> n")
        case True
        then have "?sc = None" using none by (cases ?sc) auto
        from "1.IH"(1) [OF \<open>i < length (pais s)\<close> refl, folded p_def, OF True this inv n] show ?thesis .
      next
        case False
        from "1.IH"(2) [OF \<open>i < length (pais s)\<close> refl, folded p_def, OF False inv n] show ?thesis .
      qed
      have "\<forall>i' a. i \<le> i' \<longrightarrow> \<not> free_run s n i' a" if "\<forall>i' a. i + 1 \<le> i' \<longrightarrow> \<not> free_run s n i' a"
        using that here by (metis Suc_eq_plus1 le_eq_less_or_eq less_eq_Suc_le)
      then show ?thesis using IH unfolding eq by blast
    qed
  qed
qed

text \<open>No operation moves the areas.\<close>

lemma map_pages_update: "pai_pages q = pai_pages (ps ! i) \<Longrightarrow> map pai_pages (ps[i := q]) = map pai_pages ps"
  by (cases "i < length ps") (simp_all add: map_update list_update_same_conv list_update_beyond)

lemma alloc_page_areas:
  "alloc_page_4k s = Some (a, s') \<Longrightarrow> map pai_pages (pais s') = map pai_pages (pais s)" (is "?A \<Longrightarrow> _")
  "alloc_page_4k s = Some (a, s') \<Longrightarrow> hpa s' = hpa s"
proof -
  assume a: ?A
  then obtain i p where p: "pais s' = (pais s)[i := p]" "pai_pages p = pai_pages (pais s ! i)" "hpa s' = hpa s"
    by (auto simp: alloc_page_4k_def Let_def split: option.splits if_splits)
  show "map pai_pages (pais s') = map pai_pages (pais s)" "hpa s' = hpa s"
    using p by (simp_all add: map_pages_update)
qed

definition nfree :: "pool \<Rightarrow> nat" where "nfree s = card {k. page_free s k}"

lemma page_free_areas: "page_free s k \<longleftrightarrow> mrt s k = 0 \<and> (\<exists>A \<in> set (map pai_pages (pais s)). k \<in> A)"
  by (simp add: page_free_def)

lemma finite_page_free [simp]: "finite {k. page_free s k}"
  by (rule finite_subset [of _ "\<Union> (set (map pai_pages (pais s)))"]) (auto simp: page_free_def pai_pages_def)

lemma page_free_below:
  assumes "pool_inv s" "page_free s k"
  shows "4096 * k + 4096 \<le> hpa s"
proof -
  obtain p where "p \<in> set (pais s)" "k < epa p div 4096" using assms(2) by (auto simp: page_free_def pai_pages_def)
  moreover from this have "epa p \<le> hpa s" using assms(1) by (auto simp: pool_inv_def)
  ultimately show ?thesis by linarith
qed

lemma nfree_pos: "0 < nfree s \<longleftrightarrow> (\<exists>k. page_free s k)"
  by (auto simp: nfree_def card_gt_0_iff)

lemma alloc_page_nfree:
  assumes "pool_inv s" "0 < nfree s"
  obtains a s' where "alloc_page_4k s = Some (a, s')" "pool_inv s'" "a mod 4096 = 0" "page_free s (a div 4096)"
    "mrt s' = (mrt s)(a div 4096 := 1)" "hpa s' = hpa s" "nfree s' = nfree s - 1"
    "map pai_pages (pais s') = map pai_pages (pais s)"
proof -
  obtain a s' where a: "alloc_page_4k s = Some (a, s')" "pool_inv s'" "a mod 4096 = 0" "page_free s (a div 4096)"
      "mrt s' = (mrt s)(a div 4096 := 1)"
    using alloc_page_ok [OF assms(1)] assms(2) by (auto simp: nfree_pos)
  have "{k. page_free s' k} = {k. page_free s k} - {a div 4096}"
    using a(5) by (auto simp: page_free_areas alloc_page_areas(1) [OF a(1)] simp del: set_map)
  then have "nfree s' = nfree s - 1" using a(4) by (simp add: nfree_def)
  then show ?thesis using that [OF a] alloc_page_areas [OF a(1)] by simp
qed

lemma alloc_n_in_areas: "alloc_n_in n i r s = Some (a, s') \<Longrightarrow> map pai_pages (pais s') = map pai_pages (pais s)"
  by (auto simp: alloc_n_in_def Let_def map_pages_update split: if_splits option.splits)

lemma alloc_n_from_areas: "alloc_n_from n i s = Some (a, s') \<Longrightarrow> map pai_pages (pais s') = map pai_pages (pais s)"
proof (induction n i s rule: alloc_n_from.induct)
  case (1 n i s)
  show ?case
  proof (cases "i < length (pais s)")
    case False
    then show ?thesis using "1.prems" by (simp add: alloc_n_from.simps [of n i])
  next
    case True
    let ?p = "pais s ! i"
    let ?sc = "run_scan (\<lambda>j. mrt s j = 0) n (nfpa ?p div 4096) (epa ?p div 4096) 0 0"
    show ?thesis
    proof (cases "fpp ?p \<ge> n")
      case f: True
      show ?thesis
      proof (cases ?sc)
        case None
        have "alloc_n_from n (i + 1) s = Some (a, s')"
          using "1.prems" True f None by (simp add: alloc_n_from.simps [of n i] Let_def)
        from "1.IH"(1) [OF True refl f None this] show ?thesis .
      next
        case (Some r)
        then show ?thesis using "1.prems" True f alloc_n_in_areas [of n i r s a s']
          by (simp add: alloc_n_from.simps [of n i] Let_def)
      qed
    next
      case f: False
      have "alloc_n_from n (i + 1) s = Some (a, s')"
        using "1.prems" True f by (simp add: alloc_n_from.simps [of n i] Let_def)
      from "1.IH"(2) [OF True refl f this] show ?thesis .
    qed
  qed
qed

lemma alloc_n_pages_areas:
  "alloc_n_pages_4k n s = Some (a, s') \<Longrightarrow> map pai_pages (pais s') = map pai_pages (pais s)"
  by (auto simp: alloc_n_pages_4k_def dest: alloc_n_from_areas split: if_splits)

section \<open>Releasing pages\<close>

lemma decrease_ok:
  assumes inv: "pool_inv s" and pg: "p \<in> set (pais s)" "a div 4096 \<in> pai_pages p" and al: "a mod 4096 = 0"
    and rc: "mrt s (a div 4096) \<noteq> 0" "mrt s (a div 4096) \<noteq> 0xff"
  shows "\<exists>s'. decrease_reference_page_4k a s = Some (mrt s (a div 4096) - 1, s') \<and> pool_inv s' \<and>
    mrt s' = (mrt s)(a div 4096 := mrt s (a div 4096) - 1) \<and> map pai_pages (pais s') = map pai_pages (pais s)"
proof -
  let ?k = "a div 4096"
  define m where "m = (mrt s)(?k := mrt s ?k - 1)"
  have dv: "4096 dvd spa q" "4096 dvd epa q" "epa q \<le> hpa s" if "q \<in> set (pais s)" for q
    using inv that by (auto simp: pool_inv_def pai_ok_def)
  have in_iff: "?k \<in> pai_pages q \<longleftrightarrow> spa q \<le> a \<and> a < epa q" if "q \<in> set (pais s)" for q
    using dv(1,2) [OF that] al by (auto simp: pai_pages_def elim!: dvdE)
  have "a < hpa s" using in_iff [OF pg(1)] pg(2) dv(3) [OF pg(1)] by simp
  have ff: "mrt s ?k = 255 \<longleftrightarrow> False" "mrt s ?k = 0 \<longleftrightarrow> False" using rc by simp_all
  show ?thesis
  proof (cases "mrt s ?k - 1 = 0")
    case False
    have "pool_inv (s\<lparr>mrt := m\<rparr>)"
    proof -
      have "pai_ok m q" if "q \<in> set (pais s)" for q
        using inv that rc False pai_ok_cong [of q m "mrt s"] by (auto simp: pool_inv_def m_def)
      then show ?thesis using inv by (simp add: pool_inv_def)
    qed
    then show ?thesis using False \<open>a < hpa s\<close> ff
      by (auto simp: decrease_reference_page_4k_def Let_def m_def)
  next
    case True
    obtain i0 where i0: "i0 < length (pais s)" "p = pais s ! i0" using pg(1) by (auto simp: in_set_conv_nth)
    then have "a \<ge> spa (pais s ! i0) \<and> a < epa (pais s ! i0)" using in_iff [OF pg(1)] pg(2) by simp
    from first_from_ex [OF _ i0(1), where P = "\<lambda>i. a \<ge> spa (pais s ! i) \<and> a < epa (pais s ! i)", OF _ this]
    obtain i where i: "first_from (\<lambda>i. a \<ge> spa (pais s ! i) \<and> a < epa (pais s ! i)) 0 (length (pais s)) = Some i"
      by blast
    define p0 where "p0 = pais s ! i"
    have il: "i < length (pais s)" and ina: "spa p0 \<le> a" "a < epa p0" using first_from_SomeD [OF i] by (auto simp: p0_def)
    have p0in: "p0 \<in> set (pais s)" using il by (simp add: p0_def)
    have kin: "?k \<in> pai_pages p0" using in_iff [OF p0in] ina by simp
    have ok: "pai_ok (mrt s) p0" using inv p0in by (simp add: pool_inv_def)
    have fr: "free_pages m p0 = insert ?k (free_pages (mrt s) p0)"
      using kin True by (auto simp: free_pages_iff m_def split: if_splits)
    have knot: "?k \<notin> free_pages (mrt s) p0" using rc by (simp add: free_pages_iff)
    define q where "q = (if fpp p0 \<noteq> 0 then p0\<lparr>nfpa := if nfpa p0 < a then nfpa p0 else a\<rparr> else p0\<lparr>nfpa := a\<rparr>)\<lparr>fpp := fpp p0 + 1\<rparr>"
    have a_eq: "a = 4096 * ?k" using al mult_div_mod_eq [of 4096 a] by simp
    have sel: "spa q = spa p0" "epa q = epa p0" "fpp q = fpp p0 + 1" "free_pages m q = free_pages m p0"
      "pai_pages q = pai_pages p0"
      by (simp_all add: q_def free_pages_def pai_pages_def)
    have "nfpa q = 4096 * Min (free_pages m p0)"
    proof (cases "free_pages (mrt s) p0 = {}")
      case e: True
      then have "fpp p0 = 0" using ok by (simp add: pai_ok_def)
      then have "nfpa q = a" by (simp add: q_def)
      moreover have "free_pages m p0 = {?k}" using fr e by simp
      ultimately show ?thesis using a_eq by simp
    next
      case ne: False
      then have n0: "nfpa p0 = 4096 * Min (free_pages (mrt s) p0)" "fpp p0 \<noteq> 0" using ok by (auto simp: pai_ok_def)
      then have "nfpa q = (if nfpa p0 < a then nfpa p0 else a)" by (simp add: q_def)
      moreover have "Min (free_pages m p0) = min ?k (Min (free_pages (mrt s) p0))" using ne by (simp add: fr)
      ultimately show ?thesis using a_eq n0(1) by (auto simp: min_def)
    qed
    then have qok: "pai_ok m q" using ok sel fr knot by (simp add: pai_ok_def)
    have off: "\<And>k. k \<notin> pai_pages (pais s ! i) \<Longrightarrow> m k = mrt s k" using kin by (auto simp: m_def p0_def)
    have "pool_inv (s\<lparr>mrt := m, pais := (pais s)[i := q]\<rparr>)"
      by (rule pool_inv_update [OF inv il off qok]) (simp_all add: sel p0_def)
    moreover have "decrease_reference_page_4k a s = Some (0, s\<lparr>mrt := m, pais := (pais s)[i := q]\<rparr>)"
      using \<open>a < hpa s\<close> ff True i unfolding decrease_reference_page_4k_def
      by (simp add: Let_def q_def m_def flip: p0_def)
    moreover have "map pai_pages ((pais s)[i := q]) = map pai_pages (pais s)"
      using sel(5) il by (simp add: map_update p0_def list_update_same_conv)
    ultimately show ?thesis using True by (simp add: m_def)
  qed
qed

lemma free_pages_from_append: "free_pages_from a (xs @ ys) s = free_pages_from a xs s \<bind> free_pages_from a ys"
  by (induction xs arbitrary: s) (auto split: Option.bind_split)

lemma free_pages_from_ok:
  assumes "pool_inv s" "p \<in> set (pais s)" "a mod 4096 = 0" "distinct ks" "\<forall>i\<in>set ks. i < 1048576"
    and "\<And>i. i \<in> set ks \<Longrightarrow> a div 4096 + i \<in> pai_pages p \<and> mrt s (a div 4096 + i) = 1"
  shows "\<exists>s'. free_pages_from a ks s = Some s' \<and> pool_inv s' \<and>
    mrt s' = (\<lambda>k. if \<exists>i \<in> set ks. k = a div 4096 + i then 0 else mrt s k)"
  using assms
proof (induction ks arbitrary: s p)
  case Nil
  then show ?case by simp
next
  case (Cons i ks)
  let ?b = "a + i * 4096"
  have b: "?b div 4096 = a div 4096 + i" "?b mod 4096 = 0" using Cons.prems(3) by simp_all
  have u: "u32 (i * 4096) = i * 4096" using Cons.prems(5) by (simp add: width)
  have i: "a div 4096 + i \<in> pai_pages p" "mrt s (a div 4096 + i) = 1" using Cons.prems(6) [of i] by auto
  obtain s1 where s1: "decrease_reference_page_4k ?b s = Some (0, s1)" "pool_inv s1"
      "mrt s1 = (mrt s)(a div 4096 + i := 0)" "map pai_pages (pais s1) = map pai_pages (pais s)"
    using decrease_ok [OF Cons.prems(1,2), of ?b] i b by auto
  obtain p1 where p1: "p1 \<in> set (pais s1)" "pai_pages p1 = pai_pages p"
    using s1(4) Cons.prems(2) by (metis (no_types, lifting) image_iff list.set_map)
  have "\<And>j. j \<in> set ks \<Longrightarrow> a div 4096 + j \<in> pai_pages p1 \<and> mrt s1 (a div 4096 + j) = 1"
    using Cons.prems(4,6) s1(3) p1(2) by auto
  from Cons.IH [OF s1(2) p1(1) Cons.prems(3) _ _ this] Cons.prems(4,5)
  obtain s2 where "free_pages_from a ks s1 = Some s2" "pool_inv s2"
      "mrt s2 = (\<lambda>k. if \<exists>i \<in> set ks. k = a div 4096 + i then 0 else mrt s1 k)" by auto
  then show ?case using s1(1,3) u by (auto simp: fun_eq_iff)
qed

section \<open>Boot\<close>

text \<open>The areas the memory map yields: page aligned, non-empty, all pages free; \<open>sorted_areas\<close> says
  that they come in ascending order without overlap.\<close>

definition fresh_area :: "pai \<Rightarrow> bool" where
  "fresh_area p \<longleftrightarrow> 4096 dvd spa p \<and> 4096 dvd epa p \<and> spa p < epa p \<and>
     fpp p = epa p div 4096 - spa p div 4096 \<and> nfpa p = spa p"

fun sorted_areas :: "nat \<Rightarrow> pai list \<Rightarrow> bool" where
  "sorted_areas lo [] \<longleftrightarrow> True"
| "sorted_areas lo (p # ps) \<longleftrightarrow> lo \<le> spa p \<and> sorted_areas (epa p) ps"

lemma collect_areas_fresh:
  "collect_areas es ps h = Some (qs, h') \<Longrightarrow> \<forall>p \<in> set ps. fresh_area p \<and> epa p \<le> h \<Longrightarrow>
     (\<forall>p \<in> set qs. fresh_area p \<and> epa p \<le> h') \<and> h \<le> h'"
proof (induction es ps h arbitrary: qs h' rule: collect_areas.induct)
  case (1 ps h)
  then show ?case by auto
next
  case (2 e es ps h)
  let ?s = "u64 (e_addr e + 0xfff) div 4096 * 4096" and ?t = "u64 (e_addr e + e_len e) div 4096 * 4096"
  show ?case
  proof (cases "e_type e = MULTIBOOT_MEMORY_AVAILABLE \<and> ?s < ?t")
    case True
    then have n: "\<not> length ps \<ge> DEFAULT_PAI_NUMBER" using "2.prems"(1) by (auto split: if_splits)
    let ?p = "\<lparr>spa = ?s, epa = ?t, fpp = (?t - ?s) div 4096, nfpa = ?s\<rparr>" and ?h = "if h > ?t then h else ?t"
    have "fresh_area ?p" using True by (simp add: fresh_area_def flip: diff_mult_distrib)
    then have "\<forall>p \<in> set (ps @ [?p]). fresh_area p \<and> epa p \<le> ?h" using "2.prems"(2) by auto
    moreover have "collect_areas es (ps @ [?p]) ?h = Some (qs, h')"
      using "2.prems"(1) True n by (simp add: Let_def)
    ultimately have "(\<forall>p \<in> set qs. fresh_area p \<and> epa p \<le> h') \<and> ?h \<le> h'"
      using "2.IH"(1) [OF _ n refl refl] True by blast
    then show ?thesis by (auto split: if_splits)
  next
    case False
    then have "collect_areas es ps h = Some (qs, h')" using "2.prems"(1) by (auto simp: Let_def split: if_splits)
    then show ?thesis using "2.IH"(2,3) "2.prems" False by (auto simp: Let_def split: if_splits)
  qed
qed

text \<open>An area all of whose pages are free, and one none of whose pages is.\<close>

lemma pai_ok_all_free:
  assumes "4096 dvd spa p" "4096 dvd epa p" "spa p < epa p" "nfpa p = spa p" "fpp p = epa p div 4096 - spa p div 4096"
    and "\<And>k. k \<in> pai_pages p \<Longrightarrow> m k = 0"
  shows "pai_ok m p" "free_pages m p = pai_pages p"
proof -
  show f: "free_pages m p = pai_pages p" using assms(6) by (auto simp: free_pages_iff)
  obtain c d where cd: "spa p = 4096 * c" "epa p = 4096 * d" using assms(1,2) by (auto elim!: dvdE)
  then have "c < d" using assms(3) by simp
  then have "Min {c..<d} = c" by (intro Min_eqI) auto
  then show "pai_ok m p" using assms(4,5) cd f by (simp add: pai_ok_def pai_pages_def)
qed

lemma set_mrt_areas_ok:
  assumes "\<forall>p \<in> set ps. fresh_area p" "sorted_areas b ps" "lst = addr \<or> lst \<le> b" "addr \<le> lst"
    and "4096 dvd addr" "4096 dvd lst" "\<forall>k < addr div 4096. m k = 0xff"
  shows "\<exists>qs m' t'. set_mrt_areas addr lst ps m t = Some (qs, m', t') \<and>
    (\<forall>q \<in> set qs. pai_ok m' q \<and> spa q \<le> epa q) \<and> sorted_areas b qs \<and> map epa qs = map epa ps \<and>
    (\<forall>k < lst div 4096. m' k = m k) \<and> t' = t + sum_list (map fpp qs) \<and>
    (\<forall>k. (\<exists>q \<in> set qs. k \<in> free_pages m' q) \<longleftrightarrow> addr div 4096 \<le> k \<and> (\<exists>p \<in> set ps. k \<in> pai_pages p))"
  using assms
proof (induction ps arbitrary: b lst m t)
  case Nil
  then show ?case by simp
next
  case (Cons p ps)
  have fresh: "4096 dvd spa p" "4096 dvd epa p" "spa p < epa p" "nfpa p = spa p" "fpp p = epa p div 4096 - spa p div 4096"
    and rest: "\<forall>p \<in> set ps. fresh_area p" and b: "b \<le> spa p" and srt: "sorted_areas (epa p) ps"
    using Cons.prems(1,2) by (auto simp: fresh_area_def)
  have less_div: "x < y \<Longrightarrow> 4096 dvd y \<Longrightarrow> x div 4096 < y div 4096" for x y :: nat by (auto elim!: dvdE)
  show ?case
  proof (cases "epa p \<le> addr")
    case True
    have low: "k < addr div 4096" if "k \<in> pai_pages p" for k
      using that div_le_mono [OF True, of 4096] by (auto simp: pai_pages_def)
    have "sorted_areas (epa p) ps" "lst = addr \<or> lst \<le> epa p" using srt Cons.prems(3) b fresh(3) by auto
    from Cons.IH [OF rest this Cons.prems(4-7), of t] obtain qs m' t' where
      r: "set_mrt_areas addr lst ps m t = Some (qs, m', t')" "\<forall>q \<in> set qs. pai_ok m' q \<and> spa q \<le> epa q" "sorted_areas (epa p) qs"
        "map epa qs = map epa ps" "\<forall>k < lst div 4096. m' k = m k" "t' = t + sum_list (map fpp qs)"
        "\<forall>k. (\<exists>q \<in> set qs. k \<in> free_pages m' q) \<longleftrightarrow> addr div 4096 \<le> k \<and> (\<exists>p \<in> set ps. k \<in> pai_pages p)"
      by blast
    have "addr div 4096 \<le> lst div 4096" using Cons.prems(4) by (rule div_le_mono)
    then have "m' k = 255" if "k \<in> pai_pages p" for k using low [OF that] r(5) Cons.prems(7) by auto
    then have none: "free_pages m' p = {}" by (auto simp: free_pages_iff)
    then have "pai_ok m' (p\<lparr>fpp := 0\<rparr>)" using fresh by (simp add: pai_ok_def)
    moreover have "(\<exists>q \<in> set (p\<lparr>fpp := 0\<rparr> # qs). k \<in> free_pages m' q) \<longleftrightarrow>
        addr div 4096 \<le> k \<and> (\<exists>p \<in> set (p # ps). k \<in> pai_pages p)" for k
      using none r(7) low [of k] by (cases "k \<in> pai_pages p") auto
    ultimately show ?thesis using True r(1-6) b fresh(3)
      by (intro exI [of _ "p\<lparr>fpp := 0\<rparr> # qs"] exI [of _ m'] exI [of _ t']) simp
  next
    case high: False
    define q where "q = (if spa p < addr then p\<lparr>spa := addr, nfpa := addr, fpp := (epa p - addr) div 4096\<rparr> else p)"
    define m1 where "m1 = (if spa p < addr then m else mrt_fill (lst div 4096) 0xff ((spa p - lst) div 4096) m)"
    define m2 where "m2 = mrt_fill (spa q div 4096) 0 (fpp q) m1"
    have no: "\<not> (\<not> spa p < addr \<and> spa p < lst)" using Cons.prems(3,4) b by auto
    have lq: "lst \<le> spa q" using Cons.prems(3,4) b high by (auto simp: q_def)
    have q: "4096 dvd spa q" "epa q = epa p" "spa q < epa q" "nfpa q = spa q" "fpp q = epa q div 4096 - spa q div 4096" "addr \<le> spa q" "b \<le> spa q"
      using fresh Cons.prems(5) high b by (auto simp: q_def elim!: dvdE)
    have m2_low: "m2 k = m k" if "k < lst div 4096" for k
      using that div_le_mono [OF lq, of 4096] by (auto simp: m2_def m1_def mrt_fill_def)
    have m2_in: "m2 k = 0" if "k \<in> pai_pages q" for k
      using that q(5) by (auto simp: m2_def mrt_fill_def pai_pages_def)
    have al: "addr div 4096 \<le> lst div 4096" using Cons.prems(4) by (rule div_le_mono)
    have ff: "\<forall>k < addr div 4096. m2 k = 0xff" using m2_low al Cons.prems(7) by auto
    have "addr \<le> epa p" using high by simp
    from Cons.IH [OF rest srt _ this Cons.prems(5) fresh(2) ff, of "t + fpp q"] obtain qs m' t' where
      r: "set_mrt_areas addr (epa p) ps m2 (t + fpp q) = Some (qs, m', t')" "\<forall>q \<in> set qs. pai_ok m' q \<and> spa q \<le> epa q" "sorted_areas (epa p) qs"
        "map epa qs = map epa ps" "\<forall>k < epa p div 4096. m' k = m2 k" "t' = t + fpp q + sum_list (map fpp qs)"
        "\<forall>k. (\<exists>q \<in> set qs. k \<in> free_pages m' q) \<longleftrightarrow> addr div 4096 \<le> k \<and> (\<exists>p \<in> set ps. k \<in> pai_pages p)"
      by blast
    have "m' k = 0" if "k \<in> pai_pages q" for k using that m2_in r(5) q(2) by (auto simp: pai_pages_def)
    note okq = pai_ok_all_free [OF q(1) _ q(3,4,5) this]
    have qok: "pai_ok m' q" and qf: "free_pages m' q = pai_pages q" using okq fresh(2) q(2) by auto
    have pq: "k \<in> pai_pages q \<longleftrightarrow> addr div 4096 \<le> k \<and> k \<in> pai_pages p" for k
      using high fresh Cons.prems(5) by (auto simp: q_def pai_pages_def elim!: dvdE)
    have low': "m' k = m k" if "k < lst div 4096" for k
    proof -
      have "lst div 4096 \<le> epa p div 4096" using lq q(2,3) by (intro div_le_mono) simp
      then show ?thesis using that r(5) m2_low by simp
    qed
    have "set_mrt_areas addr lst (p # ps) m t = Some (q # qs, m', t')"
      using high no r(1) by (auto simp: q_def m2_def m1_def Let_def)
    then show ?thesis using r q(2,3,7) qok qf pq low' by auto
  qed
qed

lemma sorted_disjoint:
  "sorted_areas lo ps \<Longrightarrow> \<forall>p \<in> set ps. spa p \<le> epa p \<Longrightarrow> i < j \<Longrightarrow> j < length ps \<Longrightarrow>
     pai_pages (ps ! i) \<inter> pai_pages (ps ! j) = {}"
proof -
  have lower: "sorted_areas lo ps \<Longrightarrow> \<forall>p \<in> set ps. spa p \<le> epa p \<Longrightarrow> p \<in> set ps \<Longrightarrow> lo \<le> spa p" for lo p ps
    by (induction ps arbitrary: lo) force+
  show "sorted_areas lo ps \<Longrightarrow> \<forall>p \<in> set ps. spa p \<le> epa p \<Longrightarrow> i < j \<Longrightarrow> j < length ps \<Longrightarrow>
     pai_pages (ps ! i) \<inter> pai_pages (ps ! j) = {}"
  proof (induction ps arbitrary: lo i j)
    case Nil
    then show ?case by simp
  next
    case (Cons p ps)
    show ?case
    proof (cases i)
      case 0
      then obtain j' where j: "j = Suc j'" "j' < length ps" using Cons.prems(3,4) by (cases j) auto
      have "epa p \<le> spa (ps ! j')" using lower [of "epa p" ps "ps ! j'"] Cons.prems(1,2) j(2) by simp
      then have "epa p div 4096 \<le> spa (ps ! j') div 4096" by (rule div_le_mono)
      then show ?thesis using 0 j by (auto simp: pai_pages_def)
    next
      case (Suc i')
      then obtain j' where "j = Suc j'" using Cons.prems(3) by (cases j) auto
      then show ?thesis using Cons.IH [of "epa p" i' j'] Cons.prems Suc by simp
    qed
  qed
qed

lemma boot_pool:
  assumes g: "get_total_memory True es m0 = Some s" and srt: "sorted_areas 0 (pais s)"
    and addr_def: "addr = u64 (base + tpp s + 0xfff) div 4096 * 4096"
  shows "\<exists>s'. set_mrt_table base s = Some s' \<and> pool_inv s' \<and> tfpp s' = sum_list (map fpp (pais s')) \<and>
    (\<forall>k. page_free s' k \<longleftrightarrow> addr div 4096 \<le> k \<and> (\<exists>p \<in> set (pais s). k \<in> pai_pages p))"
proof -
  obtain h where c: "collect_areas es [] 0x100000000 = Some (pais s, hpa s)" "tfpp s = 0"
    using g by (auto simp: get_total_memory_def bind_eq_Some_conv)
  have f: "\<forall>p \<in> set (pais s). fresh_area p \<and> epa p \<le> hpa s" using collect_areas_fresh [OF c(1)] by simp
  let ?m = "mrt_fill 0 0xff (addr div 4096) (mrt s)"
  have "\<exists>qs m' t'. set_mrt_areas addr addr (pais s) ?m 0 = Some (qs, m', t') \<and>
    (\<forall>q \<in> set qs. pai_ok m' q \<and> spa q \<le> epa q) \<and> sorted_areas 0 qs \<and> map epa qs = map epa (pais s) \<and>
    (\<forall>k < addr div 4096. m' k = ?m k) \<and> t' = 0 + sum_list (map fpp qs) \<and>
    (\<forall>k. (\<exists>q \<in> set qs. k \<in> free_pages m' q) \<longleftrightarrow> addr div 4096 \<le> k \<and> (\<exists>p \<in> set (pais s). k \<in> pai_pages p))"
    by (rule set_mrt_areas_ok [OF _ srt]) (use f in \<open>auto simp: addr_def mrt_fill_def\<close>)
  then obtain qs m' t' where r: "set_mrt_areas addr addr (pais s) ?m 0 = Some (qs, m', t')"
      "\<forall>q \<in> set qs. pai_ok m' q \<and> spa q \<le> epa q" "sorted_areas 0 qs" "map epa qs = map epa (pais s)"
      "t' = sum_list (map fpp qs)"
      "\<forall>k. (\<exists>q \<in> set qs. k \<in> free_pages m' q) \<longleftrightarrow> addr div 4096 \<le> k \<and> (\<exists>p \<in> set (pais s). k \<in> pai_pages p)"
    by auto
  let ?s = "s\<lparr>pais := qs, mrt := m', tfpp := t'\<rparr>"
  have "set_mrt_table base s = Some ?s"
    using r(1) c(2) by (simp add: set_mrt_table_def addr_def Let_def)
  moreover have "pool_inv ?s"
  proof -
    have "epa q \<le> hpa s" if "q \<in> set qs" for q
    proof -
      have "epa q \<in> epa ` set (pais s)" using that r(4) by (metis image_eqI list.set_map)
      then show ?thesis using f by auto
    qed
    then show ?thesis using r(2,3) sorted_disjoint [of 0 qs] by (simp add: pool_inv_def)
  qed
  moreover have "page_free ?s k \<longleftrightarrow> (\<exists>q \<in> set qs. k \<in> free_pages m' q)" for k
    by (auto simp: page_free_def free_pages_iff)
  ultimately show ?thesis using r(5,6) by simp
qed

section \<open>Properties\<close>

text \<open>C3: \<open>alloc_page_4k\<close> never halts while a page is free: it returns the address of a page that was
  free, which now has reference count 1 while no other page changed, and the bookkeeping of every
  area (number of free pages, address of the first one) stays exact.  With no free page it halts.\<close>

theorem alloc_page_4k_correct:
  assumes "pool_inv s"
  shows "if \<exists>k. page_free s k
    then \<exists>a s'. alloc_page_4k s = Some (a, s') \<and> pool_inv s' \<and> a mod 4096 = 0 \<and> page_free s (a div 4096) \<and>
      mrt s' = (mrt s)(a div 4096 := 1)
    else alloc_page_4k s = None"
  using alloc_page_ok [OF assms] alloc_page_halts [OF assms] by simp

definition small_pool :: pool where
  "small_pool = \<lparr>hpa = 0x4000, tpp = 4, tfpp = 3,
     pais = [\<lparr>spa = 0x1000, epa = 0x4000, fpp = 3, nfpa = 0x1000\<rparr>], mrt = (\<lambda>_. 0)\<rparr>"

lemma small_pool_inv: "pool_inv small_pool"
proof -
  let ?p = "\<lparr>spa = 0x1000, epa = 0x4000, fpp = 3, nfpa = 0x1000\<rparr>"
  have "pai_ok (\<lambda>_. 0) ?p" by (rule pai_ok_all_free(1)) simp_all
  then show ?thesis by (simp add: pool_inv_def small_pool_def)
qed

theorem alloc_page_4k_correct_witness:
  "\<exists>a s'. alloc_page_4k small_pool = Some (a, s') \<and> page_free small_pool (a div 4096)"
proof -
  have "page_free small_pool 2" by (simp add: page_free_def small_pool_def pai_pages_def)
  then have "\<exists>k. page_free small_pool k" by blast
  with alloc_page_4k_correct [OF small_pool_inv] show ?thesis by auto
qed

text \<open>C9: \<open>alloc_n_pages_4k\<close> never halts.  If some area has \<open>n\<close> consecutive free pages, it takes such a
  run (all its pages were free, they now have count 1, nothing else changed, the bookkeeping is exact);
  it returns 0, with no change, only if no area has one.\<close>

theorem alloc_n_pages_4k_correct:
  assumes "pool_inv s" "0 < n"
  shows "(\<exists>i r s'. alloc_n_pages_4k n s = Some (r * 4096, s') \<and> free_run s n i r \<and> pool_inv s' \<and>
      mrt s' = (\<lambda>k. if r \<le> k \<and> k < r + n then 1 else mrt s k)) \<or>
    (alloc_n_pages_4k n s = Some (0, s) \<and> (\<forall>i r. \<not> free_run s n i r))"
  using alloc_n_from_cases [OF assms, of 0] assms(2) by (simp add: alloc_n_pages_4k_def)

theorem alloc_n_pages_4k_correct_witness:
  "\<exists>i r s'. alloc_n_pages_4k 2 small_pool = Some (r * 4096, s') \<and> free_run small_pool 2 i r"
proof -
  have "free_run small_pool 2 0 1"
    by (auto simp: free_run_def small_pool_def free_pages_def)
  with alloc_n_pages_4k_correct [OF small_pool_inv, of 2] show ?thesis by auto
qed

text \<open>C32: freeing the pages of a successful \<open>alloc_n_pages_4k\<close>.  For a run of at most \<open>2 ^ 20\<close> pages
  (4 GiB) it does not halt and gives every page of the system the reference count it had before, and the
  bookkeeping is exact again.  For a longer run it halts: the 32-bit offset \<open>i << 12\<close> comes back to 0 and the
  first page of the run is freed a second time.\<close>

theorem free_n_alloc_n:
  assumes "pool_inv s" "0 < n" "alloc_n_pages_4k n s = Some (a, s')" "a \<noteq> 0"
  shows "if n \<le> 2 ^ 20 then \<exists>s''. free_n_pages_4k n a s' = Some s'' \<and> mrt s'' = mrt s \<and> pool_inv s''
    else free_n_pages_4k n a s' = None"
proof -
  from alloc_n_from_cases [OF assms(1,2), of 0] assms(2-4)
  obtain i r where r: "a = r * 4096" "free_run s n i r" "pool_inv s'"
      "mrt s' = (\<lambda>k. if r \<le> k \<and> k < r + n then 1 else mrt s k)"
    by (auto simp: alloc_n_pages_4k_def)
  have z: "mrt s k = 0" if "r \<le> k" "k < r + n" for k using r(2) that by (force simp: free_run_def free_pages_iff)
  have "map pai_pages (pais s') = map pai_pages (pais s)"
    using alloc_n_pages_areas [OF assms(3)] .
  moreover have "i < length (pais s)" "{r..<r + n} \<subseteq> pai_pages (pais s ! i)"
    using r(2) by (auto simp: free_run_def free_pages_iff subset_iff)
  ultimately have i: "i < length (pais s')" "{r..<r + n} \<subseteq> pai_pages (pais s' ! i)"
    by (metis length_map, metis length_map nth_map)
  have free: "\<exists>s''. free_pages_from a [0..<m] s' = Some s'' \<and> pool_inv s'' \<and>
      mrt s'' = (\<lambda>k. if \<exists>i \<in> set [0..<m]. k = a div 4096 + i then 0 else mrt s' k)" if "m \<le> n" "m \<le> 1048576" for m
    by (rule free_pages_from_ok [OF r(3), of "pais s' ! i"]) (use i r(1,4) that in \<open>auto simp: subset_iff\<close>)
  have run: "free_n_pages_4k n a s' = free_pages_from a [0..<n] s'" using assms(2) r(1) by (simp add: free_n_pages_4k_def)
  show ?thesis
  proof (cases "n \<le> 1048576")
    case True
    have "(\<lambda>k. if \<exists>i \<in> set [0..<n]. k = a div 4096 + i then 0 else mrt s' k) = mrt s"
      using r(1,4) z by (auto simp: fun_eq_iff) (metis le_add_diff_inverse nat_add_left_cancel_less atLeastLessThan_iff zero_le)
    then show ?thesis using True free [of n] run by auto
  next
    case False
    obtain s1 where s1: "free_pages_from a [0..<1048576] s' = Some s1"
      "mrt s1 = (\<lambda>k. if \<exists>i \<in> set [0..<1048576]. k = a div 4096 + i then 0 else mrt s' k)"
      using free [of 1048576] False by auto
    have "0 \<in> set [0..<1048576 :: nat]" by (simp only: set_upt) simp
    then have "mrt s1 (a div 4096) = 0" unfolding s1(2) using add_0_right by metis
    then have "decrease_reference_page_4k (a + u32 (1048576 * 4096)) s1 = None"
      by (simp add: decrease_reference_page_4k_def u32_def)
    moreover have "[0..<n] = [0..<1048576] @ 1048576 # [Suc 1048576..<n]"
      using False upt_add_eq_append [of 0 1048576 "n - 1048576"] upt_conv_Cons [of 1048576 n] by simp
    ultimately show ?thesis using False s1(1) run by (simp add: free_pages_from_append)
  qed
qed

theorem free_n_alloc_n_witness:
  "\<exists>a s' s''. alloc_n_pages_4k 2 small_pool = Some (a, s') \<and> free_n_pages_4k 2 a s' = Some s'' \<and> mrt s'' = mrt small_pool"
proof -
  have run: "free_run small_pool 2 0 1" by (auto simp: free_run_def small_pool_def free_pages_def)
  from alloc_n_from_cases [OF small_pool_inv, of 2 0] run obtain i r s' where
    r: "alloc_n_from 2 0 small_pool = Some (r * 4096, s')" "free_run small_pool 2 i r" by auto
  then have "r \<noteq> 0" by (auto simp: free_run_def small_pool_def free_pages_def subset_iff)
  then show ?thesis
    using free_n_alloc_n [OF small_pool_inv, of 2 "r * 4096" s'] r(1) by (auto simp: alloc_n_pages_4k_def)
qed

text \<open>C33: booting establishes the allocator: for a memory map whose usable areas come in ascending
  order, \<open>get_total_memory\<close> and \<open>set_mrt_table\<close> end in a state with exact bookkeeping in which the
  free pages are exactly the usable pages above the kernel image and the reference table itself, and
  \<open>tfpp\<close> is their number.\<close>

theorem boot_establishes_pool:
  assumes "get_total_memory True es m0 = Some s" "sorted_areas 0 (pais s)"
  shows "\<exists>s'. set_mrt_table base s = Some s' \<and> pool_inv s' \<and> tfpp s' = sum_list (map fpp (pais s')) \<and>
    (\<forall>k. page_free s' k \<longleftrightarrow>
       u64 (base + tpp s + 0xfff) div 4096 \<le> k \<and> (\<exists>p \<in> set (pais s). k \<in> pai_pages p))"
  using boot_pool [OF assms refl, of base] by simp

theorem boot_establishes_pool_witness:
  "\<exists>s s'. get_total_memory True [\<lparr>e_addr = 0, e_len = 0x9fc00, e_type = 1\<rparr>, \<lparr>e_addr = 0x100000, e_len = 0x7f00000, e_type = 1\<rparr>] (\<lambda>_. 0) = Some s
     \<and> set_mrt_table 0x200000 s = Some s' \<and> page_free s' 0x400"
proof -
  let ?es = "[\<lparr>e_addr = 0, e_len = 0x9fc00, e_type = 1\<rparr>, \<lparr>e_addr = 0x100000, e_len = 0x7f00000, e_type = 1\<rparr>]"
  let ?s = "\<lparr>hpa = 0x100000000, tpp = 0x100000, tfpp = 0,
     pais = [\<lparr>spa = 0, epa = 0x9f000, fpp = 0x9f, nfpa = 0\<rparr>, \<lparr>spa = 0x100000, epa = 0x8000000, fpp = 0x7f00, nfpa = 0x100000\<rparr>],
     mrt = (\<lambda>_. 0)\<rparr>"
  have "get_total_memory True ?es (\<lambda>_. 0) = Some ?s"
    by (simp add: get_total_memory_def MULTIBOOT_MEMORY_AVAILABLE_def DEFAULT_PAI_NUMBER_def u64_def)
  moreover have "sorted_areas 0 (pais ?s)" by simp
  ultimately show ?thesis
    using boot_establishes_pool [of ?es "\<lambda>_. 0" ?s "0x200000"] by (auto simp: u64_def pai_pages_def)
qed

text \<open>C34: reference counts of shared pages: \<open>add_reference_page_4k\<close> followed by
  \<open>decrease_reference_page_4k\<close> restores the count, the count never reaches the reserved value 0xff,
  and a saturated count is reported instead of being increased.\<close>

theorem reference_count_roundtrip:
  assumes "pool_inv s" "p \<in> set (pais s)" "a div 4096 \<in> pai_pages p" "a mod 4096 = 0"
    and "mrt s (a div 4096) \<noteq> 0" "mrt s (a div 4096) \<noteq> 0xff"
  shows "if mrt s (a div 4096) = 0xfe then add_reference_page_4k a s = Some (1, s)
    else \<exists>s' s''. add_reference_page_4k a s = Some (0, s') \<and> mrt s' (a div 4096) = mrt s (a div 4096) + 1 \<and>
      mrt s' (a div 4096) \<noteq> 0xff \<and>
      decrease_reference_page_4k a s' = Some (mrt s (a div 4096), s'') \<and> mrt s'' = mrt s \<and> pool_inv s''"
proof (cases "mrt s (a div 4096) = 0xfe")
  case True
  then show ?thesis by (simp add: add_reference_page_4k_def)
next
  case False
  let ?k = "a div 4096"
  define s' where "s' = s\<lparr>mrt := (mrt s)(?k := mrt s ?k + 1)\<rparr>"
  have add: "add_reference_page_4k a s = Some (0, s')"
    using assms(5,6) False by (simp add: add_reference_page_4k_def s'_def Let_def)
  have nz: "mrt s ?k + 1 \<noteq> 0"
  proof
    assume "mrt s ?k + 1 = 0"
    then have "mrt s ?k = - 1" by (simp add: add_eq_0_iff2)
    then show False using assms(6) by simp
  qed
  have nf: "mrt s ?k + 1 \<noteq> 0xff"
  proof
    assume "mrt s ?k + 1 = 0xff"
    then have "mrt s ?k = 0xff - 1" by (simp only: eq_diff_eq)
    then show False using False by simp
  qed
  have "pai_ok (mrt s') q \<longleftrightarrow> pai_ok (mrt s) q" for q
    using assms(5) nz by (intro pai_ok_cong) (auto simp: s'_def)
  then have inv: "pool_inv s'" using assms(1) by (simp add: pool_inv_def s'_def)
  have v: "mrt s' ?k = mrt s ?k + 1" "p \<in> set (pais s')" using assms(2) by (simp_all add: s'_def)
  obtain s'' where s'': "decrease_reference_page_4k a s' = Some (mrt s' ?k - 1, s'')" "pool_inv s''"
      "mrt s'' = (mrt s')(?k := mrt s' ?k - 1)"
    using decrease_ok [OF inv v(2) assms(3,4)] v(1) nz nf by auto
  have "mrt s'' = mrt s" using s''(3) by (auto simp: s'_def)
  then show ?thesis using False add v(1) nf s''(1,2) by auto
qed

theorem reference_count_roundtrip_witness:
  "\<exists>s'. add_reference_page_4k 0x1000 (small_pool\<lparr>mrt := (\<lambda>_. 1),
      pais := [\<lparr>spa = 0x1000, epa = 0x4000, fpp = 0, nfpa = 0\<rparr>]\<rparr>) = Some (0, s') \<and> mrt s' 1 = 2"
proof -
  let ?s = "small_pool\<lparr>mrt := (\<lambda>_. 1), pais := [\<lparr>spa = 0x1000, epa = 0x4000, fpp = 0, nfpa = 0\<rparr>]\<rparr>"
  have "pool_inv ?s" by (simp add: pool_inv_def pai_ok_def free_pages_def small_pool_def)
  from reference_count_roundtrip [OF this, of "\<lparr>spa = 0x1000, epa = 0x4000, fpp = 0, nfpa = 0\<rparr>" "0x1000"]
  show ?thesis by (auto simp: pai_pages_def)
qed

end
