(* ===== verification/PageTable.thy ===== *)
theory PageTable
  imports PageAlloc
begin

text \<open>
  The page tables (\<open>src/mm/mm.c\<close> from \<open>set_kernel_area\<close> on).  The state is the page allocator and the
  physical memory, as an array of 64-bit words: a table is a frame of 512 words, and \<open>table[i]\<close> of the
  table in frame \<open>t\<close> is the word \<open>512 * t + i\<close>, so that an index out of range reaches the next frame as
  it does in C.  The kernel reaches physical memory through its direct map (\<open>easy_phy2linear\<close>); tables are
  therefore named by their frame.  \<open>None\<close> is \<open>halt()\<close>.  The page allocator serves \<open>kmalloc(4096)\<close>
  (\<open>kmalloc\<close> hands sizes above 2048 and up to 4096 to \<open>alloc_page_4k\<close>) and \<open>kfree\<close> of a direct-map
  address drops the reference of the page.  TLB invalidation has no effect on this state.
\<close>

unbundle bit_operations_syntax

section \<open>State and constants\<close>

type_synonym pte = "64 word"

record vm =
  pg :: pool
  qw :: "nat \<Rightarrow> pte"

definition VIRTUAL_ADDR_0 :: nat where "VIRTUAL_ADDR_0 = 0xffff800000000000"
definition PAGE_PRESENT :: pte where "PAGE_PRESENT = 1"
definition PAGE_BIG_ENTRY :: pte where "PAGE_BIG_ENTRY = 0x80"
definition PAGE_KERNEL_4K :: pte where "PAGE_KERNEL_4K = 0x103"
definition PAGE_KERNEL_2M :: pte where "PAGE_KERNEL_2M = 0x183"
definition PAGE_USER_4K :: pte where "PAGE_USER_4K = 7"
definition PAGE_USER_4K_COPY_ON_WRITE :: pte where "PAGE_USER_4K_COPY_ON_WRITE = 5"
definition PAGE_IO :: pte where "PAGE_IO = 0x119"

definition present :: "pte \<Rightarrow> bool" where "present e \<longleftrightarrow> e AND PAGE_PRESENT \<noteq> 0"
definition big :: "pte \<Rightarrow> bool" where "big e \<longleftrightarrow> e AND PAGE_BIG_ENTRY \<noteq> 0"

text \<open>The frame an entry points to, \<open>(e & 0xfffffffffffff000) >> 12\<close>.\<close>

definition frame_of :: "pte \<Rightarrow> nat" where "frame_of e = unat (drop_bit 12 e)"

definition entry :: "vm \<Rightarrow> nat \<Rightarrow> nat \<Rightarrow> pte" where "entry s t i = qw s (512 * t + i)"

definition set_entry :: "nat \<Rightarrow> nat \<Rightarrow> pte \<Rightarrow> vm \<Rightarrow> vm" where
  "set_entry t i e s = s\<lparr>qw := (qw s)(512 * t + i := e)\<rparr>"

text \<open>\<open>memset(page, 0, 4096)\<close> and \<open>memcpy(to, from, 4096)\<close> on whole frames.\<close>

definition zero_page :: "nat \<Rightarrow> vm \<Rightarrow> vm" where
  "zero_page t s = s\<lparr>qw := (\<lambda>a. if a div 512 = t then 0 else qw s a)\<rparr>"

definition copy_page :: "nat \<Rightarrow> nat \<Rightarrow> vm \<Rightarrow> vm" where
  "copy_page to from s = s\<lparr>qw := (\<lambda>a. if a div 512 = to then qw s (512 * from + a mod 512) else qw s a)\<rparr>"

definition vm_alloc :: "vm \<Rightarrow> (nat \<times> vm) option" where
  "vm_alloc s = map_option (\<lambda>(a, p). (a, s\<lparr>pg := p\<rparr>)) (alloc_page_4k (pg s))"

section \<open>Mapping single pages\<close>

definition layers :: "nat \<Rightarrow> nat list" where
  "layers vir =
     [if vir \<ge> VIRTUAL_ADDR_0 then (vir - VIRTUAL_ADDR_0) div 2 ^ 39 + 256 else vir div 2 ^ 39,
      vir div 2 ^ 30 mod 512, vir div 2 ^ 21 mod 512, vir div 2 ^ 12 mod 512]"

text \<open>The loop that goes down the tables and allocates the missing ones.\<close>

fun walk_make :: "pte \<Rightarrow> nat list \<Rightarrow> nat \<Rightarrow> vm \<Rightarrow> (nat \<times> vm) option" where
  "walk_make dir [] t s = Some (t, s)"
| "walk_make dir (l # ls) t s =
     (if present (entry s t l)
      then if big (entry s t l) then None else walk_make dir ls (frame_of (entry s t l)) s
      else do { (temp, s) \<leftarrow> vm_alloc s;
                let s = set_entry t l (of_nat temp OR dir) s;
                let s = zero_page (temp div 4096) s;
                walk_make dir ls (temp div 4096) s })"

definition page_types :: "nat \<Rightarrow> pte \<Rightarrow> pte \<times> pte" where
  "page_types type usr_define =
     (if type = 0 then (PAGE_KERNEL_4K, PAGE_KERNEL_4K)
      else if type = 1 then (PAGE_USER_4K, PAGE_USER_4K)
      else if type = 2 then (PAGE_USER_4K_COPY_ON_WRITE, PAGE_USER_4K)
      else (take_bit 16 usr_define, PAGE_KERNEL_4K))"

definition put_page_4k_locked :: "nat \<Rightarrow> nat \<Rightarrow> nat \<Rightarrow> nat \<Rightarrow> pte \<Rightarrow> vm \<Rightarrow> vm option" where
  "put_page_4k_locked phy vir ptable type usr_define s =
     (if vir mod 4096 \<noteq> 0 then None
      else let (item, dir) = page_types type usr_define; layer = layers vir in
        do { (t, s) \<leftarrow> walk_make dir (take 3 layer) ptable s;
             if present (entry s t (layer ! 3)) then None
             else Some (set_entry t (layer ! 3) (of_nat phy OR item) s) })"

definition put_page_4k :: "nat \<Rightarrow> nat \<Rightarrow> nat \<Rightarrow> nat \<Rightarrow> vm \<Rightarrow> vm option" where
  "put_page_4k phy vir ptable type s = put_page_4k_locked phy vir ptable type 0 s"

fun exist_walk :: "nat list \<Rightarrow> nat \<Rightarrow> vm \<Rightarrow> bool" where
  "exist_walk [] t s = True"
| "exist_walk (l # ls) t s =
     (if \<not> present (entry s t l) then False
      else if ls \<noteq> [] \<and> big (entry s t l) then True
      else exist_walk ls (frame_of (entry s t l)) s)"

definition exist_page_4k :: "nat \<Rightarrow> nat \<Rightarrow> vm \<Rightarrow> bool option" where
  "exist_page_4k vir ptable s = (if vir mod 4096 \<noteq> 0 then None else Some (exist_walk (layers vir) ptable s))"

fun walk_find :: "nat list \<Rightarrow> nat \<Rightarrow> vm \<Rightarrow> nat option" where
  "walk_find [] t s = Some t"
| "walk_find (l # ls) t s =
     (if present (entry s t l) \<and> \<not> big (entry s t l) then walk_find ls (frame_of (entry s t l)) s else None)"

definition rm_page_4k :: "nat \<Rightarrow> nat \<Rightarrow> vm \<Rightarrow> vm option" where
  "rm_page_4k vir ptable s =
     (if vir mod 4096 \<noteq> 0 then None
      else do { t \<leftarrow> walk_find (take 3 (layers vir)) ptable s;
                if \<not> present (entry s t (layers vir ! 3)) then None
                else Some (set_entry t (layers vir ! 3) 0 s) })"

text \<open>\<open>put_page_2M\<close> clears a new table before it links it, and overwrites the last entry whatever it is.\<close>

fun walk_make_2M :: "nat list \<Rightarrow> nat \<Rightarrow> vm \<Rightarrow> (nat \<times> vm) option" where
  "walk_make_2M [] t s = Some (t, s)"
| "walk_make_2M (l # ls) t s =
     (if present (entry s t l)
      then if big (entry s t l) then None else walk_make_2M ls (frame_of (entry s t l)) s
      else do { (temp, s) \<leftarrow> vm_alloc s;
                let s = zero_page (temp div 4096) s;
                let s = set_entry t l (of_nat temp OR PAGE_KERNEL_4K) s;
                walk_make_2M ls (temp div 4096) s })"

definition put_page_2M :: "nat \<Rightarrow> nat \<Rightarrow> nat \<Rightarrow> vm \<Rightarrow> vm option" where
  "put_page_2M phy vir ptable s =
     (if vir mod 0x200000 \<noteq> 0 \<or> phy mod 0x200000 \<noteq> 0 then None
      else do { (t, s) \<leftarrow> walk_make_2M (take 2 (layers vir)) ptable s;
                Some (set_entry t (layers vir ! 2) (of_nat phy OR PAGE_KERNEL_2M) s) })"

text \<open>\<open>mem_linear2phy_get\<close> (\<open>src/mm/slab.c\<close>) masks table addresses with \<open>~0x1ff\<close> and maps a new user page
  where there is none.\<close>

definition SLAB_START_32 :: nat where "SLAB_START_32 = VIRTUAL_ADDR_0 + 2 * 2 ^ 39"

definition table_word :: "vm \<Rightarrow> pte \<Rightarrow> nat \<Rightarrow> pte" where
  "table_word s e i = qw s (unat (e AND 0xFFFFFFFFFFFFFE00) div 8 + i)"

definition mem_linear2phy_get :: "nat \<Rightarrow> nat \<Rightarrow> vm \<Rightarrow> (nat \<times> vm) option" where
  "mem_linear2phy_get addr cr3 s =
     (if addr < SLAB_START_32 \<and> addr \<ge> VIRTUAL_ADDR_0 then Some (addr - VIRTUAL_ADDR_0, s)
      else
        let l = layers addr;
            reget = do { (phy, s) \<leftarrow> vm_alloc s;
                         s \<leftarrow> put_page_4k phy (addr - addr mod 4096) cr3 1 s;
                         Some (phy, s) };
            e1 = entry s cr3 (l ! 0)
        in if \<not> present e1 then reget
           else let e2 = table_word s e1 (l ! 1) in
             if \<not> present e2 \<or> big e2 then reget
             else let e3 = table_word s e2 (l ! 2) in
               if \<not> present e3 \<or> big e3 then reget
               else let e4 = table_word s e3 (l ! 3) in
                 if \<not> present e4 then reget
                 else Some (unat (e4 AND 0xFFFFFFFFFFFFF000) + addr mod 4096, s))"

section \<open>The kernel half\<close>

definition SLAB_START_ID_IN_PML4 :: nat where "SLAB_START_ID_IN_PML4 = 258"
definition NUMBER_OF_OTHER_IN_PML4 :: nat where "NUMBER_OF_OTHER_IN_PML4 = 9"

fun map_2M_from :: "nat \<Rightarrow> nat list \<Rightarrow> vm \<Rightarrow> vm option" where
  "map_2M_from ptable [] s = Some s"
| "map_2M_from ptable (i # is) s =
     put_page_2M (i * 2 ^ 21) (i * 2 ^ 21 + VIRTUAL_ADDR_0) ptable s \<bind> map_2M_from ptable is"

fun add_top_tables :: "nat \<Rightarrow> nat list \<Rightarrow> vm \<Rightarrow> vm option" where
  "add_top_tables ptable [] s = Some s"
| "add_top_tables ptable (i # is) s = do {
     (phy, s) \<leftarrow> vm_alloc s;
     let s = zero_page (phy div 4096) s;
     add_top_tables ptable is (set_entry ptable i (of_nat phy OR PAGE_KERNEL_4K) s) }"

definition set_kernel_area :: "nat \<Rightarrow> vm \<Rightarrow> vm option" where
  "set_kernel_area vir_ptable4 s = do {
     s \<leftarrow> map_2M_from vir_ptable4 [0..<(hpa (pg s) + 0x1fffff) div 2 ^ 21] s;
     add_top_tables vir_ptable4 [SLAB_START_ID_IN_PML4..<SLAB_START_ID_IN_PML4 + NUMBER_OF_OTHER_IN_PML4] s }"

section \<open>Copying and freeing address spaces\<close>

text \<open>\<open>kfree\<close> of a table or page, which is an address of the direct map.  The direct map ends \<open>2 ^ 40\<close> bytes above
  \<open>VIRTUAL_ADDR_0\<close>, where the slab areas start; \<open>kfree\<close> takes an address from there on for a slab.  This branch is
  left out, so the definition is the code's for machines with at most 1 TiB of physical memory.\<close>

definition kfree_page :: "nat \<Rightarrow> vm \<Rightarrow> vm option" where
  "kfree_page t s = map_option (\<lambda>(_, p). s\<lparr>pg := p\<rparr>) (decrease_reference_page_4k (t * 4096) (pg s))"

text \<open>The loops over the entries of a table; \<open>n\<close> is the number of levels below the table, so that
  \<open>level = 3 - n\<close> in the source.\<close>

fun each_entry :: "(nat \<Rightarrow> vm \<Rightarrow> vm option) \<Rightarrow> nat list \<Rightarrow> vm \<Rightarrow> vm option" where
  "each_entry f [] s = Some s"
| "each_entry f (i # is) s = f i s \<bind> each_entry f is"

fun free_pagetable_level :: "nat \<Rightarrow> nat \<Rightarrow> vm \<Rightarrow> vm option" where
  "free_pagetable_level 0 t s =
     each_entry (\<lambda>i s. if present (entry s t i) then kfree_page (frame_of (entry s t i)) s else Some s) [0..<512] s"
| "free_pagetable_level (Suc n) t s =
     each_entry (\<lambda>i s. if present (entry s t i)
                        then free_pagetable_level n (frame_of (entry s t i)) s \<bind> kfree_page (frame_of (entry s t i))
                        else Some s) [0..<512] s"

definition free_ptable_and_mem :: "nat \<Rightarrow> nat \<Rightarrow> vm \<Rightarrow> vm option" where
  "free_ptable_and_mem vir_ptable4 pml4 s =
     (if pml4 = vir_ptable4 then Some s
      else do {
        s \<leftarrow> each_entry (\<lambda>i s. if present (entry s pml4 i)
               then do { let pdpt = frame_of (entry s pml4 i);
                         s \<leftarrow> free_pagetable_level 2 pdpt s;
                         s \<leftarrow> kfree_page pdpt s;
                         Some (set_entry pml4 i 0 s) }
               else Some s) [0..<256] s;
        kfree_page pml4 s })"

text \<open>One entry that leads to a lower table: the table is made if the target has none, then filled.\<close>

definition copy_dir :: "(nat \<Rightarrow> nat \<Rightarrow> vm \<Rightarrow> vm option) \<Rightarrow> nat \<Rightarrow> nat \<Rightarrow> nat \<Rightarrow> vm \<Rightarrow> vm option" where
  "copy_dir below src dst i s =
     (let src_pte = entry s src i in
      if \<not> present src_pte then Some (set_entry dst i 0 s)
      else if big src_pte then None
      else do {
        s \<leftarrow> (if \<not> present (entry s dst i)
              then do { (a, s) \<leftarrow> vm_alloc s;
                        let s = zero_page (a div 4096) s;
                        Some (set_entry dst i (of_nat a OR (src_pte AND 0xfff)) s) }
              else Some s);
        below (frame_of src_pte) (frame_of (entry s dst i)) s })"

definition copy_leaf :: "nat \<Rightarrow> nat \<Rightarrow> nat \<Rightarrow> vm \<Rightarrow> vm option" where
  "copy_leaf src dst i s =
     (let src_pte = entry s src i in
      if \<not> present src_pte then Some (set_entry dst i 0 s)
      else if big src_pte then None
      else do { (a, s) \<leftarrow> vm_alloc s;
                let s = copy_page (a div 4096) (frame_of src_pte) s;
                Some (set_entry dst i (of_nat a OR (src_pte AND 0xfff)) s) })"

fun copy_user_pagetable :: "nat \<Rightarrow> nat \<Rightarrow> nat \<Rightarrow> vm \<Rightarrow> vm option" where
  "copy_user_pagetable 0 src dst s = each_entry (copy_leaf src dst) [0..<512] s"
| "copy_user_pagetable (Suc n) src dst s = each_entry (copy_dir (copy_user_pagetable n) src dst) [0..<512] s"

definition copy_pagetable_and_mem :: "nat \<Rightarrow> nat \<Rightarrow> vm \<Rightarrow> vm option" where
  "copy_pagetable_and_mem dest source s =
     (let s = fold (\<lambda>i s. set_entry dest i (entry s source i) s) [256..<512] s
      in each_entry (copy_dir (copy_user_pagetable 2) source dest) [0..<256] s)"

section \<open>Device memory\<close>

definition IO_REMAP_START :: nat where "IO_REMAP_START = VIRTUAL_ADDR_0 + 10 * 2 ^ 39"
definition IO_REMAP_END :: nat where "IO_REMAP_END = VIRTUAL_ADDR_0 + 11 * 2 ^ 39"

text \<open>The search for \<open>page_num\<close> consecutive unmapped pages, with \<open>free_page_num\<close> found so far from
  \<open>start_page\<close> on.\<close>

function remap_scan :: "nat \<Rightarrow> nat \<Rightarrow> nat \<Rightarrow> nat \<Rightarrow> nat \<Rightarrow> vm \<Rightarrow> nat option" where
  "remap_scan ptable page_num page start_page free_page_num s =
     (if page < IO_REMAP_END
      then if \<not> exist_walk (layers page) ptable s
           then let start_page = (if free_page_num = 0 then page else start_page); n = free_page_num + 1
                in if n = page_num then Some start_page
                   else remap_scan ptable page_num (page + 4096) start_page n s
           else remap_scan ptable page_num (page + 4096) start_page 0 s
      else None)"
  by pat_completeness auto
termination by (relation "measure (\<lambda>(t, n, page, st, k, s). IO_REMAP_END - page)") auto

declare remap_scan.simps [simp del]

fun remap_pages :: "nat \<Rightarrow> nat \<Rightarrow> nat \<Rightarrow> nat list \<Rightarrow> vm \<Rightarrow> vm option" where
  "remap_pages ptable phy vir [] s = Some s"
| "remap_pages ptable phy vir (i # is) s =
     put_page_4k_locked (phy + i * 4096) (vir + i * 4096) ptable 3 PAGE_IO s \<bind> remap_pages ptable phy vir is"

definition io_remap :: "nat \<Rightarrow> nat \<Rightarrow> nat \<Rightarrow> vm \<Rightarrow> (nat \<times> vm) option" where
  "io_remap vir_ptable4 phy_addr sz s =
     (let offset = phy_addr mod 4096; page_num = u64 (sz + offset + 4095) div 4096
      in case remap_scan vir_ptable4 page_num IO_REMAP_START IO_REMAP_START 0 s of
           None \<Rightarrow> Some (0, s)
         | Some start_page \<Rightarrow> do {
             s \<leftarrow> remap_pages vir_ptable4 (phy_addr - offset) start_page [0..<page_num] s;
             Some (start_page + offset, s) })"

fun unmap_pages :: "nat \<Rightarrow> nat \<Rightarrow> nat list \<Rightarrow> vm \<Rightarrow> vm option" where
  "unmap_pages ptable vir [] s = Some s"
| "unmap_pages ptable vir (i # is) s = rm_page_4k (vir + i * 4096) ptable s \<bind> unmap_pages ptable vir is"

definition io_unmap :: "nat \<Rightarrow> nat \<Rightarrow> nat \<Rightarrow> vm \<Rightarrow> vm option" where
  "io_unmap vir_ptable4 vir_addr sz s =
     (let offset = vir_addr mod 4096; page_num = u64 (sz + offset + 4095) div 4096
      in unmap_pages vir_ptable4 (vir_addr - offset) [0..<page_num] s)"

end
