(* ===== verification/Paging.thy ===== *)
theory Paging
  imports PageTable
begin

text \<open>
  Correctness of mapping and unmapping.  \<open>xlate\<close> is the walk of the processor, the specification; \<open>tbl\<close>
  gives the table a path of indices leads to.  The tables of an address space form a tree whose frames are
  in use (\<open>pt_inv\<close>), so a frame from the allocator is not part of it.
\<close>

unbundle bit_operations_syntax

section \<open>Entries\<close>

lemma present_bit: "present e \<longleftrightarrow> bit e 0"
  by (simp add: present_def PAGE_PRESENT_def and_one_eq odd_iff_mod_2_eq_one [symmetric] bit_0)

lemma big_bit: "big e \<longleftrightarrow> bit e 7"
proof -
  have "PAGE_BIG_ENTRY = 2 ^ 7" by (simp add: PAGE_BIG_ENTRY_def)
  then show ?thesis by (metis big_def and_exp_eq_0_iff_not_bit)
qed

lemma present_0 [simp]: "\<not> present 0" by (simp add: present_bit)

lemma entry_set_entry: "i < 512 \<Longrightarrow> j < 512 \<Longrightarrow> entry (set_entry t i e s) u j = (if u = t \<and> j = i then e else entry s u j)"
proof -
  assume "i < 512" "j < 512"
  moreover from this have "512 * u + j = 512 * t + i \<longleftrightarrow> u = t \<and> j = i"
    by (metis div_mult_self4 div_less add_0_right mod_mult_self4 mod_less zero_neq_numeral)
  ultimately show ?thesis by (auto simp: entry_def set_entry_def)
qed

lemma entry_zero_page: "j < 512 \<Longrightarrow> entry (zero_page f s) u j = (if u = f then 0 else entry s u j)"
  by (auto simp: entry_def zero_page_def)

lemma pg_upd [simp]: "pg (set_entry t i e s) = pg s" "pg (zero_page t s) = pg s"
  by (simp_all add: set_entry_def zero_page_def)

lemma entry_pg [simp]: "entry (s\<lparr>pg := p\<rparr>) = entry s"
  by (simp add: fun_eq_iff entry_def)

text \<open>An entry made of a page address and flags.\<close>

lemma frame_of_entry:
  assumes "a mod 4096 = 0" "a < 2 ^ 64" "drop_bit 12 fl = 0"
  shows "frame_of (of_nat a OR fl) = a div 4096"
proof -
  have "drop_bit 12 (of_nat a OR fl) = drop_bit 12 (of_nat a :: pte)" using assms(3) by (simp add: drop_bit_or)
  moreover have "unat (drop_bit 12 (of_nat a :: pte)) = drop_bit 12 (unat (of_nat a :: pte))" by (simp add: unat_drop_bit_eq)
  moreover have "unat (of_nat a :: pte) = a" using assms(2) by (simp add: unat_of_nat take_bit_nat_eq_self)
  ultimately show ?thesis by (simp add: frame_of_def drop_bit_eq_div)
qed

lemma low_bit_entry:
  assumes "a mod 4096 = 0" "n < 12"
  shows "bit (of_nat a OR fl :: pte) n \<longleftrightarrow> bit fl n"
proof -
  have "even (a div 2 ^ n)"
  proof -
    obtain k where k: "a = 4096 * k" using assms(1) by auto
    have "2 ^ n * (2 * 2 ^ (11 - n)) = (4096 :: nat)" using assms(2)
      by (simp flip: power_Suc power_add)
    then have "a = 2 ^ n * (2 * (2 ^ (11 - n) * k))" using k by (metis mult.assoc)
    then have "a div 2 ^ n = 2 * (2 ^ (11 - n) * k)" by simp
    then show ?thesis by simp
  qed
  then have "\<not> bit a n" by (simp add: bit_iff_odd)
  then have "\<not> bit (of_nat a :: pte) n" by (simp only: bit_of_nat_iff simp_thms)
  then show ?thesis by (simp add: bit_or_iff)
qed

section \<open>Paths and translation\<close>

fun tbl :: "vm \<Rightarrow> nat \<Rightarrow> nat list \<Rightarrow> nat option" where
  "tbl s t [] = Some t"
| "tbl s t (l # ls) =
     (if present (entry s t l) \<and> \<not> big (entry s t l) then tbl s (frame_of (entry s t l)) ls else None)"

text \<open>The walk of the processor: the entry that maps the page, and the indices it does not use.\<close>

fun xlate :: "vm \<Rightarrow> nat \<Rightarrow> nat list \<Rightarrow> (pte \<times> nat list) option" where
  "xlate s t [] = None"
| "xlate s t (l # ls) =
     (if \<not> present (entry s t l) then None
      else if ls = [] \<or> big (entry s t l) then Some (entry s t l, ls)
      else xlate s (frame_of (entry s t l)) ls)"

definition indices :: "nat list \<Rightarrow> bool" where "indices p \<longleftrightarrow> (\<forall>i \<in> set p. i < 512)"

lemma indices_simps [simp]: "indices []" "indices (i # p) \<longleftrightarrow> i < 512 \<and> indices p" "indices (p @ q) \<longleftrightarrow> indices p \<and> indices q"
  by (auto simp: indices_def)

lemma tbl_append: "tbl s t (p @ q) = tbl s t p \<bind> (\<lambda>u. tbl s u q)"
  by (induction p arbitrary: t) auto

lemma xlate_append: "tbl s t p = Some u \<Longrightarrow> q \<noteq> [] \<Longrightarrow> xlate s t (p @ q) = xlate s u q"
  by (induction p arbitrary: t) (auto split: if_splits)

lemma walk_find_tbl: "walk_find ls t s = tbl s t ls"
  by (induction ls arbitrary: t) auto

lemma exist_walk_xlate: "ls \<noteq> [] \<Longrightarrow> exist_walk ls t s \<longleftrightarrow> xlate s t ls \<noteq> None"
proof (induction ls arbitrary: t)
  case (Cons l ls)
  then show ?case by (cases ls) auto
qed simp

lemma walk_pg [simp]: "tbl (s\<lparr>pg := p\<rparr>) = tbl s" "xlate (s\<lparr>pg := p\<rparr>) = xlate s"
proof -
  have "tbl (s\<lparr>pg := p\<rparr>) x y = tbl s x y" "xlate (s\<lparr>pg := p\<rparr>) x y = xlate s x y" for x y
    by (induction y arbitrary: x) auto
  then show "tbl (s\<lparr>pg := p\<rparr>) = tbl s" "xlate (s\<lparr>pg := p\<rparr>) = xlate s" by (auto simp: fun_eq_iff)
qed

text \<open>A translation depends only on the entries along its path.\<close>

lemma xlate_cong:
  assumes "\<And>k u. k < length v \<Longrightarrow> tbl s t (take k v) = Some u \<Longrightarrow> entry s' u (v ! k) = entry s u (v ! k)"
  shows "xlate s' t v = xlate s t v"
  using assms
proof (induction v arbitrary: t)
  case (Cons l ls)
  have e: "entry s' t l = entry s t l" using Cons.prems [of 0 t] by simp
  show ?case
  proof (cases "present (entry s t l) \<and> \<not> big (entry s t l)")
    case True
    have "xlate s' (frame_of (entry s t l)) ls = xlate s (frame_of (entry s t l)) ls"
      by (rule Cons.IH) (use Cons.prems [of "Suc _"] True in auto)
    then show ?thesis using e by simp
  qed (auto simp: e)
qed simp

definition pt_tree :: "vm \<Rightarrow> nat \<Rightarrow> bool" where
  "pt_tree s r \<longleftrightarrow> (\<forall>p q f. indices p \<and> indices q \<and> length p \<le> 3 \<and> length q \<le> 3 \<and> tbl s r p = Some f \<and> tbl s r q = Some f \<longrightarrow> p = q)"

definition pt_used :: "vm \<Rightarrow> nat \<Rightarrow> bool" where
  "pt_used s r \<longleftrightarrow> (\<forall>p f. indices p \<and> length p \<le> 3 \<and> tbl s r p = Some f \<longrightarrow> mrt (pg s) f \<noteq> 0)"

definition vm_ok :: "vm \<Rightarrow> bool" where
  "vm_ok s \<longleftrightarrow> pool_inv (pg s) \<and> hpa (pg s) \<le> 2 ^ 52"

definition pt_inv :: "vm \<Rightarrow> nat \<Rightarrow> bool" where
  "pt_inv s r \<longleftrightarrow> vm_ok s \<and> pt_tree s r \<and> pt_used s r"

lemma pt_treeD: "pt_tree s r \<Longrightarrow> indices p \<Longrightarrow> indices q \<Longrightarrow> length p \<le> 3 \<Longrightarrow> length q \<le> 3 \<Longrightarrow>
    tbl s r p = Some f \<Longrightarrow> tbl s r q = Some f \<Longrightarrow> p = q"
  unfolding pt_tree_def by blast

lemma pt_usedD: "pt_used s r \<Longrightarrow> indices p \<Longrightarrow> length p \<le> 3 \<Longrightarrow> tbl s r p = Some f \<Longrightarrow> mrt (pg s) f \<noteq> 0"
  unfolding pt_used_def by blast

section \<open>Linking a new table\<close>

definition link :: "nat \<Rightarrow> nat \<Rightarrow> pte \<Rightarrow> nat \<Rightarrow> vm \<Rightarrow> vm" where
  "link t l e f s = zero_page f (set_entry t l e s)"

lemma entry_link: "l < 512 \<Longrightarrow> j < 512 \<Longrightarrow> entry (link t l e f s) u j =
    (if u = f then 0 else if u = t \<and> j = l then e else entry s u j)"
  by (simp add: link_def entry_zero_page entry_set_entry)

lemma tbl_link:
  assumes tree: "pt_tree s r" and P: "indices P" "length P \<le> 2" "tbl s r P = Some t" and l: "l < 512"
    and np: "\<not> present (entry s t l)" and e: "present e" "\<not> big e" "frame_of e = f"
    and fresh: "\<And>p. indices p \<Longrightarrow> length p \<le> 3 \<Longrightarrow> tbl s r p \<noteq> Some f"
    and p: "indices p" "length p \<le> 3"
  shows "tbl (link t l e f s) r p =
    (if p = P @ [l] then Some f else if \<exists>w. p = P @ l # w then None else tbl s r p)"
  using p
proof (induction p rule: rev_induct)
  case (snoc i q)
  let ?s = "link t l e f s"
  have q: "indices q" "i < 512" "length q \<le> 2" using snoc.prems by auto
  have IH: "tbl ?s r q = (if q = P @ [l] then Some f else if \<exists>w. q = P @ l # w then None else tbl s r q)"
    using snoc q by simp
  consider (new) "q = P @ [l]" | (below) w where "q = P @ l # w" "w \<noteq> []" | (other) "\<nexists>w. q = P @ l # w" by blast
  then show ?case
  proof cases
    case new
    then have "tbl ?s r q = Some f" using IH by simp
    then have "tbl ?s r (q @ [i]) = None" using q l by (simp add: tbl_append [of ?s r q] entry_link)
    then show ?thesis using new by auto
  next
    case below
    then have "tbl ?s r q = None" using IH by simp
    then have "tbl ?s r (q @ [i]) = None" by (simp add: tbl_append [of ?s r q])
    then show ?thesis using below by auto
  next
    case other
    then have IH': "tbl ?s r q = tbl s r q" using IH by auto
    have iff: "(\<exists>w. q @ [i] = P @ l # w) \<longleftrightarrow> q = P \<and> i = l"
      using other by (metis append_Cons append_Nil append_eq_append_conv2 append_self_conv butlast.simps(2) butlast_append butlast_snoc last_snoc list.distinct(1) snoc_eq_iff_butlast)
    show ?thesis
    proof (cases "tbl s r q")
      case None
      then show ?thesis using IH' iff P(3) by (auto simp: tbl_append)
    next
      case (Some g)
      have "g \<noteq> f" using fresh [of q] q Some by auto
      moreover have "g = t \<longleftrightarrow> q = P" using pt_treeD [OF tree q(1) P(1) _ _ Some] P q Some by auto
      ultimately have ent: "entry ?s g i = (if q = P \<and> i = l then e else entry s g i)" using q l by (simp add: entry_link)
      show ?thesis
      proof (cases "q = P \<and> i = l")
        case True
        then show ?thesis using IH' Some ent e by (simp add: tbl_append)
      next
        case False
        then have "entry ?s g i = entry s g i" using ent by auto
        then have "tbl ?s r (q @ [i]) = tbl s r (q @ [i])" using IH' Some
          by (cases "present (entry s g i) \<and> \<not> big (entry s g i)") (simp_all add: tbl_append)
        then show ?thesis using False iff by auto
      qed
    qed
  qed
qed simp


lemma xlate_link:
  assumes tree: "pt_tree s r" and P: "indices P" "length P \<le> 2" "tbl s r P = Some t" and l: "l < 512"
    and np: "\<not> present (entry s t l)" and e: "present e" "\<not> big e" "frame_of e = f"
    and fresh: "\<And>p. indices p \<Longrightarrow> length p \<le> 3 \<Longrightarrow> tbl s r p \<noteq> Some f"
    and v: "indices v" "length v = 4"
  shows "xlate (link t l e f s) r v = xlate s r v"
proof (cases "\<exists>w. v = P @ l # w")
  case True
  then obtain w where w: "v = P @ l # w" by blast
  note tl = tbl_link [OF tree P l np e fresh]
  obtain x xs where x: "w = x # xs" using w P v by (cases w) auto
  have "tbl (link t l e f s) r (P @ [l]) = Some f" using tl [of "P @ [l]"] P l by simp
  then have "xlate (link t l e f s) r (P @ [l] @ w) = xlate (link t l e f s) f w"
    using xlate_append [of _ r "P @ [l]" f w] x by simp
  also have "\<dots> = None" using x v w l by (simp add: entry_link)
  moreover have "xlate s r (P @ l # w) = None" using xlate_append [OF P(3), of "l # w"] np by simp
  ultimately show ?thesis using w by simp
next
  case False
  show ?thesis
  proof (rule xlate_cong)
    fix k u
    assume k: "k < length v" "tbl s r (take k v) = Some u"
    have iv: "indices (take k v)" "v ! k < 512" "length (take k v) \<le> 3"
      using v k(1) by (auto simp: indices_def dest: in_set_takeD)
    have "u \<noteq> f" using fresh [OF iv(1,3)] k(2) by auto
    moreover have "\<not> (u = t \<and> v ! k = l)"
    proof
      assume u: "u = t \<and> v ! k = l"
      then have "take k v = P" using pt_treeD [OF tree iv(1) P(1) iv(3) _ k(2)] P by simp
      then have "v = P @ l # drop (Suc k) v" using u id_take_nth_drop [OF k(1)] by simp
      then show False using False by blast
    qed
    ultimately show "entry (link t l e f s) u (v ! k) = entry s u (v ! k)" using l iv(2) by (auto simp: entry_link)
  qed
qed

text \<open>Writing an entry of a last-level table.\<close>

lemma tbl_leaf:
  assumes tree: "pt_tree s r" and P: "indices P" "length P = 3" "tbl s r P = Some t" and l: "l < 512"
    and p: "indices p" "length p \<le> 3"
  shows "tbl (set_entry t l e s) r p = tbl s r p"
  using p
proof (induction p rule: rev_induct)
  case (snoc i q)
  then have IH: "tbl (set_entry t l e s) r q = tbl s r q" by simp
  show ?case
  proof (cases "tbl s r q")
    case (Some g)
    have "g \<noteq> t" using pt_treeD [OF tree _ P(1) _ _ Some, of] P snoc.prems Some by fastforce
    then show ?thesis using IH Some snoc.prems l by (simp add: tbl_append entry_set_entry)
  qed (simp add: tbl_append IH)
qed simp

lemma xlate_leaf:
  assumes tree: "pt_tree s r" and P: "indices P" "length P = 3" "tbl s r P = Some t" and l: "l < 512"
    and v: "indices v" "length v = 4"
  shows "xlate (set_entry t l e s) r v = (if v = P @ [l] then (if present e then Some (e, []) else None) else xlate s r v)"
proof (cases "v = P @ [l]")
  case True
  have "tbl (set_entry t l e s) r P = Some t" using tbl_leaf [OF tree P l P(1)] P by simp
  then show ?thesis using True xlate_append [of "set_entry t l e s" r P t "[l]"] l by (simp add: entry_set_entry)
next
  case False
  have "xlate (set_entry t l e s) r v = xlate s r v"
  proof (rule xlate_cong)
    fix k u
    assume k: "k < length v" "tbl s r (take k v) = Some u"
    have iv: "indices (take k v)" "v ! k < 512" "length (take k v) \<le> 3"
      using v k(1) by (auto simp: indices_def dest: in_set_takeD)
    have "\<not> (u = t \<and> v ! k = l)"
    proof
      assume u: "u = t \<and> v ! k = l"
      then have tk: "take k v = P" using pt_treeD [OF tree iv(1) P(1) iv(3) _ k(2)] P by simp
      then have "k = 3" using P(2) k(1) by auto
      then have "v = P @ [l]" using tk u id_take_nth_drop [OF k(1)] v(2) by simp
      then show False using False by blast
    qed
    then show "entry (set_entry t l e s) u (v ! k) = entry s u (v ! k)" using l iv(2) by (auto simp: entry_set_entry)
  qed
  then show ?thesis using False by simp
qed

section \<open>Going down the tables\<close>

definition dir_flags :: "pte \<Rightarrow> bool" where
  "dir_flags d \<longleftrightarrow> drop_bit 12 d = 0 \<and> present d \<and> \<not> big d"

lemma dir_flags_simps [simp]: "dir_flags PAGE_KERNEL_4K" "dir_flags PAGE_USER_4K"
  by (simp_all add: dir_flags_def present_def big_def PAGE_KERNEL_4K_def PAGE_USER_4K_def PAGE_PRESENT_def PAGE_BIG_ENTRY_def drop_bit_eq_div)

lemma dir_entry:
  assumes "dir_flags d" "a mod 4096 = 0" "a < 2 ^ 64"
  shows "present (of_nat a OR d)" "\<not> big (of_nat a OR d)" "frame_of (of_nat a OR d) = a div 4096"
  using assms low_bit_entry [OF assms(2)] frame_of_entry [OF assms(2,3)] by (simp_all add: dir_flags_def present_bit big_bit)

definition tables :: "vm \<Rightarrow> nat \<Rightarrow> nat set" where
  "tables s r = {f. \<exists>p. indices p \<and> length p \<le> 3 \<and> tbl s r p = Some f}"

lemma vm_alloc_ok:
  assumes "vm_ok s" "0 < nfree (pg s)"
  obtains a p where "vm_alloc s = Some (a, s\<lparr>pg := p\<rparr>)" "vm_ok (s\<lparr>pg := p\<rparr>)" "a mod 4096 = 0" "a < 2 ^ 52"
    "mrt (pg s) (a div 4096) = 0" "mrt p = (mrt (pg s))(a div 4096 := 1)" "nfree p = nfree (pg s) - 1"
    "page_free (pg s) (a div 4096)" "map pai_pages (pais p) = map pai_pages (pais (pg s))"
proof -
  have inv: "pool_inv (pg s)" and h: "hpa (pg s) \<le> 2 ^ 52" using assms(1) by (auto simp: vm_ok_def)
  obtain a p where a: "alloc_page_4k (pg s) = Some (a, p)" "pool_inv p" "a mod 4096 = 0" "page_free (pg s) (a div 4096)"
      "mrt p = (mrt (pg s))(a div 4096 := 1)" "hpa p = hpa (pg s)" "nfree p = nfree (pg s) - 1" "map pai_pages (pais p) = map pai_pages (pais (pg s))"
    by (rule alloc_page_nfree [OF inv assms(2)])
  have "4096 * (a div 4096) + 4096 \<le> hpa (pg s)" by (rule page_free_below [OF inv a(4)])
  moreover have "a = 4096 * (a div 4096)" using a(3) by auto
  ultimately have "a < 2 ^ 52" using h by linarith
  moreover have "mrt (pg s) (a div 4096) = 0" using a(4) by (simp add: page_free_def)
  ultimately show ?thesis using that [of a p] a h by (simp add: vm_alloc_def vm_ok_def)
qed

text \<open>One step of the walk that links a fresh table.\<close>

lemma link_ok:
  assumes inv: "pt_inv s r" and P: "indices P" "length P \<le> 2" "tbl s r P = Some t" and l: "l < 512"
    and np: "\<not> present (entry s t l)" and d: "dir_flags d" and room: "0 < nfree (pg s)"
  obtains a s' where "(do { (temp, s) \<leftarrow> vm_alloc s; Some (temp, zero_page (temp div 4096) (set_entry t l (of_nat temp OR d) s)) }) = Some (a, s')"
    "pt_inv s' r" "tbl s' r (P @ [l]) = Some (a div 4096)" "nfree (pg s') = nfree (pg s) - 1" "mrt (pg s) (a div 4096) = 0"
    "mrt (pg s') = (mrt (pg s))(a div 4096 := 1)" "tables s' r = insert (a div 4096) (tables s r)"
    "\<And>v. indices v \<Longrightarrow> length v = 4 \<Longrightarrow> xlate s' r v = xlate s r v"
    "\<And>f j. j < 512 \<Longrightarrow> f \<notin> tables s' r \<Longrightarrow> entry s' f j = entry s f j"
proof -
  have vm: "vm_ok s" and tree: "pt_tree s r" and used: "pt_used s r" using inv by (auto simp: pt_inv_def)
  obtain a p where a: "vm_alloc s = Some (a, s\<lparr>pg := p\<rparr>)" "vm_ok (s\<lparr>pg := p\<rparr>)" "a mod 4096 = 0" "a < 2 ^ 52"
    "mrt (pg s) (a div 4096) = 0" "mrt p = (mrt (pg s))(a div 4096 := 1)" "nfree p = nfree (pg s) - 1"
    "page_free (pg s) (a div 4096)" "map pai_pages (pais p) = map pai_pages (pais (pg s))"
    by (rule vm_alloc_ok [OF vm room])
  let ?f = "a div 4096" and ?e = "of_nat a OR d :: pte"
  define s1 where "s1 = s\<lparr>pg := p\<rparr>"
  define s' where "s' = link t l ?e ?f s1"
  have tb: "tbl s1 = tbl s" "xlate s1 = xlate s" by (simp_all add: s1_def)
  have tree1: "pt_tree s1 r" using tree by (simp add: pt_tree_def tb)
  have fresh: "tbl s1 r q \<noteq> Some ?f" if "indices q" "length q \<le> 3" for q
    using pt_usedD [OF used that] a(5) by (auto simp: tb)
  have "a < 2 ^ 64" using a(4) by simp
  note e = dir_entry [OF d a(3) this]
  have P1: "tbl s1 r P = Some t" "\<not> present (entry s1 t l)" using P(3) np by (simp_all add: s1_def)
  note TL = tbl_link [OF tree1 P(1,2) P1(1) l P1(2) e fresh]
  have tl: "tbl s' r q = (if q = P @ [l] then Some ?f else if \<exists>w. q = P @ l # w then None else tbl s r q)"
    if "indices q" "length q \<le> 3" for q
    using TL [OF _ _ that] by (simp add: s'_def tb)
  have xl: "xlate s' r v = xlate s r v" if "indices v" "length v = 4" for v
    using xlate_link [OF tree1 P(1,2) P1(1) l P1(2) e fresh that] by (simp add: s'_def tb)
  have old: "\<nexists>w. q = P @ l # w" if "indices q" "length q \<le> 3" "tbl s r q = Some g" for q g
  proof
    assume "\<exists>w. q = P @ l # w"
    then show False using that(3) P(3) np by (auto simp: tbl_append)
  qed
  have pgs: "pg s' = p" by (simp add: s'_def link_def s1_def)
  have tabs: "tables s' r = insert ?f (tables s r)"
  proof (rule set_eqI)
    fix g
    have "g \<in> tables s' r" if g: "g \<in> tables s r"
    proof -
      obtain q where q: "indices q" "length q \<le> 3" "tbl s r q = Some g" using g by (auto simp: tables_def)
      then have "tbl s' r q = Some g" using tl [OF q(1,2)] old [OF q] by auto
      then show ?thesis using q by (auto simp: tables_def)
    qed
    moreover have "?f \<in> tables s' r"
      unfolding tables_def mem_Collect_eq by (rule exI [of _ "P @ [l]"]) (use tl [of "P @ [l]"] P l in auto)
    moreover have "g = ?f \<or> g \<in> tables s r" if g: "g \<in> tables s' r"
    proof -
      obtain q where q: "indices q" "length q \<le> 3" "tbl s' r q = Some g" using g by (auto simp: tables_def)
      then show ?thesis using tl [OF q(1,2)] by (auto simp: tables_def split: if_splits)
    qed
    ultimately show "g \<in> tables s' r \<longleftrightarrow> g \<in> insert ?f (tables s r)" by blast
  qed
  have inv': "pt_inv s' r"
  proof -
    have "vm_ok s'" using a(2) pgs by (simp add: vm_ok_def)
    moreover have "pt_tree s' r"
      unfolding pt_tree_def
    proof (intro allI impI, elim conjE)
      fix q q' f
      assume q: "indices q" "indices q'" "length q \<le> 3" "length q' \<le> 3" "tbl s' r q = Some f" "tbl s' r q' = Some f"
      show "q = q'"
        using q tl [OF q(1,3)] tl [OF q(2,4)] fresh [OF q(1,3)] fresh [OF q(2,4)] pt_treeD [OF tree q(1-4)]
        by (auto simp: tb split: if_splits)
    qed
    moreover have "pt_used s' r"
    proof -
      have "mrt p g \<noteq> 0" if "g \<in> tables s' r" for g
        using that tabs used a(5,6) by (auto simp: tables_def pt_used_def)
      then show ?thesis by (auto simp: pt_used_def tables_def pgs)
    qed
    ultimately show ?thesis by (simp add: pt_inv_def)
  qed
  have fr: "entry s' g j = entry s g j" if "j < 512" "g \<notin> tables s' r" for g j
  proof -
    have "t \<in> tables s r" using P by (auto simp: tables_def intro!: exI [of _ P])
    then show ?thesis using that tabs l by (auto simp: s'_def entry_link s1_def)
  qed
  show ?thesis
    by (rule that [of a s'])
      (use a inv' tl [of "P @ [l]"] P l tabs xl fr pgs in \<open>simp_all add: s'_def link_def s1_def\<close>)
qed

lemma walk_make_ok:
  assumes "pt_inv s r" "indices (P @ ls @ x)" "length (P @ ls @ x) = 4" "x \<noteq> []" "tbl s r P = Some t" "dir_flags d"
    "length ls \<le> nfree (pg s)" "xlate s r (P @ ls @ x) = None"
  shows "\<exists>t' s'. walk_make d ls t s = Some (t', s') \<and> pt_inv s' r \<and> tbl s' r (P @ ls) = Some t' \<and>
    (\<forall>v. indices v \<longrightarrow> length v = 4 \<longrightarrow> xlate s' r v = xlate s r v) \<and>
    (\<forall>k. mrt (pg s) k \<noteq> 0 \<longrightarrow> mrt (pg s') k = mrt (pg s) k) \<and>
    (\<forall>f j. j < 512 \<longrightarrow> mrt (pg s) f \<noteq> 0 \<longrightarrow> f \<notin> tables s r \<longrightarrow> f \<notin> tables s' r \<and> entry s' f j = entry s f j)"
  using assms
proof (induction ls arbitrary: P t s)
  case (Cons l ls)
  have P: "indices P" "length P \<le> 2" and l: "l < 512"
    using Cons.prems(2,3,4) by (auto simp: neq_Nil_conv)
  show ?case
  proof (cases "present (entry s t l)")
    case True
    have nb: "\<not> big (entry s t l)"
      using Cons.prems(8) xlate_append [OF Cons.prems(5), of "l # ls @ x"] True by auto
    have "tbl s r (P @ [l]) = Some (frame_of (entry s t l))" using Cons.prems(5) True nb by (simp add: tbl_append)
    from Cons.IH [OF Cons.prems(1) _ _ Cons.prems(4) this Cons.prems(6)] Cons.prems True nb show ?thesis by simp
  next
    case False
    obtain a s1 where a: "(do { (temp, s) \<leftarrow> vm_alloc s; Some (temp, zero_page (temp div 4096) (set_entry t l (of_nat temp OR d) s)) }) = Some (a, s1)"
      "pt_inv s1 r" "tbl s1 r (P @ [l]) = Some (a div 4096)" "nfree (pg s1) = nfree (pg s) - 1" "mrt (pg s) (a div 4096) = 0"
      "mrt (pg s1) = (mrt (pg s))(a div 4096 := 1)" "tables s1 r = insert (a div 4096) (tables s r)"
      "\<And>v. indices v \<Longrightarrow> length v = 4 \<Longrightarrow> xlate s1 r v = xlate s r v"
      "\<And>f j. j < 512 \<Longrightarrow> f \<notin> tables s1 r \<Longrightarrow> entry s1 f j = entry s f j"
      by (rule link_ok [OF Cons.prems(1) P Cons.prems(5) l False Cons.prems(6)]) (use Cons.prems(7) in auto)
    have run: "walk_make d (l # ls) t s = walk_make d ls (a div 4096) s1"
      using a(1) False by (auto simp: Let_def bind_eq_Some_conv)
    have "xlate s1 r ((P @ [l]) @ ls @ x) = None" using a(8) [of "P @ l # ls @ x"] Cons.prems by simp
    moreover have "length ls \<le> nfree (pg s1)" using Cons.prems(7) a(4) by simp
    ultimately have "\<exists>t' s'. walk_make d ls (a div 4096) s1 = Some (t', s') \<and> pt_inv s' r \<and> tbl s' r (P @ l # ls) = Some t' \<and>
        (\<forall>v. indices v \<longrightarrow> length v = 4 \<longrightarrow> xlate s' r v = xlate s1 r v) \<and>
        (\<forall>k. mrt (pg s1) k \<noteq> 0 \<longrightarrow> mrt (pg s') k = mrt (pg s1) k) \<and>
        (\<forall>f j. j < 512 \<longrightarrow> mrt (pg s1) f \<noteq> 0 \<longrightarrow> f \<notin> tables s1 r \<longrightarrow> f \<notin> tables s' r \<and> entry s' f j = entry s1 f j)"
      using Cons.IH [OF a(2) _ _ Cons.prems(4) a(3) Cons.prems(6)] Cons.prems(2,3) by simp
    then obtain t' s' where w: "walk_make d ls (a div 4096) s1 = Some (t', s')" "pt_inv s' r" "tbl s' r (P @ l # ls) = Some t'"
        "\<forall>v. indices v \<longrightarrow> length v = 4 \<longrightarrow> xlate s' r v = xlate s1 r v"
        "\<forall>k. mrt (pg s1) k \<noteq> 0 \<longrightarrow> mrt (pg s') k = mrt (pg s1) k"
        "\<forall>f j. j < 512 \<longrightarrow> mrt (pg s1) f \<noteq> 0 \<longrightarrow> f \<notin> tables s1 r \<longrightarrow> f \<notin> tables s' r \<and> entry s' f j = entry s1 f j"
      by blast
    have fr: "f \<notin> tables s' r \<and> entry s' f j = entry s f j" if "j < 512" "mrt (pg s) f \<noteq> 0" "f \<notin> tables s r" for f j
    proof -
      have "f \<noteq> a div 4096" using that(2) a(5) by auto
      then show ?thesis using w(6) that a(6,7,9) by simp
    qed
    have "mrt (pg s') k = mrt (pg s) k" if "mrt (pg s) k \<noteq> 0" for k
      using w(5) a(5,6) that by (metis fun_upd_apply)
    then show ?thesis using run w(1-4) a(8) fr by (intro exI [of _ t'] exI [of _ s']) simp
  qed
qed auto

lemma walk_make_mapped:
  "xlate s t (ls @ [x]) \<noteq> None \<Longrightarrow> walk_make d ls t s = Some (t', s') \<Longrightarrow> present (entry s' t' x)"
  by (induction ls arbitrary: t) (auto split: if_splits)

section \<open>Addresses\<close>

definition canonical :: "nat \<Rightarrow> bool" where
  "canonical v \<longleftrightarrow> v < 2 ^ 47 \<or> VIRTUAL_ADDR_0 \<le> v \<and> v < 2 ^ 64"

lemma length_layers [simp]: "length (layers v) = 4" by (simp add: layers_def)

lemma indices_layers [simp]:
  assumes "canonical v"
  shows "indices (layers v)"
proof -
  have "(if v \<ge> VIRTUAL_ADDR_0 then (v - VIRTUAL_ADDR_0) div 2 ^ 39 + 256 else v div 2 ^ 39) < 512"
    using assms by (auto simp: canonical_def VIRTUAL_ADDR_0_def)
  then show ?thesis by (simp add: layers_def)
qed

text \<open>The four indices determine the page of a canonical address.\<close>

lemma digits_page: "(v :: nat) div 4096 = v div 2 ^ 39 * 2 ^ 27 + v div 2 ^ 30 mod 512 * 2 ^ 18 + v div 2 ^ 21 mod 512 * 2 ^ 9 + v div 2 ^ 12 mod 512"
proof -
  have a: "v div 4096 = v div 4096 div 512 * 512 + v div 4096 mod 512" by simp
  have b: "v div 4096 div 512 = v div 2 ^ 21" "v div 2 ^ 21 div 512 = v div 2 ^ 30" "v div 2 ^ 30 div 512 = v div 2 ^ 39"
    by (simp_all add: div_mult2_eq [symmetric])
  have c: "v div 2 ^ 21 = v div 2 ^ 21 div 512 * 512 + v div 2 ^ 21 mod 512" "v div 2 ^ 30 = v div 2 ^ 30 div 512 * 512 + v div 2 ^ 30 mod 512"
    by simp_all
  show ?thesis using a b c by simp
qed

lemma top_index:
  assumes "canonical v"
  shows "VIRTUAL_ADDR_0 \<le> v \<Longrightarrow> v div 2 ^ 39 = (v - VIRTUAL_ADDR_0) div 2 ^ 39 + 33554176"
    "\<not> VIRTUAL_ADDR_0 \<le> v \<Longrightarrow> v div 2 ^ 39 < 256"
proof -
  assume "VIRTUAL_ADDR_0 \<le> v"
  then have "v = (v - VIRTUAL_ADDR_0) + 2 ^ 39 * 33554176" by (simp add: VIRTUAL_ADDR_0_def)
  then show "v div 2 ^ 39 = (v - VIRTUAL_ADDR_0) div 2 ^ 39 + 33554176"
    by (metis div_mult_self2 add.commute power_not_zero zero_neq_numeral)
next
  assume "\<not> VIRTUAL_ADDR_0 \<le> v"
  then have "v < 256 * 2 ^ 39" using assms by (simp add: canonical_def)
  then show "v div 2 ^ 39 < 256" by (simp add: less_mult_imp_div_less)
qed

lemma layers_inj:
  assumes "canonical v" "canonical w" "layers v = layers w"
  shows "v div 4096 = w div 4096"
proof -
  have "(if v \<ge> VIRTUAL_ADDR_0 then (v - VIRTUAL_ADDR_0) div 2 ^ 39 + 256 else v div 2 ^ 39) =
      (if w \<ge> VIRTUAL_ADDR_0 then (w - VIRTUAL_ADDR_0) div 2 ^ 39 + 256 else w div 2 ^ 39)"
    using assms(3) by (simp add: layers_def)
  then have top: "v div 2 ^ 39 = w div 2 ^ 39"
    using top_index [OF assms(1)] top_index [OF assms(2)] by (auto split: if_splits)
  show ?thesis using digits_page [of v] digits_page [of w] top assms(3) by (simp add: layers_def)
qed

lemma layers_split: "layers v = take 3 (layers v) @ [layers v ! 3]" by (simp add: layers_def)


section \<open>Properties\<close>

lemma item_present: "type \<le> 2 \<Longrightarrow> present (fst (page_types type u)) \<and> dir_flags (snd (page_types type u))"
proof -
  have "present PAGE_KERNEL_4K" "present PAGE_USER_4K" "present PAGE_USER_4K_COPY_ON_WRITE"
    by (simp_all add: present_def PAGE_PRESENT_def PAGE_KERNEL_4K_def PAGE_USER_4K_def PAGE_USER_4K_COPY_ON_WRITE_def)
  then show "type \<le> 2 \<Longrightarrow> ?thesis" by (auto simp: page_types_def)
qed

lemma put_page_4k_ok:
  assumes inv: "pt_inv s r" and vir: "canonical vir" "vir mod 4096 = 0" and phy: "phy mod 4096 = 0"
    and ty: "type \<le> 2" and room: "3 \<le> nfree (pg s)" and un: "xlate s r (layers vir) = None"
  obtains t s' where "put_page_4k phy vir r type s = Some s'" "pt_inv s' r"
    "tbl s' r (take 3 (layers vir)) = Some t"
    "\<And>v. indices v \<Longrightarrow> length v = 4 \<Longrightarrow> xlate s' r v =
       (if v = layers vir then Some (of_nat phy OR fst (page_types type 0), []) else xlate s r v)"
    "\<And>f j. j < 512 \<Longrightarrow> mrt (pg s) f \<noteq> 0 \<Longrightarrow> f \<notin> tables s r \<Longrightarrow> entry s' f j = entry s f j"
proof -
  let ?e = "of_nat phy OR fst (page_types type 0) :: pte" and ?ls = "take 3 (layers vir)" and ?l = "layers vir ! 3"
  have ind: "indices (?ls @ [?l])" using indices_layers [OF vir(1)] layers_split [of vir] by simp
  obtain t s1 where w: "walk_make (snd (page_types type 0)) ?ls r s = Some (t, s1)" "pt_inv s1 r" "tbl s1 r ?ls = Some t"
      "\<forall>v. indices v \<longrightarrow> length v = 4 \<longrightarrow> xlate s1 r v = xlate s r v"
      "\<forall>f j. j < 512 \<longrightarrow> mrt (pg s) f \<noteq> 0 \<longrightarrow> f \<notin> tables s r \<longrightarrow> f \<notin> tables s1 r \<and> entry s1 f j = entry s f j"
    using walk_make_ok [OF inv, of "[]" ?ls "[?l]" r "snd (page_types type 0)"] ind un item_present [OF ty] room layers_split [of vir]
    by auto
  have tree: "pt_tree s1 r" using w(2) by (simp add: pt_inv_def)
  have i3: "indices ?ls" "length ?ls = 3" "?l < 512" using ind by auto
  have np: "\<not> present (entry s1 t ?l)"
  proof -
    have "xlate s1 r (?ls @ [?l]) = None" using w(4) ind un layers_split [of vir] by simp
    then show ?thesis using xlate_append [OF w(3), of "[?l]"] by (auto split: if_splits)
  qed
  have pe: "present ?e" using low_bit_entry [OF phy, of 0] item_present [OF ty] by (simp add: present_bit)
  define s' where "s' = set_entry t ?l ?e s1"
  have run: "put_page_4k phy vir r type s = Some s'"
    using w(1) np vir(2) by (simp add: put_page_4k_def put_page_4k_locked_def Let_def split_beta s'_def)
  have tb: "tbl s' r p = tbl s1 r p" if "indices p" "length p \<le> 3" for p
    unfolding s'_def by (rule tbl_leaf [OF tree i3(1,2) w(3) i3(3) that])
  have inv': "pt_inv s' r"
    using w(2) tb by (auto simp: pt_inv_def pt_tree_def pt_used_def vm_ok_def s'_def cong: conj_cong)
  have xl: "xlate s' r v = (if v = layers vir then Some (?e, []) else xlate s r v)" if "indices v" "length v = 4" for v
    using xlate_leaf [OF tree i3(1,2) w(3) i3(3) that, of ?e] pe w(4) that layers_split [of vir] by (simp add: s'_def)
  have fr: "entry s' f j = entry s f j" if "j < 512" "mrt (pg s) f \<noteq> 0" "f \<notin> tables s r" for f j
  proof -
    have "t \<in> tables s1 r" using w(3) i3 by (auto simp: tables_def intro!: exI [of _ ?ls])
    then show ?thesis using w(5) that i3(3) by (auto simp: s'_def entry_set_entry)
  qed
  show ?thesis using that [OF run inv' _ xl fr] tb [OF i3(1)] i3(2) w(3) by simp
qed

text \<open>C36: mapping, testing and unmapping pages.  For a well-formed table, a canonical page address and enough
  free pages for the missing tables, \<open>put_page_4k\<close> halts exactly if the address is mapped already; otherwise
  the processor then translates the address to the given page with the flags of its type, every other
  address translates as before, the table stays well formed and no page in use outside the tables
  changes.  \<open>exist_page_4k\<close> answers whether an address is mapped, and \<open>rm_page_4k\<close> restores all
  translations.\<close>

theorem put_page_4k_correct:
  assumes inv: "pt_inv s r" and vir: "canonical vir" "vir mod 4096 = 0" and phy: "phy mod 4096 = 0"
    and ty: "type \<le> 2" and room: "3 \<le> nfree (pg s)"
  shows "exist_page_4k vir r s = Some (xlate s r (layers vir) \<noteq> None) \<and>
    (if xlate s r (layers vir) \<noteq> None then put_page_4k phy vir r type s = None
     else \<exists>s' s''. put_page_4k phy vir r type s = Some s' \<and> pt_inv s' r \<and>
       xlate s' r (layers vir) = Some (of_nat phy OR fst (page_types type 0), []) \<and>
       (\<forall>v. canonical v \<longrightarrow> v div 4096 \<noteq> vir div 4096 \<longrightarrow> xlate s' r (layers v) = xlate s r (layers v)) \<and>
       (\<forall>f j. j < 512 \<longrightarrow> mrt (pg s) f \<noteq> 0 \<longrightarrow> f \<notin> tables s r \<longrightarrow> entry s' f j = entry s f j) \<and>
       rm_page_4k vir r s' = Some s'' \<and> (\<forall>v. canonical v \<longrightarrow> xlate s'' r (layers v) = xlate s r (layers v)))"
proof (intro conjI)
  have ne: "layers vir \<noteq> []" by (simp add: layers_def)
  show "exist_page_4k vir r s = Some (xlate s r (layers vir) \<noteq> None)"
    using vir(2) exist_walk_xlate [OF ne] by (simp add: exist_page_4k_def)
  let ?ls = "take 3 (layers vir)" and ?l = "layers vir ! 3"
  show "if xlate s r (layers vir) \<noteq> None then put_page_4k phy vir r type s = None else
    \<exists>s' s''. put_page_4k phy vir r type s = Some s' \<and> pt_inv s' r \<and>
       xlate s' r (layers vir) = Some (of_nat phy OR fst (page_types type 0), []) \<and>
       (\<forall>v. canonical v \<longrightarrow> v div 4096 \<noteq> vir div 4096 \<longrightarrow> xlate s' r (layers v) = xlate s r (layers v)) \<and>
       (\<forall>f j. j < 512 \<longrightarrow> mrt (pg s) f \<noteq> 0 \<longrightarrow> f \<notin> tables s r \<longrightarrow> entry s' f j = entry s f j) \<and>
       rm_page_4k vir r s' = Some s'' \<and> (\<forall>v. canonical v \<longrightarrow> xlate s'' r (layers v) = xlate s r (layers v))"
  proof (cases "xlate s r (layers vir) = None")
    case False
    then have m: "xlate s r (?ls @ [?l]) \<noteq> None" using layers_split [of vir] by simp
    have "put_page_4k phy vir r type s = None"
    proof (cases "walk_make (snd (page_types type 0)) ?ls r s")
      case (Some x)
      then have "present (entry (snd x) (fst x) ?l)" using walk_make_mapped [OF m, of _ "fst x" "snd x"] by simp
      then show ?thesis using Some by (simp add: put_page_4k_def put_page_4k_locked_def Let_def split_beta)
    qed (simp add: put_page_4k_def put_page_4k_locked_def Let_def split_beta)
    then show ?thesis using False by simp
  next
    case True
    obtain t s' where p: "put_page_4k phy vir r type s = Some s'" "pt_inv s' r" "tbl s' r ?ls = Some t"
      "\<And>v. indices v \<Longrightarrow> length v = 4 \<Longrightarrow> xlate s' r v =
         (if v = layers vir then Some (of_nat phy OR fst (page_types type 0), []) else xlate s r v)"
      "\<And>f j. j < 512 \<Longrightarrow> mrt (pg s) f \<noteq> 0 \<Longrightarrow> f \<notin> tables s r \<Longrightarrow> entry s' f j = entry s f j"
      by (rule put_page_4k_ok [OF inv vir phy ty room True]) blast
    have i3: "indices ?ls" "length ?ls = 3" "?l < 512"
      using indices_layers [OF vir(1)] layers_split [of vir] by (auto simp: indices_def dest: in_set_takeD)
    have pr: "present (entry s' t ?l)"
      using p(4) [OF indices_layers [OF vir(1)]] xlate_append [OF p(3), of "[?l]"] layers_split [of vir]
      by (auto split: if_splits)
    define s'' where "s'' = set_entry t ?l 0 s'"
    have rm: "rm_page_4k vir r s' = Some s''" using vir(2) p(3) pr by (simp add: rm_page_4k_def walk_find_tbl s''_def)
    have tree: "pt_tree s' r" using p(2) by (simp add: pt_inv_def)
    have "xlate s'' r (layers v) = xlate s r (layers v)" if "canonical v" for v
      using xlate_leaf [OF tree i3(1,2) p(3) i3(3) indices_layers [OF that], of 0] p(4) [OF indices_layers [OF that]]
        True layers_split [of vir] by (simp add: s''_def)
    moreover have "xlate s' r (layers v) = xlate s r (layers v)" if "canonical v" "v div 4096 \<noteq> vir div 4096" for v
      using p(4) [OF indices_layers [OF that(1)]] layers_inj [OF that(1) vir(1)] that(2) by auto
    moreover have "xlate s' r (layers vir) = Some (of_nat phy OR fst (page_types type 0), [])"
      using p(4) [OF indices_layers [OF vir(1)]] by simp
    ultimately show ?thesis using True p(1,2,5) rm by auto
  qed
qed

text \<open>A machine with three free pages and an empty table in frame 9.\<close>

definition small_vm :: vm where
  "small_vm = \<lparr>pg = small_pool\<lparr>mrt := (\<lambda>_. 0)(9 := 255)\<rparr>, qw = (\<lambda>_. 0)\<rparr>"

lemma small_vm_tbl: "tbl small_vm t p = (if p = [] then Some t else None)"
  by (cases p) (simp_all add: entry_def small_vm_def)

lemma small_vm_inv: "pt_inv small_vm 9"
proof -
  have "pai_ok ((\<lambda>_. 0)(9 := 255)) \<lparr>spa = 0x1000, epa = 0x4000, fpp = 3, nfpa = 0x1000\<rparr>"
    by (rule pai_ok_all_free(1)) (auto simp: pai_pages_def)
  then have "pool_inv (pg small_vm)" by (simp add: pool_inv_def small_vm_def small_pool_def)
  then show ?thesis
    by (simp add: pt_inv_def vm_ok_def pt_tree_def pt_used_def small_vm_tbl) (simp add: small_vm_def small_pool_def)
qed

lemma small_vm_nfree: "nfree (pg small_vm) = 3"
proof -
  have "{k. page_free (pg small_vm) k} = {1, 2, 3}"
    by (auto simp: page_free_def small_vm_def small_pool_def pai_pages_def)
  then show ?thesis by (simp add: nfree_def)
qed

theorem put_page_4k_correct_witness:
  "\<exists>s' s''. put_page_4k 0x5000 0x401000 9 1 small_vm = Some s' \<and> rm_page_4k 0x401000 9 s' = Some s'' \<and>
     xlate s' 9 (layers 0x401000) = Some (of_nat 0x5000 OR PAGE_USER_4K, [])"
proof -
  have "canonical 0x401000" by (simp add: canonical_def)
  moreover have "xlate small_vm 9 (layers 0x401000) = None" by (simp add: layers_def entry_def small_vm_def)
  moreover have "fst (page_types 1 0) = PAGE_USER_4K" by (simp add: page_types_def)
  ultimately show ?thesis
    using put_page_4k_correct [OF small_vm_inv, of "0x401000" "0x5000" 1] small_vm_nfree by auto
qed

end
