(* ===== verification/Fork.thy ===== *)
theory Fork
  imports Paging
begin

text \<open>
  Duplicating and releasing the user half of an address space (\<open>copy_pagetable_and_mem\<close> and
  \<open>free_ptable_and_mem\<close> of \<open>src/mm/mm.c\<close>, called by \<open>fork_enter\<close> and \<open>free_task\<close> of
  \<open>src/task/task.c\<close>).  The tables are followed entry by entry: \<open>n\<close> is the number of table levels below
  an entry, so that an entry with \<open>n = 0\<close> maps a page.
\<close>

unbundle bit_operations_syntax

declare upt_rec_numeral [simp del]

section \<open>The address space of a new process\<close>

text \<open>The statements of \<open>fork_enter\<close> that build the page table of the child: a page for the top table, the
  user half cleared, the kernel half taken from \<open>vir_ptable4\<close>, then the copy.\<close>

definition fork_space :: "nat \<Rightarrow> nat \<Rightarrow> vm \<Rightarrow> (nat \<times> vm) option" where
  "fork_space vir_ptable4 source s = do {
     (a, s) \<leftarrow> vm_alloc s;
     let cr3 = a div 4096;
     let s = fold (\<lambda>i s. set_entry cr3 i 0 s) [0..<256] s;
     let s = fold (\<lambda>i s. set_entry cr3 i (entry s vir_ptable4 i) s) [256..<512] s;
     s \<leftarrow> copy_pagetable_and_mem cr3 source s;
     Some (cr3, s) }"

section \<open>Entries and what they lead to\<close>

fun reach :: "nat \<Rightarrow> vm \<Rightarrow> pte \<Rightarrow> nat set" where
  "reach 0 s e = (if present e then {frame_of e} else {})"
| "reach (Suc n) s e =
     (if present e then insert (frame_of e) (\<Union>i<512. reach n s (entry s (frame_of e) i)) else {})"

fun no_big :: "nat \<Rightarrow> vm \<Rightarrow> pte \<Rightarrow> bool" where
  "no_big 0 s e \<longleftrightarrow> present e \<longrightarrow> \<not> big e"
| "no_big (Suc n) s e \<longleftrightarrow> present e \<longrightarrow> \<not> big e \<and> (\<forall>i<512. no_big n s (entry s (frame_of e) i))"

text \<open>The pages a copy needs.\<close>

fun need :: "nat \<Rightarrow> vm \<Rightarrow> pte \<Rightarrow> nat" where
  "need 0 s e = (if present e then 1 else 0)"
| "need (Suc n) s e = (if present e then 1 + (\<Sum>i<512. need n s (entry s (frame_of e) i)) else 0)"

text \<open>No frame is reached twice.\<close>

fun sep :: "nat \<Rightarrow> vm \<Rightarrow> pte \<Rightarrow> bool" where
  "sep 0 s e \<longleftrightarrow> True"
| "sep (Suc n) s e \<longleftrightarrow> (present e \<longrightarrow>
     (\<forall>i<512. sep n s (entry s (frame_of e) i) \<and> frame_of e \<notin> reach n s (entry s (frame_of e) i)) \<and>
     (\<forall>i<512. \<forall>j<512. i \<noteq> j \<longrightarrow> reach n s (entry s (frame_of e) i) \<inter> reach n s (entry s (frame_of e) j) = {}))"

text \<open>Entry \<open>e'\<close> of state \<open>s'\<close> is a copy of entry \<open>e\<close> of state \<open>s\<close>.\<close>

fun cloned :: "nat \<Rightarrow> vm \<Rightarrow> pte \<Rightarrow> vm \<Rightarrow> pte \<Rightarrow> bool" where
  "cloned 0 s e s' e' \<longleftrightarrow>
     (if present e then present e' \<and> \<not> big e' \<and> e' AND 0xfff = e AND 0xfff \<and>
        (\<forall>j<512. entry s' (frame_of e') j = entry s (frame_of e) j)
      else e' = 0)"
| "cloned (Suc n) s e s' e' \<longleftrightarrow>
     (if present e then present e' \<and> \<not> big e' \<and> e' AND 0xfff = e AND 0xfff \<and>
        (\<forall>i<512. cloned n s (entry s (frame_of e) i) s' (entry s' (frame_of e') i))
      else e' = 0)"

definition same_on :: "nat set \<Rightarrow> vm \<Rightarrow> vm \<Rightarrow> bool" where
  "same_on A s s' \<longleftrightarrow> (\<forall>k \<in> A. \<forall>j<512. entry s' k j = entry s k j)"

lemma same_onD: "same_on A s s' \<Longrightarrow> k \<in> A \<Longrightarrow> j < 512 \<Longrightarrow> entry s' k j = entry s k j"
  by (simp add: same_on_def)

lemma same_on_mono: "same_on A s s' \<Longrightarrow> B \<subseteq> A \<Longrightarrow> same_on B s s'"
  by (auto simp: same_on_def)

lemma reach_sub: "present e \<Longrightarrow> i < 512 \<Longrightarrow> reach n s (entry s (frame_of e) i) \<subseteq> reach (Suc n) s e"
  by auto

lemma walk_same:
  assumes "same_on (reach n s e) s s'"
  shows "reach n s' e = reach n s e \<and> no_big n s' e = no_big n s e \<and> need n s' e = need n s e \<and> sep n s' e = sep n s e"
  using assms
proof (induction n arbitrary: e)
  case (Suc n)
  show ?case
  proof (cases "present e")
    case True
    have ent: "entry s' (frame_of e) i = entry s (frame_of e) i" if "i < 512" for i
      using same_onD [OF Suc.prems _ that] True by simp
    have "same_on (reach n s (entry s (frame_of e) i)) s s'" if "i < 512" for i
      by (rule same_on_mono [OF Suc.prems reach_sub [OF True that]])
    note IH = Suc.IH [OF this]
    show ?thesis using True ent IH by simp
  qed simp
qed simp

lemma cloned_source:
  assumes "same_on (reach n s e) s s2"
  shows "cloned n s2 e s' e' = cloned n s e s' e'"
  using assms
proof (induction n arbitrary: e e')
  case 0
  then show ?case by (simp add: same_on_def)
next
  case (Suc n)
  show ?case
  proof (cases "present e")
    case True
    have "cloned n s2 (entry s2 (frame_of e) i) s' x = cloned n s (entry s (frame_of e) i) s' x" if "i < 512" for i x
      using Suc.IH [OF same_on_mono [OF Suc.prems reach_sub [OF True that]]] same_onD [OF Suc.prems _ that] True by simp
    then show ?thesis by simp
  qed simp
qed

lemma cloned_target:
  assumes "same_on (reach n s' e') s' s2" "cloned n s e s' e'"
  shows "cloned n s e s2 e'"
  using assms
proof (induction n arbitrary: e e')
  case 0
  then show ?case by (auto simp: same_on_def)
next
  case (Suc n)
  show ?case
  proof (cases "present e")
    case True
    then have p: "present e'" using Suc.prems(2) by simp
    have "cloned n s (entry s (frame_of e) i) s2 (entry s2 (frame_of e') i)" if "i < 512" for i
      using Suc.IH [OF same_on_mono [OF Suc.prems(1) reach_sub [OF p that]]] same_onD [OF Suc.prems(1) _ that] p
        Suc.prems(2) True that by simp
    then show ?thesis using Suc.prems(2) by simp
  qed (use Suc.prems in simp)
qed

section \<open>The copy\<close>

definition copy_step :: "nat \<Rightarrow> nat \<Rightarrow> nat \<Rightarrow> nat \<Rightarrow> vm \<Rightarrow> vm option" where
  "copy_step n = (case n of 0 \<Rightarrow> copy_leaf | Suc m \<Rightarrow> copy_dir (copy_user_pagetable m))"

lemma copy_user_step: "copy_user_pagetable n src dst s = each_entry (copy_step n src dst) [0..<512] s"
  by (cases n) (simp_all add: copy_step_def)

text \<open>What a copy may change: the entries \<open>I\<close> of the table \<open>g\<close> and pages that were free.\<close>

definition extends :: "nat \<Rightarrow> nat set \<Rightarrow> vm \<Rightarrow> vm \<Rightarrow> bool" where
  "extends g I s s' \<longleftrightarrow> (\<forall>k. mrt (pg s) k \<noteq> 0 \<longrightarrow> mrt (pg s') k = mrt (pg s) k \<and>
     (\<forall>j<512. \<not> (k = g \<and> j \<in> I) \<longrightarrow> entry s' k j = entry s k j))"

lemma extends_refl: "extends g I s s" by (simp add: extends_def)

lemma extends_trans: "extends g I s s1 \<Longrightarrow> extends g J s1 s2 \<Longrightarrow> extends g (I \<union> J) s s2"
  unfolding extends_def by (metis UnCI)

lemma extends_same: "extends g I s s' \<Longrightarrow> (\<And>k. k \<in> A \<Longrightarrow> mrt (pg s) k \<noteq> 0) \<Longrightarrow> g \<notin> A \<Longrightarrow> same_on A s s'"
  unfolding extends_def same_on_def by metis

definition copy_pre :: "nat \<Rightarrow> nat \<Rightarrow> nat \<Rightarrow> nat \<Rightarrow> vm \<Rightarrow> bool" where
  "copy_pre n f g i s \<longleftrightarrow> i < 512 \<and> no_big n s (entry s f i) \<and> mrt (pg s) f \<noteq> 0 \<and> mrt (pg s) g \<noteq> 0 \<and> f \<noteq> g \<and>
     g \<notin> reach n s (entry s f i) \<and> (\<forall>k \<in> reach n s (entry s f i). mrt (pg s) k \<noteq> 0) \<and> entry s g i = 0"

definition new_frames :: "vm \<Rightarrow> vm \<Rightarrow> nat set" where
  "new_frames s s' = {k. page_free (pg s) k \<and> mrt (pg s') k = 1}"

definition areas_same :: "vm \<Rightarrow> vm \<Rightarrow> bool" where
  "areas_same s s' \<longleftrightarrow> map pai_pages (pais (pg s')) = map pai_pages (pais (pg s))"

definition copy_post :: "nat \<Rightarrow> nat \<Rightarrow> nat \<Rightarrow> nat \<Rightarrow> vm \<Rightarrow> vm \<Rightarrow> bool" where
  "copy_post n f g i s s' \<longleftrightarrow> cloned n s (entry s f i) s' (entry s' g i) \<and> sep n s' (entry s' g i) \<and>
     reach n s' (entry s' g i) \<subseteq> new_frames s s'"


lemma page_free_back: "areas_same s s1 \<Longrightarrow> extends g I s s1 \<Longrightarrow> page_free (pg s1) k \<Longrightarrow> page_free (pg s) k"
  unfolding page_free_areas areas_same_def extends_def by metis

lemma copy_pre_extends:
  assumes pre: "copy_pre n f g j s" and ext: "extends g I s s1" and j: "j \<notin> I"
  shows "copy_pre n f g j s1" "entry s1 f j = entry s f j" "same_on (reach n s (entry s f j)) s s1"
    "need n s1 (entry s1 f j) = need n s (entry s f j)"
proof -
  show e: "entry s1 f j = entry s f j" using pre ext by (auto simp: copy_pre_def extends_def)
  show sm: "same_on (reach n s (entry s f j)) s s1"
    using extends_same [OF ext] pre by (simp add: copy_pre_def)
  note w = walk_same [OF sm]
  show "need n s1 (entry s1 f j) = need n s (entry s f j)" using w e by simp
  show "copy_pre n f g j s1"
    using pre ext j w by (auto simp: copy_pre_def e extends_def)
qed

lemma copy_post_source:
  assumes pre: "copy_pre n f g j s" and ext: "extends g I s s1" and j: "j \<notin> I" and ar: "areas_same s s1"
    and post: "copy_post n f g j s1 s'"
  shows "copy_post n f g j s s'"
proof -
  note p = copy_pre_extends [OF pre ext j]
  have "new_frames s1 s' \<subseteq> new_frames s s'" using page_free_back [OF ar ext] by (auto simp: new_frames_def)
  then show ?thesis using post cloned_source [OF p(3)] p(2) by (auto simp: copy_post_def)
qed

lemma copy_post_target:
  assumes pre: "copy_pre n f g i s" and post: "copy_post n f g i s s1" and ext: "extends g J s1 s'" and i: "i \<notin> J"
    and g: "mrt (pg s1) g \<noteq> 0"
  shows "copy_post n f g i s s'" "reach n s' (entry s' g i) = reach n s1 (entry s1 g i)"
proof -
  have il: "i < 512" and gu: "mrt (pg s) g \<noteq> 0" using pre by (simp_all add: copy_pre_def)
  have e: "entry s' g i = entry s1 g i" using ext i il g by (simp add: extends_def)
  have new: "reach n s1 (entry s1 g i) \<subseteq> new_frames s s1" using post by (simp add: copy_post_def)
  have sm: "same_on (reach n s1 (entry s1 g i)) s1 s'"
    by (rule extends_same [OF ext]) (use new gu in \<open>auto simp: new_frames_def page_free_def\<close>)
  note w = walk_same [OF sm]
  show "reach n s' (entry s' g i) = reach n s1 (entry s1 g i)" using w e by simp
  have "reach n s1 (entry s1 g i) \<subseteq> new_frames s s'" using new ext by (auto simp: new_frames_def extends_def)
  then show "copy_post n f g i s s'"
    using post w e cloned_target [OF sm] by (simp add: copy_post_def)
qed

definition copy_run :: "nat \<Rightarrow> nat \<Rightarrow> nat \<Rightarrow> nat list \<Rightarrow> vm \<Rightarrow> vm \<Rightarrow> bool" where
  "copy_run n f g is s s' \<longleftrightarrow> vm_ok s' \<and> areas_same s s' \<and> extends g (set is) s s' \<and>
     (\<forall>i \<in> set is. copy_post n f g i s s') \<and>
     (\<forall>i \<in> set is. \<forall>j \<in> set is. i \<noteq> j \<longrightarrow> reach n s' (entry s' g i) \<inter> reach n s' (entry s' g j) = {}) \<and>
     (\<forall>k. mrt (pg s) k = 0 \<longrightarrow> mrt (pg s') k \<noteq> 0 \<longrightarrow> (\<exists>i \<in> set is. k \<in> reach n s' (entry s' g i))) \<and>
     nfree (pg s') = nfree (pg s) - (\<Sum>i\<leftarrow>is. need n s (entry s f i))"

lemma copy_run_Nil: "vm_ok s \<Longrightarrow> copy_run n f g [] s s"
  by (simp add: copy_run_def areas_same_def extends_refl)

lemma copy_run_Cons:
  assumes pre: "\<forall>j \<in> set (i # is). copy_pre n f g j s" and d: "distinct (i # is)"
    and one: "copy_run n f g [i] s s1" and rest: "copy_run n f g is s1 s'"
  shows "copy_run n f g (i # is) s s'"
proof -
  have e1: "extends g {i} s s1" "areas_same s s1" and p1: "copy_post n f g i s s1" using one by (simp_all add: copy_run_def)
  have e2: "extends g (set is) s1 s'" "areas_same s1 s'" using rest by (simp_all add: copy_run_def)
  have g: "mrt (pg s) g \<noteq> 0" "mrt (pg s1) g \<noteq> 0" using pre e1(1) by (auto simp: copy_pre_def extends_def)
  have ni: "i \<notin> set is" and pi: "copy_pre n f g i s" using d pre by auto
  note t = copy_post_target [OF pi p1 e2(1) ni g(2)]
  have post: "copy_post n f g j s s'" if "j \<in> set is" for j
  proof (rule copy_post_source [OF _ e1(1) _ e1(2)])
    show "copy_pre n f g j s" "j \<notin> {i}" "copy_post n f g j s1 s'" using that pre ni rest by (auto simp: copy_run_def)
  qed
  have new: "reach n s' (entry s' g i) \<inter> reach n s' (entry s' g j) = {}" if "j \<in> set is" for j
  proof -
    have "reach n s' (entry s' g j) \<subseteq> new_frames s1 s'" using rest that by (simp add: copy_run_def copy_post_def)
    moreover have "reach n s' (entry s' g i) \<subseteq> new_frames s s1" using p1 t(2) by (simp add: copy_post_def)
    moreover have "new_frames s s1 \<inter> new_frames s1 s' = {}" by (auto simp: new_frames_def page_free_def)
    ultimately show ?thesis by blast
  qed
  have needs: "need n s1 (entry s1 f j) = need n s (entry s f j)" if "j \<in> set is" for j
    using copy_pre_extends(4) [OF _ e1(1)] pre that ni by auto
  have "(\<Sum>j\<leftarrow>is. need n s1 (entry s1 f j)) = (\<Sum>j\<leftarrow>is. need n s (entry s f j))"
    using needs by (metis (no_types, lifting) map_eq_conv)
  then have "nfree (pg s') = nfree (pg s) - (\<Sum>j\<leftarrow>i # is. need n s (entry s f j))"
    using one rest by (simp add: copy_run_def)
  moreover have "extends g (set (i # is)) s s'" using extends_trans [OF e1(1) e2(1)] by simp
  moreover have "areas_same s s'" using e1(2) e2(2) by (simp add: areas_same_def)
  moreover have "\<forall>a \<in> set (i # is). \<forall>b \<in> set (i # is). a \<noteq> b \<longrightarrow> reach n s' (entry s' g a) \<inter> reach n s' (entry s' g b) = {}"
    using rest new by (auto simp: copy_run_def Int_commute)
  moreover have "\<exists>j \<in> set (i # is). k \<in> reach n s' (entry s' g j)" if "mrt (pg s) k = 0" "mrt (pg s') k \<noteq> 0" for k
    using that one rest t(2) by (cases "mrt (pg s1) k = 0") (auto simp: copy_run_def)
  ultimately show ?thesis using rest t(1) post unfolding copy_run_def by simp
qed

lemma copy_loop:
  assumes step: "\<And>i s. vm_ok s \<Longrightarrow> copy_pre n f g i s \<Longrightarrow> need n s (entry s f i) \<le> nfree (pg s) \<Longrightarrow>
      \<exists>s'. copy_step n f g i s = Some s' \<and> copy_run n f g [i] s s'"
    and "vm_ok s" "distinct is" "\<forall>i \<in> set is. copy_pre n f g i s" "(\<Sum>i\<leftarrow>is. need n s (entry s f i)) \<le> nfree (pg s)"
  shows "\<exists>s'. each_entry (copy_step n f g) is s = Some s' \<and> copy_run n f g is s s'"
  using assms(2-)
proof (induction "is" arbitrary: s)
  case Nil
  then show ?case by (simp add: copy_run_Nil)
next
  case (Cons i "is")
  have room: "need n s (entry s f i) \<le> nfree (pg s)" using Cons.prems(4) by simp
  from step [OF Cons.prems(1) _ room] Cons.prems(3)
  obtain s1 where s1: "copy_step n f g i s = Some s1" "copy_run n f g [i] s s1" by auto
  have e1: "extends g {i} s s1" "vm_ok s1" using s1(2) by (simp_all add: copy_run_def)
  have pre1: "copy_pre n f g j s1 \<and> need n s1 (entry s1 f j) = need n s (entry s f j)" if "j \<in> set is" for j
  proof -
    have "copy_pre n f g j s" "j \<notin> {i}" using that Cons.prems(2,3) by auto
    from copy_pre_extends [OF this(1) e1(1) this(2)] show ?thesis by blast
  qed
  have eq: "(\<Sum>j\<leftarrow>is. need n s1 (entry s1 f j)) = (\<Sum>j\<leftarrow>is. need n s (entry s f j))"
    using pre1 by (metis (no_types, lifting) map_eq_conv)
  then have "(\<Sum>j\<leftarrow>is. need n s1 (entry s1 f j)) \<le> nfree (pg s1)"
    using Cons.prems(4) s1(2) by (simp add: copy_run_def)
  with Cons.IH [OF e1(2)] Cons.prems(2) pre1
  obtain s' where "each_entry (copy_step n f g) is s1 = Some s'" "copy_run n f g is s1 s'" by auto
  then show ?case using s1 copy_run_Cons [OF Cons.prems(3,2) s1(2)] by auto
qed


text \<open>The entry of a copy: the new frame with the flags of the old entry.\<close>

lemma mask_12: "(0xfff :: pte) = mask 12" by (simp add: mask_eq_exp_minus_1)

lemma clone_entry:
  assumes a: "a mod 4096 = 0" "a < 2 ^ 52" and e: "present e" "\<not> big e"
  shows "present (of_nat a OR (e AND 0xfff))" "\<not> big (of_nat a OR (e AND 0xfff))"
    "frame_of (of_nat a OR (e AND 0xfff)) = a div 4096" "(of_nat a OR (e AND 0xfff)) AND 0xfff = e AND 0xfff"
proof -
  have "drop_bit 12 (e AND 0xfff) = 0" unfolding mask_12 by (rule bit_eqI) (simp add: bit_simps)
  then have "dir_flags (e AND 0xfff)"
    using e by (simp add: dir_flags_def present_bit big_bit mask_12 bit_simps)
  from dir_entry [OF this a(1)] a(2)
  show "present (of_nat a OR (e AND 0xfff))" "\<not> big (of_nat a OR (e AND 0xfff))"
    "frame_of (of_nat a OR (e AND 0xfff)) = a div 4096" by simp_all
  show "(of_nat a OR (e AND 0xfff)) AND 0xfff = e AND 0xfff"
    unfolding mask_12
  proof (rule bit_eqI)
    fix n
    show "bit ((of_nat a OR (e AND mask 12)) AND mask 12) n = bit (e AND mask 12) n"
      using low_bit_entry [OF a(1), of n "e AND mask 12"] by (cases "n < 12") (auto simp: bit_simps)
  qed
qed

lemma entry_copy_page: "j < 512 \<Longrightarrow> entry (copy_page h f s) u j = (if u = h then entry s f j else entry s u j)"
  by (auto simp: entry_def copy_page_def)

lemma pg_copy_page [simp]: "pg (copy_page h f s) = pg s" by (simp add: copy_page_def)

lemma copy_absent:
  assumes "vm_ok s" "copy_pre n f g i s" "\<not> present (entry s f i)"
  shows "copy_run n f g [i] s (set_entry g i 0 s)"
proof -
  have i: "i < 512" using assms(2) by (simp add: copy_pre_def)
  have c: "cloned n s e s' 0" "sep n s' 0" "reach n s' 0 = {}" if "\<not> present e" for e s'
    using that by (cases n; simp)+
  show ?thesis
    using assms i c by (cases n)
      (auto simp: copy_run_def areas_same_def extends_def copy_post_def entry_set_entry vm_ok_def)
qed

lemma copy_leaf_ok:
  assumes vm: "vm_ok s" and pre: "copy_pre 0 f g i s" and p: "present (entry s f i)" and room: "0 < nfree (pg s)"
  shows "\<exists>s'. copy_leaf f g i s = Some s' \<and> copy_run 0 f g [i] s s'"
proof -
  obtain a p where a: "vm_alloc s = Some (a, s\<lparr>pg := p\<rparr>)" "vm_ok (s\<lparr>pg := p\<rparr>)" "a mod 4096 = 0" "a < 2 ^ 52"
    "mrt (pg s) (a div 4096) = 0" "mrt p = (mrt (pg s))(a div 4096 := 1)" "nfree p = nfree (pg s) - 1"
    "page_free (pg s) (a div 4096)" "map pai_pages (pais p) = map pai_pages (pais (pg s))"
    by (rule vm_alloc_ok [OF vm room])
  let ?e = "entry s f i" and ?h = "a div 4096"
  have i: "i < 512" and nb: "\<not> big ?e" and g: "g \<noteq> ?h" and h: "frame_of ?e \<noteq> ?h"
    using pre \<open>present ?e\<close> a(5) by (auto simp: copy_pre_def)
  note ce = clone_entry [OF a(3,4) \<open>present ?e\<close> nb]
  define s' where "s' = set_entry g i (of_nat a OR (?e AND 0xfff)) (copy_page ?h (frame_of ?e) (s\<lparr>pg := p\<rparr>))"
  have run: "copy_leaf f g i s = Some s'" using a(1) p nb by (simp add: copy_leaf_def Let_def s'_def)
  have ent: "entry s' u j = (if u = g \<and> j = i then of_nat a OR (?e AND 0xfff) else if u = ?h then entry s (frame_of ?e) j else entry s u j)"
    if "j < 512" for u j using that i by (simp add: s'_def entry_set_entry entry_copy_page)
  have "copy_run 0 f g [i] s s'"
    using a ce ent i p g h by (auto simp: copy_run_def copy_post_def areas_same_def extends_def new_frames_def s'_def vm_ok_def)
  then show ?thesis using run by blast
qed


lemma sum_entries: "(\<Sum>i\<leftarrow>[0..<n]. f i) = (\<Sum>i<n. f i)"
  by (simp add: interv_sum_list_conv_sum_set_nat lessThan_atLeast0)

lemma copy_dir_ok:
  assumes below: "\<And>f g i s. vm_ok s \<Longrightarrow> copy_pre m f g i s \<Longrightarrow> need m s (entry s f i) \<le> nfree (pg s) \<Longrightarrow>
      \<exists>s'. copy_step m f g i s = Some s' \<and> copy_run m f g [i] s s'"
    and vm: "vm_ok s" and pre: "copy_pre (Suc m) f g i s" and pe: "present (entry s f i)"
    and room: "need (Suc m) s (entry s f i) \<le> nfree (pg s)"
  shows "\<exists>s'. copy_dir (copy_user_pagetable m) f g i s = Some s' \<and> copy_run (Suc m) f g [i] s s'"
proof -
  let ?e = "entry s f i"
  let ?f = "frame_of ?e"
  have r0: "0 < nfree (pg s)" using room pe by simp
  obtain a p where a: "vm_alloc s = Some (a, s\<lparr>pg := p\<rparr>)" "vm_ok (s\<lparr>pg := p\<rparr>)" "a mod 4096 = 0" "a < 2 ^ 52"
    "mrt (pg s) (a div 4096) = 0" "mrt p = (mrt (pg s))(a div 4096 := 1)" "nfree p = nfree (pg s) - 1"
    "page_free (pg s) (a div 4096)" "map pai_pages (pais p) = map pai_pages (pais (pg s))"
    by (rule vm_alloc_ok [OF vm r0])
  let ?h = "a div 4096" and ?e' = "of_nat a OR (?e AND 0xfff)"
  have i: "i < 512" and nb: "\<not> big ?e" and fu: "mrt (pg s) ?f \<noteq> 0" and gu: "mrt (pg s) g \<noteq> 0" and gf: "g \<noteq> ?f"
    and gr: "g \<notin> reach (Suc m) s ?e" and ru: "\<And>k. k \<in> reach (Suc m) s ?e \<Longrightarrow> mrt (pg s) k \<noteq> 0" and g0: "entry s g i = 0"
    using pre pe by (auto simp: copy_pre_def)
  have gh: "g \<noteq> ?h" and fh: "?f \<noteq> ?h" using gu fu a(5) by auto
  note ce = clone_entry [OF a(3,4) pe nb]
  define s3 where "s3 = set_entry g i ?e' (zero_page ?h (s\<lparr>pg := p\<rparr>))"
  have ent3: "entry s3 u j = (if u = g \<and> j = i then ?e' else if u = ?h then 0 else entry s u j)" if "j < 512" for u j
    using that i by (simp add: s3_def entry_set_entry entry_zero_page)
  have pg3: "pg s3 = p" and vm3: "vm_ok s3" using a(2) by (simp_all add: s3_def vm_ok_def)
  have ext3: "extends g {i} s s3" using a(5,6) ent3 by (auto simp: extends_def pg3)
  have sm: "same_on (reach (Suc m) s ?e) s s3" by (rule extends_same [OF ext3 ru gr])
  have sub: "same_on (reach m s (entry s ?f j)) s s3" if "j < 512" for j
    by (rule same_on_mono [OF sm reach_sub [OF pe that]])
  have f3: "entry s3 ?f j = entry s ?f j" if "j < 512" for j using ent3 that gf fh by auto
  have pre3: "copy_pre m ?f ?h j s3" if j: "j < 512" for j
  proof -
    have "mrt (pg s) k \<noteq> 0" if "k \<in> reach m s (entry s ?f j)" for k
      by (rule ru [OF subsetD [OF reach_sub [OF pe j] that]])
    then have "\<forall>k \<in> reach m s (entry s ?f j). mrt p k \<noteq> 0 \<and> k \<noteq> ?h" using a(5,6) by auto
    moreover have "no_big m s (entry s ?f j)" using pre pe j by (simp add: copy_pre_def)
    ultimately have "no_big m s3 (entry s3 ?f j)" "?h \<notin> reach m s3 (entry s3 ?f j)"
        "\<forall>k \<in> reach m s3 (entry s3 ?f j). mrt (pg s3) k \<noteq> 0"
      using walk_same [OF sub [OF j]] by (auto simp: f3 [OF j] pg3)
    moreover have "mrt (pg s3) ?f \<noteq> 0" "mrt (pg s3) ?h \<noteq> 0" using fu fh a(6) by (simp_all add: pg3)
    moreover have "entry s3 ?h j = 0" using ent3 [OF j, of ?h] gh by simp
    ultimately show ?thesis using j fh unfolding copy_pre_def by blast
  qed
  have needs: "(\<Sum>j\<leftarrow>[0..<512]. need m s3 (entry s3 ?f j)) = (\<Sum>j<512. need m s (entry s ?f j))"
    unfolding sum_entries by (rule sum.cong) (use walk_same [OF sub] f3 in auto)
  have "(\<Sum>j\<leftarrow>[0..<512]. need m s3 (entry s3 ?f j)) \<le> nfree (pg s3)"
    using room pe a(7) pg3 needs by simp
  from copy_loop [where n = m and f = ?f and g = ?h, OF below vm3 distinct_upt _ this] pre3
  obtain s' where s': "each_entry (copy_step m ?f ?h) [0..<512] s3 = Some s'" "copy_run m ?f ?h [0..<512] s3 s'" by auto
  have run: "copy_dir (copy_user_pagetable m) f g i s = Some s'"
    using a(1) pe nb g0 s'(1) ent3 [OF i, of g] ce(3)
    by (simp add: copy_dir_def Let_def copy_user_step s3_def [symmetric])
  have r: "vm_ok s'" "areas_same s3 s'" "extends ?h {0..<512} s3 s'" "\<And>j. j < 512 \<Longrightarrow> copy_post m ?f ?h j s3 s'"
      "\<And>j k. j < 512 \<Longrightarrow> k < 512 \<Longrightarrow> j \<noteq> k \<Longrightarrow> reach m s' (entry s' ?h j) \<inter> reach m s' (entry s' ?h k) = {}"
    using s'(2) by (auto simp: copy_run_def)
  have ext: "extends g {i} s s'"
    using ext3 r(3) a(5) unfolding extends_def by metis
  have e': "entry s' g i = ?e'"
  proof -
    have "mrt p g \<noteq> 0" using gu gh a(6) by simp
    then show ?thesis using r(3) ent3 [OF i, of g] gh i by (auto simp: extends_def pg3)
  qed
  have mh: "mrt (pg s3) ?h = 1" by (simp add: pg3 a(6))
  have ar: "areas_same s s3" by (simp add: areas_same_def pg3 a(9))
  have nf: "new_frames s3 s' \<subseteq> new_frames s s'" using page_free_back [OF ar ext3] by (auto simp: new_frames_def)
  have cl: "cloned m s (entry s ?f j) s' (entry s' ?h j)" if "j < 512" for j
    using r(4) [OF that] cloned_source [OF sub [OF that]] f3 [OF that] by (simp add: copy_post_def)
  have rn: "reach m s' (entry s' ?h j) \<subseteq> new_frames s3 s'" "?h \<notin> reach m s' (entry s' ?h j)" "sep m s' (entry s' ?h j)"
    if "j < 512" for j
    using r(4) [OF that] mh by (auto simp: copy_post_def new_frames_def page_free_def)
  have "?h \<in> new_frames s s'" using a(8) r(3) mh by (auto simp: new_frames_def extends_def)
  then have "reach (Suc m) s' ?e' \<subseteq> new_frames s s'" using rn(1) nf ce(1,3) by auto
  moreover have "sep (Suc m) s' ?e'" using rn(2,3) r(5) ce(3) by simp
  moreover have "cloned (Suc m) s ?e s' ?e'" using cl ce pe by simp
  moreover have "nfree (pg s') = nfree (pg s) - need (Suc m) s ?e"
    using s'(2) needs pe a(7) by (simp add: copy_run_def pg3)
  moreover have "areas_same s s'" using ar r(2) by (simp add: areas_same_def)
  moreover have "k \<in> reach (Suc m) s' ?e'" if k: "mrt (pg s) k = 0" "mrt (pg s') k \<noteq> 0" for k
  proof (cases "k = ?h")
    case False
    then have "mrt (pg s3) k = 0" using k(1) by (simp add: pg3 a(6))
    then obtain j where "j < 512" "k \<in> reach m s' (entry s' ?h j)" using s'(2) k(2) by (auto simp: copy_run_def)
    then show ?thesis using ce(1,3) by auto
  qed (use ce(1,3) in simp)
  ultimately have "copy_run (Suc m) f g [i] s s'" using r(1) ext e' by (simp add: copy_run_def copy_post_def)
  then show ?thesis using run by blast
qed

lemma copy_step_ok:
  "vm_ok s \<Longrightarrow> copy_pre n f g i s \<Longrightarrow> need n s (entry s f i) \<le> nfree (pg s) \<Longrightarrow>
     \<exists>s'. copy_step n f g i s = Some s' \<and> copy_run n f g [i] s s'"
proof (induction n arbitrary: f g i s)
  case 0
  show ?case
  proof (cases "present (entry s f i)")
    case True
    then show ?thesis using copy_leaf_ok [OF 0(1,2) True] 0(3) by (simp add: copy_step_def)
  next
    case False
    then show ?thesis using copy_absent [OF 0(1,2) False] by (simp add: copy_step_def copy_leaf_def)
  qed
next
  case (Suc m)
  show ?case
  proof (cases "present (entry s f i)")
    case True
    then show ?thesis using copy_dir_ok [OF Suc.IH Suc.prems(1,2) True Suc.prems(3)] by (simp add: copy_step_def)
  next
    case False
    then show ?thesis using copy_absent [OF Suc.prems(1,2) False] by (simp add: copy_step_def copy_dir_def)
  qed
qed

section \<open>Translations of a copy\<close>

fun follow :: "vm \<Rightarrow> pte \<Rightarrow> nat list \<Rightarrow> pte option" where
  "follow s e [] = (if present e then Some e else None)"
| "follow s e (l # ls) = (if present e then follow s (entry s (frame_of e) l) ls else None)"

lemma xlate_follow:
  "no_big (length ls) s (entry s t l) \<Longrightarrow> indices ls \<Longrightarrow>
     xlate s t (l # ls) = map_option (\<lambda>e. (e, [])) (follow s (entry s t l) ls)"
proof (induction ls arbitrary: t l)
  case (Cons x xs)
  then show ?case using Cons.IH [of "frame_of (entry s t l)" x] by auto
qed simp

lemma cloned_no_big: "cloned n s e s' e' \<Longrightarrow> no_big n s' e'"
proof (induction n arbitrary: e e')
  case (Suc n)
  then show ?case by (cases "present e") auto
qed (auto split: if_splits)

lemma cloned_follow:
  assumes "cloned (length ls) s e s' e'" "indices ls"
  shows "case follow s e ls of None \<Rightarrow> follow s' e' ls = None
    | Some x \<Rightarrow> \<exists>x'. follow s' e' ls = Some x' \<and> x' AND 0xfff = x AND 0xfff \<and> frame_of x' \<in> reach (length ls) s' e' \<and>
        (\<forall>j<512. entry s' (frame_of x') j = entry s (frame_of x) j)"
  using assms
proof (induction ls arbitrary: e e')
  case Nil
  then show ?case by (auto split: if_splits)
next
  case (Cons l ls)
  show ?case
  proof (cases "present e")
    case True
    then have "cloned (length ls) s (entry s (frame_of e) l) s' (entry s' (frame_of e') l)" "present e'" "l < 512"
      using Cons.prems by auto
    then show ?thesis using Cons.IH [of "entry s (frame_of e) l" "entry s' (frame_of e') l"] Cons.prems(2) True
      by (auto split: option.splits)
  qed (use Cons.prems in simp)
qed

lemma layers_user: "v < 2 ^ 47 \<Longrightarrow> \<exists>i ls. layers v = i # ls \<and> i < 256 \<and> length ls = 3 \<and> indices ls"
  by (auto simp: layers_def VIRTUAL_ADDR_0_def less_mult_imp_div_less)

text \<open>A user half that can be copied: no large pages, and every table and page is in use.\<close>

definition user_half :: "vm \<Rightarrow> nat \<Rightarrow> bool" where
  "user_half s r \<longleftrightarrow> mrt (pg s) r \<noteq> 0 \<and> (\<forall>i<256. no_big 3 s (entry s r i) \<and> (\<forall>k \<in> reach 3 s (entry s r i). mrt (pg s) k \<noteq> 0))"

definition user_pages :: "vm \<Rightarrow> nat \<Rightarrow> nat set" where
  "user_pages s r = (\<Union>i<256. reach 3 s (entry s r i))"

text \<open>The kernel half is copied first.\<close>

lemma entry_copy_half:
  assumes "dest \<noteq> source" "\<forall>i \<in> set is. i < 512" "distinct is" "j < 512"
  shows "entry (fold (\<lambda>i s. set_entry dest i (entry s source i) s) is s) u j =
    (if u = dest \<and> j \<in> set is then entry s source j else entry s u j)"
  using assms by (induction "is" arbitrary: s) (auto simp: entry_set_entry)

lemma pg_fold_set [simp]: "pg (fold (\<lambda>i s. set_entry d i (x i s) s) is s) = pg s"
  by (induction "is" arbitrary: s) simp_all

lemma copy_space_ok:
  assumes vm: "vm_ok s" and src: "user_half s source" and d: "dest \<noteq> source" "mrt (pg s) dest \<noteq> 0" "dest \<notin> user_pages s source"
    and z: "\<forall>i<256. entry s dest i = 0" and room: "(\<Sum>i<256. need 3 s (entry s source i)) \<le> nfree (pg s)"
  obtains s' where "copy_pagetable_and_mem dest source s = Some s'" "vm_ok s'" "areas_same s s'"
    "\<And>k. mrt (pg s) k \<noteq> 0 \<Longrightarrow> mrt (pg s') k = mrt (pg s) k"
    "\<And>k j. mrt (pg s) k \<noteq> 0 \<Longrightarrow> k \<noteq> dest \<Longrightarrow> j < 512 \<Longrightarrow> entry s' k j = entry s k j"
    "\<And>i. i < 256 \<Longrightarrow> copy_post 3 source dest i s s'"
    "\<And>i j. i < 256 \<Longrightarrow> j < 256 \<Longrightarrow> i \<noteq> j \<Longrightarrow> reach 3 s' (entry s' dest i) \<inter> reach 3 s' (entry s' dest j) = {}"
    "\<And>i. 256 \<le> i \<Longrightarrow> i < 512 \<Longrightarrow> entry s' dest i = entry s source i"
    "nfree (pg s') = nfree (pg s) - (\<Sum>i<256. need 3 s (entry s source i))"
    "\<And>k. mrt (pg s) k = 0 \<Longrightarrow> mrt (pg s') k \<noteq> 0 \<Longrightarrow> k \<in> user_pages s' dest"
proof -
  define s1 where "s1 = fold (\<lambda>i s. set_entry dest i (entry s source i) s) [256..<512] s"
  have e1: "entry s1 u j = (if u = dest \<and> 256 \<le> j then entry s source j else entry s u j)" if "j < 512" for u j
    using entry_copy_half [OF d(1), of "[256..<512]" j] that by (simp add: s1_def)
  have p1: "pg s1 = pg s" by (simp add: s1_def)
  have sm: "same_on A s s1" if "dest \<notin> A" for A using that e1 by (auto simp: same_on_def)
  have nd: "dest \<notin> reach 3 s (entry s source i)" if "i < 256" for i using d(3) that by (auto simp: user_pages_def)
  note w = walk_same [OF sm [OF nd]]
  have es: "entry s1 source i = entry s source i" if "i < 512" for i using e1 [OF that] d(1) by auto
  have pre: "copy_pre 3 source dest i s1" if i: "i < 256" for i
  proof -
    have "entry s1 dest i = 0" using e1 [of i dest] i z by simp
    then show ?thesis using w [OF i] src d(1,2) i nd [OF i] es [of i] by (simp add: copy_pre_def user_half_def p1)
  qed
  have needs: "(\<Sum>i\<leftarrow>[0..<256]. need 3 s1 (entry s1 source i)) = (\<Sum>i<256. need 3 s (entry s source i))"
    unfolding sum_entries by (rule sum.cong) (use w es in auto)
  have "\<exists>s'. each_entry (copy_step 3 source dest) [0..<256] s1 = Some s' \<and> copy_run 3 source dest [0..<256] s1 s'"
    by (rule copy_loop [OF copy_step_ok]) (use vm pre room in \<open>simp_all add: p1 needs vm_ok_def\<close>)
  then obtain s' where s': "each_entry (copy_step 3 source dest) [0..<256] s1 = Some s'" "copy_run 3 source dest [0..<256] s1 s'" by blast
  have st: "copy_step 3 = copy_dir (copy_user_pagetable 2)" by (simp add: copy_step_def numeral_3_eq_3 numeral_2_eq_2)
  have run: "copy_pagetable_and_mem dest source s = Some s'" using s'(1) by (simp add: copy_pagetable_and_mem_def s1_def [symmetric] st)
  have r: "vm_ok s'" "areas_same s1 s'" "extends dest {0..<256} s1 s'" "\<And>i. i < 256 \<Longrightarrow> copy_post 3 source dest i s1 s'"
    "\<And>i j. i < 256 \<Longrightarrow> j < 256 \<Longrightarrow> i \<noteq> j \<Longrightarrow> reach 3 s' (entry s' dest i) \<inter> reach 3 s' (entry s' dest j) = {}"
    "nfree (pg s') = nfree (pg s) - (\<Sum>i<256. need 3 s (entry s source i))"
    "\<And>k. mrt (pg s) k = 0 \<Longrightarrow> mrt (pg s') k \<noteq> 0 \<Longrightarrow> k \<in> user_pages s' dest"
    using s'(2) needs by (auto simp: copy_run_def p1 user_pages_def lessThan_atLeast0)
  have post: "copy_post 3 source dest i s s'" if i: "i < 256" for i
    using r(4) [OF i] cloned_source [OF sm [OF nd [OF i]]] es [of i] i by (simp add: copy_post_def new_frames_def p1)
  show ?thesis
  proof (rule that [OF run r(1)])
    show "areas_same s s'" using r(2) by (simp add: areas_same_def p1)
    show "mrt (pg s') k = mrt (pg s) k" if "mrt (pg s) k \<noteq> 0" for k using r(3) that by (simp add: extends_def p1)
    show "entry s' k j = entry s k j" if "mrt (pg s) k \<noteq> 0" "k \<noteq> dest" "j < 512" for k j
      using r(3) that e1 [OF that(3)] by (simp add: extends_def p1)
    show "entry s' dest i = entry s source i" if "256 \<le> i" "i < 512" for i
      using r(3) that e1 [OF that(2)] d(2) by (simp add: extends_def p1)
  qed (use post r(5-7) in auto)
qed

section \<open>Releasing an address space\<close>

definition owned :: "pool \<Rightarrow> nat \<Rightarrow> bool" where
  "owned p k \<longleftrightarrow> mrt p k = 1 \<and> (\<exists>A \<in> set (map pai_pages (pais p)). k \<in> A)"

text \<open>The allocator after the pages \<open>K\<close> were given back.\<close>

definition released :: "nat set \<Rightarrow> pool \<Rightarrow> pool \<Rightarrow> bool" where
  "released K p p' \<longleftrightarrow> pool_inv p' \<and> map pai_pages (pais p') = map pai_pages (pais p) \<and>
     mrt p' = (\<lambda>k. if k \<in> K then 0 else mrt p k)"

lemma released_empty: "pool_inv p \<Longrightarrow> released {} p p" by (simp add: released_def)

lemma released_trans: "released K p p1 \<Longrightarrow> released L p1 p2 \<Longrightarrow> released (K \<union> L) p p2"
  by (auto simp: released_def)

lemma released_owned: "released K p p' \<Longrightarrow> k \<notin> K \<Longrightarrow> owned p k \<Longrightarrow> owned p' k"
  by (simp add: released_def owned_def)

lemma kfree_page_ok:
  assumes "pool_inv (pg s)" "owned (pg s) t"
  shows "\<exists>p. kfree_page t s = Some (s\<lparr>pg := p\<rparr>) \<and> released {t} (pg s) p"
proof -
  obtain q where q: "q \<in> set (pais (pg s))" "t \<in> pai_pages q" "mrt (pg s) t = 1" using assms(2) by (auto simp: owned_def)
  obtain p where "decrease_reference_page_4k (t * 4096) (pg s) = Some (0, p)" "pool_inv p" "mrt p = (mrt (pg s))(t := 0)"
      "map pai_pages (pais p) = map pai_pages (pais (pg s))"
    using decrease_ok [OF assms(1) q(1), of "t * 4096"] q by auto
  then show ?thesis by (intro exI [of _ p]) (auto simp: kfree_page_def released_def)
qed

text \<open>The body of the loops of \<open>free_pagetable_level\<close> for an entry with \<open>n\<close> levels below it.\<close>

definition free_entry :: "nat \<Rightarrow> pte \<Rightarrow> vm \<Rightarrow> vm option" where
  "free_entry n e s =
     (if present e
      then (case n of 0 \<Rightarrow> Some s | Suc m \<Rightarrow> free_pagetable_level m (frame_of e) s) \<bind> kfree_page (frame_of e)
      else Some s)"

lemma free_level_entries:
  "free_pagetable_level n t s = each_entry (\<lambda>i s. free_entry n (entry s t i) s) [0..<512] s"
  by (cases n) (auto simp: free_entry_def intro!: arg_cong [of _ _ "\<lambda>f. each_entry f _ s"] ext)

lemma walk_pg_only:
  "reach n (s\<lparr>pg := p\<rparr>) e = reach n s e" "sep n (s\<lparr>pg := p\<rparr>) e = sep n s e" "no_big n (s\<lparr>pg := p\<rparr>) e = no_big n s e"
  using walk_same [of n s e "s\<lparr>pg := p\<rparr>"] by (simp_all add: same_on_def)

lemma free_entries_ok:
  assumes step: "\<And>e s. pool_inv (pg s) \<Longrightarrow> sep n s e \<Longrightarrow> \<forall>k \<in> reach n s e. owned (pg s) k \<Longrightarrow>
      \<exists>p. free_entry n e s = Some (s\<lparr>pg := p\<rparr>) \<and> released (reach n s e) (pg s) p"
    and "pool_inv (pg s)" "distinct is" "\<forall>i \<in> set is. sep n s (entry s t i) \<and> (\<forall>k \<in> reach n s (entry s t i). owned (pg s) k)"
    and "\<forall>i \<in> set is. \<forall>j \<in> set is. i \<noteq> j \<longrightarrow> reach n s (entry s t i) \<inter> reach n s (entry s t j) = {}"
  shows "\<exists>p. each_entry (\<lambda>i s. free_entry n (entry s t i) s) is s = Some (s\<lparr>pg := p\<rparr>) \<and>
    released (\<Union>i \<in> set is. reach n s (entry s t i)) (pg s) p"
  using assms(2-)
proof (induction "is" arbitrary: s)
  case Nil
  then show ?case by (intro exI [of _ "pg s"]) (simp add: released_empty)
next
  case (Cons i "is")
  obtain p1 where p1: "free_entry n (entry s t i) s = Some (s\<lparr>pg := p1\<rparr>)" "released (reach n s (entry s t i)) (pg s) p1"
    using step [OF Cons.prems(1), of "entry s t i"] Cons.prems(3) by auto
  have "owned p1 k" if "j \<in> set is" "k \<in> reach n s (entry s t j)" for j k
    by (rule released_owned [OF p1(2)]) (use Cons.prems(2-4) that in auto)
  then obtain p where p: "each_entry (\<lambda>i s. free_entry n (entry s t i) s) is (s\<lparr>pg := p1\<rparr>) = Some (s\<lparr>pg := p\<rparr>)"
      "released (\<Union>j \<in> set is. reach n s (entry s t j)) p1 p"
    using Cons.IH [of "s\<lparr>pg := p1\<rparr>"] Cons.prems p1(2) by (auto simp: walk_pg_only released_def)
  then show ?case using p1(1) released_trans [OF p1(2) p(2)] by auto
qed

lemma free_entry_ok:
  "pool_inv (pg s) \<Longrightarrow> sep n s e \<Longrightarrow> \<forall>k \<in> reach n s e. owned (pg s) k \<Longrightarrow>
     \<exists>p. free_entry n e s = Some (s\<lparr>pg := p\<rparr>) \<and> released (reach n s e) (pg s) p"
proof (induction n arbitrary: e s)
  case 0
  then show ?case using kfree_page_ok [of s "frame_of e"]
    by (cases "present e") (auto simp: free_entry_def intro: exI [of _ "pg s"] released_empty)
next
  case (Suc n)
  show ?case
  proof (cases "present e")
    case False
    then show ?thesis by (intro exI [of _ "pg s"]) (simp add: free_entry_def released_empty Suc.prems(1))
  next
    case True
    let ?t = "frame_of e" and ?K = "\<Union>i \<in> set [0..<512]. reach n s (entry s (frame_of e) i)"
    obtain p where p: "each_entry (\<lambda>i s. free_entry n (entry s ?t i) s) [0..<512] s = Some (s\<lparr>pg := p\<rparr>)" "released ?K (pg s) p"
      using free_entries_ok [OF Suc.IH Suc.prems(1) distinct_upt, of 0 512 ?t] Suc.prems(2,3) True by auto
    have own: "owned p ?t" by (rule released_owned [OF p(2)]) (use Suc.prems(2,3) True in auto)
    have "pool_inv p" using p(2) by (simp add: released_def)
    then obtain p' where p': "kfree_page ?t (s\<lparr>pg := p\<rparr>) = Some (s\<lparr>pg := p'\<rparr>)" "released {?t} p p'"
      using kfree_page_ok [of "s\<lparr>pg := p\<rparr>" ?t] own by auto
    have "reach (Suc n) s e = ?K \<union> {?t}" using True by auto
    then have "released (reach (Suc n) s e) (pg s) p'" using released_trans [OF p(2) p'(2)] by metis
    then show ?thesis using True p(1) p'(1) by (intro exI [of _ p']) (simp add: free_entry_def free_level_entries)
  qed
qed

text \<open>The top level: the table keeps its kernel half and loses the entries already freed.\<close>

definition can_free :: "nat \<Rightarrow> nat list \<Rightarrow> vm \<Rightarrow> bool" where
  "can_free r is s \<longleftrightarrow> pool_inv (pg s) \<and> distinct is \<and> owned (pg s) r \<and>
     (\<forall>i \<in> set is. i < 512 \<and> sep 3 s (entry s r i) \<and> r \<notin> reach 3 s (entry s r i) \<and> (\<forall>k \<in> reach 3 s (entry s r i). owned (pg s) k)) \<and>
     (\<forall>i \<in> set is. \<forall>j \<in> set is. i \<noteq> j \<longrightarrow> reach 3 s (entry s r i) \<inter> reach 3 s (entry s r j) = {})"

definition free_top :: "nat \<Rightarrow> nat \<Rightarrow> vm \<Rightarrow> vm option" where
  "free_top r i s =
     (if present (entry s r i)
      then do { let pdpt = frame_of (entry s r i);
                s \<leftarrow> free_pagetable_level 2 pdpt s;
                s \<leftarrow> kfree_page pdpt s;
                Some (set_entry r i 0 s) }
      else Some s)"

lemma free_top_entry:
  "free_top r i s = (if present (entry s r i) then map_option (set_entry r i 0) (free_entry 3 (entry s r i) s) else Some s)"
  by (auto simp: free_top_def free_entry_def numeral_3_eq_3 numeral_2_eq_2 Let_def map_option_case split: option.splits bind_splits)

lemma free_top_loop:
  "can_free r is s \<Longrightarrow> \<exists>s'. each_entry (free_top r) is s = Some s' \<and>
     released (\<Union>i \<in> set is. reach 3 s (entry s r i)) (pg s) (pg s') \<and>
     (\<forall>k j. j < 512 \<longrightarrow> k \<noteq> r \<longrightarrow> entry s' k j = entry s k j)"
proof (induction "is" arbitrary: s)
  case Nil
  then show ?case by (intro exI [of _ s]) (simp add: released_empty can_free_def)
next
  case (Cons i "is")
  let ?R = "\<lambda>j. reach 3 s (entry s r j)"
  obtain p where p: "free_entry 3 (entry s r i) s = Some (s\<lparr>pg := p\<rparr>)" "released (?R i) (pg s) p"
    using free_entry_ok [of s 3 "entry s r i"] Cons.prems by (auto simp: can_free_def)
  define s1 where "s1 = (if present (entry s r i) then set_entry r i 0 (s\<lparr>pg := p\<rparr>) else s)"
  have R0: "?R i = {} \<and> p = pg s" if "\<not> present (entry s r i)"
  proof -
    have "s\<lparr>pg := p\<rparr> = s" using that p(1) by (simp add: free_entry_def)
    then have "p = pg s" by (metis vm.select_convs(1) vm.surjective vm.update_convs(1))
    then show ?thesis using that by (simp add: numeral_3_eq_3)
  qed
  have step: "free_top r i s = Some s1" using p(1) by (simp add: free_top_entry s1_def)
  have i: "i < 512" using Cons.prems by (simp add: can_free_def)
  have ent: "entry s1 k j = entry s k j" if "j < 512" "k \<noteq> r \<or> j \<noteq> i" for k j
    using that i by (auto simp: s1_def entry_set_entry)
  have rel: "released (?R i) (pg s) (pg s1)" using p(2) R0 by (auto simp: s1_def)
  have R1: "reach 3 s1 (entry s1 r j) = ?R j" "sep 3 s1 (entry s1 r j) = sep 3 s (entry s r j)" if "j \<in> set is" for j
  proof -
    have "j < 512" "j \<noteq> i" "r \<notin> ?R j" using Cons.prems that by (auto simp: can_free_def)
    moreover from this have "same_on (?R j) s s1" unfolding same_on_def using ent by metis
    ultimately show "reach 3 s1 (entry s1 r j) = ?R j" "sep 3 s1 (entry s1 r j) = sep 3 s (entry s r j)"
      using walk_same [of 3 s "entry s r j" s1] ent by simp_all
  qed
  have own: "owned (pg s1) k" if "j \<in> set is" "k \<in> ?R j" for j k
    by (rule released_owned [OF rel]) (use Cons.prems that in \<open>auto simp: can_free_def\<close>)
  have "owned (pg s1) r" by (rule released_owned [OF rel]) (use Cons.prems in \<open>auto simp: can_free_def\<close>)
  then have "can_free r is s1" using Cons.prems rel own R1 by (auto simp: can_free_def released_def)
  from Cons.IH [OF this] obtain s' where s': "each_entry (free_top r) is s1 = Some s'"
      "released (\<Union>j \<in> set is. reach 3 s1 (entry s1 r j)) (pg s1) (pg s')" "\<forall>k j. j < 512 \<longrightarrow> k \<noteq> r \<longrightarrow> entry s' k j = entry s1 k j"
    by blast
  have "released (?R i \<union> (\<Union>j \<in> set is. ?R j)) (pg s) (pg s')" using released_trans [OF rel s'(2)] R1(1) by simp
  then show ?case using step s'(1,3) ent by auto
qed

lemma free_space_ok:
  assumes "can_free r [0..<256] s" "r \<noteq> vir_ptable4"
  obtains s' where "free_ptable_and_mem vir_ptable4 r s = Some s'" "released (insert r (user_pages s r)) (pg s) (pg s')"
    "\<And>k j. j < 512 \<Longrightarrow> k \<noteq> r \<Longrightarrow> entry s' k j = entry s k j"
proof -
  obtain s1 where s1: "each_entry (free_top r) [0..<256] s = Some s1"
      "released (\<Union>i \<in> set [0..<256]. reach 3 s (entry s r i)) (pg s) (pg s1)" "\<forall>k j. j < 512 \<longrightarrow> k \<noteq> r \<longrightarrow> entry s1 k j = entry s k j"
    using free_top_loop [OF assms(1)] by blast
  have u: "(\<Union>i \<in> set [0..<256]. reach 3 s (entry s r i)) = user_pages s r" by (auto simp: user_pages_def)
  have "owned (pg s1) r"
    by (rule released_owned [OF s1(2)]) (use assms(1) in \<open>auto simp: can_free_def\<close>)
  moreover have "pool_inv (pg s1)" using s1(2) by (simp add: released_def)
  ultimately obtain p where p: "kfree_page r s1 = Some (s1\<lparr>pg := p\<rparr>)" "released {r} (pg s1) p"
    using kfree_page_ok by blast
  have "free_ptable_and_mem vir_ptable4 r s = Some (s1\<lparr>pg := p\<rparr>)"
    using assms(2) s1(1) p(1) by (simp add: free_ptable_and_mem_def free_top_def [abs_def])
  moreover have "released (insert r (user_pages s r)) (pg s) p" using released_trans [OF s1(2) p(2)] by (simp add: u [symmetric])
  ultimately show ?thesis using that [of "s1\<lparr>pg := p\<rparr>"] s1(3) by simp
qed

section \<open>Fork\<close>

lemma entry_clear:
  assumes "\<forall>i \<in> set is. i < 512" "j < 512"
  shows "entry (fold (\<lambda>i s. set_entry d i 0 s) is s) u j = (if u = d \<and> j \<in> set is then 0 else entry s u j)"
  using assms by (induction "is" arbitrary: s) (auto simp: entry_set_entry)

lemma fork_space_ok:
  assumes vm: "vm_ok s" and src: "user_half s source" and k4: "mrt (pg s) vir_ptable4 \<noteq> 0"
    and room: "1 + (\<Sum>i<256. need 3 s (entry s source i)) \<le> nfree (pg s)"
  obtains cr3 s' where "fork_space vir_ptable4 source s = Some (cr3, s')" "vm_ok s'" "areas_same s s'" "page_free (pg s) cr3"
    "mrt (pg s') cr3 = 1" "cr3 \<noteq> vir_ptable4"
    "\<And>k. mrt (pg s) k \<noteq> 0 \<Longrightarrow> mrt (pg s') k = mrt (pg s) k"
    "\<And>k j. mrt (pg s) k \<noteq> 0 \<Longrightarrow> j < 512 \<Longrightarrow> entry s' k j = entry s k j"
    "\<And>i. i < 256 \<Longrightarrow> copy_post 3 source cr3 i s s'"
    "\<And>i. i < 256 \<Longrightarrow> cr3 \<notin> reach 3 s' (entry s' cr3 i)"
    "\<And>i j. i < 256 \<Longrightarrow> j < 256 \<Longrightarrow> i \<noteq> j \<Longrightarrow> reach 3 s' (entry s' cr3 i) \<inter> reach 3 s' (entry s' cr3 j) = {}"
    "\<And>i. 256 \<le> i \<Longrightarrow> i < 512 \<Longrightarrow> entry s' cr3 i = entry s source i"
    "\<And>k. mrt (pg s) k = 0 \<Longrightarrow> mrt (pg s') k \<noteq> 0 \<Longrightarrow> k = cr3 \<or> k \<in> user_pages s' cr3"
proof -
  have r0: "0 < nfree (pg s)" using room by simp
  obtain a p where a: "vm_alloc s = Some (a, s\<lparr>pg := p\<rparr>)" "vm_ok (s\<lparr>pg := p\<rparr>)" "a mod 4096 = 0" "a < 2 ^ 52"
    "mrt (pg s) (a div 4096) = 0" "mrt p = (mrt (pg s))(a div 4096 := 1)" "nfree p = nfree (pg s) - 1"
    "page_free (pg s) (a div 4096)" "map pai_pages (pais p) = map pai_pages (pais (pg s))"
    by (rule vm_alloc_ok [OF vm r0])
  let ?c = "a div 4096"
  define s1 where "s1 = fold (\<lambda>i s. set_entry ?c i 0 s) [0..<256] (s\<lparr>pg := p\<rparr>)"
  define s2 where "s2 = fold (\<lambda>i s. set_entry ?c i (entry s vir_ptable4 i) s) [256..<512] s1"
  have ne: "?c \<noteq> source" "?c \<noteq> vir_ptable4" using src k4 a(5) by (auto simp: user_half_def)
  have e1: "entry s1 u j = (if u = ?c \<and> j < 256 then 0 else entry s u j)" if "j < 512" for u j
    using entry_clear [of "[0..<256]" j ?c "s\<lparr>pg := p\<rparr>" u] that by (auto simp: s1_def)
  have e2: "entry s2 u j = entry s u j" if "j < 512" "u \<noteq> ?c" for u j
    using entry_copy_half [OF ne(2), of "[256..<512]" j s1 u] e1 that by (simp add: s2_def)
  have z2: "entry s2 ?c i = 0" if "i < 256" for i
    using entry_copy_half [OF ne(2), of "[256..<512]" i s1 ?c] e1 that by (simp add: s2_def)
  have p2: "pg s2 = p" by (simp add: s2_def s1_def)
  have fr: "?c \<notin> reach 3 s (entry s source i)" if "i < 256" for i using src a(5) that by (auto simp: user_half_def)
  have sm: "same_on (reach 3 s (entry s source i)) s s2" if "i < 256" for i
    unfolding same_on_def using fr [OF that] e2 by metis
  note w = walk_same [OF sm]
  have es: "entry s2 source i = entry s source i" if "i < 512" for i using e2 [OF that] ne(1) by simp
  have src2: "user_half s2 source" using src w es a(5,6) fr ne(1) by (auto simp: user_half_def p2)
  have d2: "?c \<notin> user_pages s2 source" using w es fr by (auto simp: user_pages_def)
  have needs: "(\<Sum>i<256. need 3 s2 (entry s2 source i)) = (\<Sum>i<256. need 3 s (entry s source i))"
    by (rule sum.cong) (use w es in auto)
  have vm2: "vm_ok s2" using a(2) by (simp add: vm_ok_def p2)
  obtain s' where c: "copy_pagetable_and_mem ?c source s2 = Some s'" "vm_ok s'" "areas_same s2 s'"
    "\<And>k. mrt (pg s2) k \<noteq> 0 \<Longrightarrow> mrt (pg s') k = mrt (pg s2) k"
    "\<And>k j. mrt (pg s2) k \<noteq> 0 \<Longrightarrow> k \<noteq> ?c \<Longrightarrow> j < 512 \<Longrightarrow> entry s' k j = entry s2 k j"
    "\<And>i. i < 256 \<Longrightarrow> copy_post 3 source ?c i s2 s'"
    "\<And>i j. i < 256 \<Longrightarrow> j < 256 \<Longrightarrow> i \<noteq> j \<Longrightarrow> reach 3 s' (entry s' ?c i) \<inter> reach 3 s' (entry s' ?c j) = {}"
    "\<And>i. 256 \<le> i \<Longrightarrow> i < 512 \<Longrightarrow> entry s' ?c i = entry s2 source i"
    "\<And>k. mrt (pg s2) k = 0 \<Longrightarrow> mrt (pg s') k \<noteq> 0 \<Longrightarrow> k \<in> user_pages s' ?c"
    by (rule copy_space_ok [OF vm2 src2 ne(1) _ d2]) (use z2 needs room a(6,7) in \<open>auto simp: p2\<close>)
  have nf: "new_frames s2 s' \<subseteq> new_frames s s'" "?c \<notin> new_frames s2 s'"
    using a(6,9) by (auto simp: new_frames_def page_free_areas p2 simp del: set_map split: if_splits)
  have post: "copy_post 3 source ?c i s s' \<and> ?c \<notin> reach 3 s' (entry s' ?c i)" if i: "i < 256" for i
    using c(6) [OF i] cloned_source [OF sm [OF i]] es [of i] i nf by (auto simp: copy_post_def)
  have used: "mrt (pg s2) k = mrt (pg s) k \<and> k \<noteq> ?c" if "mrt (pg s) k \<noteq> 0" for k using that a(5,6) by (auto simp: p2)
  have run: "fork_space vir_ptable4 source s = Some (?c, s')"
    using a(1) c(1) by (simp add: fork_space_def s1_def s2_def)
  show ?thesis
  proof (rule that [OF run c(2) _ a(8) _ ne(2)])
    show "areas_same s s'" using c(3) a(9) by (simp add: areas_same_def p2)
    show "mrt (pg s') ?c = 1" using c(4) [of ?c] a(6) by (simp add: p2)
    show "mrt (pg s') k = mrt (pg s) k" if "mrt (pg s) k \<noteq> 0" for k using c(4) [of k] used [OF that] that by simp
    show "entry s' k j = entry s k j" if "mrt (pg s) k \<noteq> 0" "j < 512" for k j
      using c(5) [of k j] used [OF that(1)] that e2 by simp
    show "entry s' ?c i = entry s source i" if "256 \<le> i" "i < 512" for i using c(8) [OF that] es that by simp
    show "k = ?c \<or> k \<in> user_pages s' ?c" if "mrt (pg s) k = 0" "mrt (pg s') k \<noteq> 0" for k
      using c(9) [of k] that a(6) by (cases "k = ?c") (simp_all add: p2)
  qed (use post c(7) in auto)
qed

lemma follow_reach: "follow s e ls = Some x \<Longrightarrow> indices ls \<Longrightarrow> frame_of x \<in> reach (length ls) s e"
  by (induction ls arbitrary: e) (auto split: if_splits)

lemma follow_inj:
  "sep (length ls) s e \<Longrightarrow> follow s e ls = Some x \<Longrightarrow> follow s e ks = Some y \<Longrightarrow> frame_of x = frame_of y \<Longrightarrow>
     length ks = length ls \<Longrightarrow> indices ls \<Longrightarrow> indices ks \<Longrightarrow> ls = ks"
proof (induction ls arbitrary: e ks)
  case (Cons l ls)
  obtain k ks' where k: "ks = k # ks'" using Cons.prems(5) by (cases ks) auto
  have p: "present e" using Cons.prems(2) by (auto split: if_splits)
  let ?E = "entry s (frame_of e)"
  have fl: "follow s (?E l) ls = Some x" "follow s (?E k) ks' = Some y" using Cons.prems(2,3) p k by simp_all
  have "frame_of x \<in> reach (length ls) s (?E l)" "frame_of x \<in> reach (length ls) s (?E k)"
    using follow_reach [OF fl(1)] follow_reach [OF fl(2)] Cons.prems(4-7) k by simp_all
  moreover have "\<forall>i<512. \<forall>j<512. i \<noteq> j \<longrightarrow> reach (length ls) s (?E i) \<inter> reach (length ls) s (?E j) = {}"
    using Cons.prems(1) p by simp
  moreover have "l < 512" "k < 512" using Cons.prems(6,7) k by simp_all
  ultimately have lk: "l = k" by blast
  have "sep (length ls) s (?E l)" using Cons.prems(1,6) p by simp
  from Cons.IH [OF this fl(1) fl(2) [folded lk] Cons.prems(4)] Cons.prems(5-7) k lk show ?case by simp
qed simp

lemma user_frame_inj:
  assumes v: "v < 2 ^ 47" "w < 2 ^ 47" and nb: "\<And>i. i < 256 \<Longrightarrow> no_big 3 s (entry s r i) \<and> sep 3 s (entry s r i)"
    and disj: "\<And>i j. i < 256 \<Longrightarrow> j < 256 \<Longrightarrow> i \<noteq> j \<Longrightarrow> reach 3 s (entry s r i) \<inter> reach 3 s (entry s r j) = {}"
    and x: "xlate s r (layers v) = Some (e, [])" "xlate s r (layers w) = Some (e', [])" "frame_of e = frame_of e'"
  shows "layers v = layers w"
proof -
  obtain i ls j ks where l: "layers v = i # ls" "i < 256" "length ls = 3" "indices ls"
      "layers w = j # ks" "j < 256" "length ks = 3" "indices ks" using layers_user v by metis
  have f: "follow s (entry s r i) ls = Some e" "follow s (entry s r j) ks = Some e'"
    using x(1,2) xlate_follow [of ls s r i] xlate_follow [of ks s r j] nb l by (simp_all del: xlate.simps)
  have "i = j" using follow_reach [OF f(1) l(4)] follow_reach [OF f(2) l(8)] disj [OF l(2,6)] x(3) l by auto
  then show ?thesis using follow_inj [OF _ f(1), of ks e'] f(2) nb [OF l(2)] x(3) l by simp
qed

text \<open>C2: the page table \<open>fork_enter\<close> builds for the child.  If the user half of the parent has no large pages
  and enough pages are free, the copy does not halt, and for every user address the child maps it exactly if
  the parent does, with the same flags, onto a page that was free before and has the same content.
  Different user addresses of the child never share a page unless they are in the same page; the kernel
  half is the parent's; no page that was in use changes its content or its reference count.\<close>

theorem fork_space_correct:
  assumes "vm_ok s" "user_half s source" "mrt (pg s) vir_ptable4 \<noteq> 0"
    and "1 + (\<Sum>i<256. need 3 s (entry s source i)) \<le> nfree (pg s)"
  shows "\<exists>cr3 s'. fork_space vir_ptable4 source s = Some (cr3, s') \<and> vm_ok s' \<and> page_free (pg s) cr3 \<and>
    (\<forall>v < 2 ^ 47. case xlate s source (layers v) of
        None \<Rightarrow> xlate s' cr3 (layers v) = None
      | Some (e, _) \<Rightarrow> \<exists>e'. xlate s' cr3 (layers v) = Some (e', []) \<and> e' AND 0xfff = e AND 0xfff \<and> page_free (pg s) (frame_of e') \<and>
          (\<forall>j<512. entry s' (frame_of e') j = entry s (frame_of e) j)) \<and>
    (\<forall>v w e f. v < 2 ^ 47 \<and> w < 2 ^ 47 \<and> xlate s' cr3 (layers v) = Some (e, []) \<and> xlate s' cr3 (layers w) = Some (f, []) \<and>
       frame_of e = frame_of f \<longrightarrow> v div 4096 = w div 4096) \<and>
    (\<forall>i. 256 \<le> i \<and> i < 512 \<longrightarrow> entry s' cr3 i = entry s source i) \<and>
    (\<forall>k. mrt (pg s) k \<noteq> 0 \<longrightarrow> mrt (pg s') k = mrt (pg s) k \<and> (\<forall>j<512. entry s' k j = entry s k j))"
proof -
  obtain cr3 s' where f: "fork_space vir_ptable4 source s = Some (cr3, s')" "vm_ok s'" "areas_same s s'" "page_free (pg s) cr3"
    "mrt (pg s') cr3 = 1" "cr3 \<noteq> vir_ptable4" "\<And>k. mrt (pg s) k \<noteq> 0 \<Longrightarrow> mrt (pg s') k = mrt (pg s) k"
    "\<And>k j. mrt (pg s) k \<noteq> 0 \<Longrightarrow> j < 512 \<Longrightarrow> entry s' k j = entry s k j"
    "\<And>i. i < 256 \<Longrightarrow> copy_post 3 source cr3 i s s'" "\<And>i. i < 256 \<Longrightarrow> cr3 \<notin> reach 3 s' (entry s' cr3 i)"
    "\<And>i j. i < 256 \<Longrightarrow> j < 256 \<Longrightarrow> i \<noteq> j \<Longrightarrow> reach 3 s' (entry s' cr3 i) \<inter> reach 3 s' (entry s' cr3 j) = {}"
    "\<And>i. 256 \<le> i \<Longrightarrow> i < 512 \<Longrightarrow> entry s' cr3 i = entry s source i"
    "\<And>k. mrt (pg s) k = 0 \<Longrightarrow> mrt (pg s') k \<noteq> 0 \<Longrightarrow> k = cr3 \<or> k \<in> user_pages s' cr3"
    by (rule fork_space_ok [OF assms]) blast
  have "case xlate s source (layers v) of
        None \<Rightarrow> xlate s' cr3 (layers v) = None
      | Some (e, _) \<Rightarrow> \<exists>e'. xlate s' cr3 (layers v) = Some (e', []) \<and> e' AND 0xfff = e AND 0xfff \<and> page_free (pg s) (frame_of e') \<and>
          (\<forall>j<512. entry s' (frame_of e') j = entry s (frame_of e) j)" if v: "v < 2 ^ 47" for v
  proof -
    obtain i ls where l: "layers v = i # ls" "i < 256" "length ls = 3" "indices ls" using layers_user [OF v] by blast
    have c: "cloned (length ls) s (entry s source i) s' (entry s' cr3 i)" and
      r: "reach (length ls) s' (entry s' cr3 i) \<subseteq> new_frames s s'" using f(9) [OF l(2)] l(3) by (simp_all add: copy_post_def)
    have "no_big (length ls) s (entry s source i)" using assms(2) l by (simp add: user_half_def)
    note x = xlate_follow [OF this l(4)] xlate_follow [OF cloned_no_big [OF c] l(4)]
    show ?thesis
    proof (cases "follow s (entry s source i) ls")
      case None
      then show ?thesis using cloned_follow [OF c l(4)] by (simp add: x l(1) del: xlate.simps)
    next
      case (Some y)
      then obtain y' where y: "follow s' (entry s' cr3 i) ls = Some y'" "y' AND 0xfff = y AND 0xfff" "frame_of y' \<in> new_frames s s'"
          "\<forall>j<512. entry s' (frame_of y') j = entry s (frame_of y) j"
        using cloned_follow [OF c l(4)] r by auto
      then show ?thesis using Some by (simp add: x l(1) new_frames_def del: xlate.simps)
    qed
  qed
  moreover have "v div 4096 = w div 4096"
    if vw: "v < 2 ^ 47" "w < 2 ^ 47" "xlate s' cr3 (layers v) = Some (e, [])" "xlate s' cr3 (layers w) = Some (e', [])" "frame_of e = frame_of e'"
    for v w e e'
  proof -
    have nb: "no_big 3 s' (entry s' cr3 i) \<and> sep 3 s' (entry s' cr3 i)" if "i < 256" for i
      using f(9) [OF that] cloned_no_big by (auto simp: copy_post_def)
    have "layers v = layers w" by (rule user_frame_inj [OF vw(1,2) nb f(11) vw(3-5)])
    moreover have "canonical v" "canonical w" using vw(1,2) by (auto simp: canonical_def)
    ultimately show ?thesis using layers_inj by blast
  qed
  ultimately show ?thesis using f by blast
qed

text \<open>A machine with eight free pages and a process that maps one page: its top table is frame 9, the tables
  below it are frames 10, 11 and 12, its page is frame 13; frame 14 is the kernel's table.\<close>

definition fork_vm :: vm where
  "fork_vm = \<lparr>pg = \<lparr>hpa = 0x9000, tpp = 9, tfpp = 8, pais = [\<lparr>spa = 0x1000, epa = 0x9000, fpp = 8, nfpa = 0x1000\<rparr>],
       mrt = (\<lambda>k. if 9 \<le> k then 255 else 0)\<rparr>,
     qw = (\<lambda>_. 0)(4608 := 0xA007, 5120 := 0xB007, 5632 := 0xC007, 6145 := 0xD007, 6656 := 42)\<rparr>"

lemma fork_vm_entries:
  "j < 512 \<Longrightarrow> entry fork_vm 9 j = (if j = 0 then 0xA007 else 0)"
  "j < 512 \<Longrightarrow> entry fork_vm 10 j = (if j = 0 then 0xB007 else 0)"
  "j < 512 \<Longrightarrow> entry fork_vm 11 j = (if j = 0 then 0xC007 else 0)"
  "j < 512 \<Longrightarrow> entry fork_vm 12 j = (if j = 1 then 0xD007 else 0)"
  by (simp_all add: entry_def fork_vm_def)

lemma fork_vm_ptes:
  "present 0xA007" "present 0xB007" "present 0xC007" "present 0xD007" "\<not> big 0xA007" "\<not> big 0xB007" "\<not> big 0xC007" "\<not> big 0xD007"
  "frame_of 0xA007 = 10" "frame_of 0xB007 = 11" "frame_of 0xC007 = 12" "frame_of 0xD007 = 13"
  by (simp_all add: present_def PAGE_PRESENT_def big_def PAGE_BIG_ENTRY_def frame_of_def drop_bit_eq_div)

lemmas fork_vm_simps = fork_vm_entries fork_vm_ptes

lemma walk_0 [simp]: "reach n s 0 = {}" "need n s 0 = 0" "no_big n s 0"
  by (cases n; simp)+

text \<open>A table with one entry.\<close>

lemma walk_single:
  assumes "present e" "\<not> big e" "c < 512" "\<And>j. j < 512 \<Longrightarrow> entry s (frame_of e) j = (if j = c then x else 0)"
  shows "reach (Suc n) s e = insert (frame_of e) (reach n s x)" "need (Suc n) s e = Suc (need n s x)" "no_big (Suc n) s e = no_big n s x"
proof -
  show "reach (Suc n) s e = insert (frame_of e) (reach n s x)" using assms by (auto split: if_splits)
  have "(\<Sum>i<512. need n s (entry s (frame_of e) i)) = (\<Sum>i<512. if i = c then need n s x else 0)"
    by (rule sum.cong) (use assms(4) in auto)
  then show "need (Suc n) s e = Suc (need n s x)" using assms(1,3) by simp
  show "no_big (Suc n) s e = no_big n s x" using assms by auto
qed

lemma fork_vm_levels: "reach 3 fork_vm 0xA007 = {10, 11, 12, 13}" "need 3 fork_vm 0xA007 = 4" "no_big 3 fork_vm 0xA007"
proof -
  have A: "reach (Suc n) fork_vm 0xA007 = insert 10 (reach n fork_vm 0xB007)" "need (Suc n) fork_vm 0xA007 = Suc (need n fork_vm 0xB007)"
      "no_big (Suc n) fork_vm 0xA007 = no_big n fork_vm 0xB007" for n
    using walk_single [of "0xA007" 0 fork_vm "0xB007" n] by (simp_all only: fork_vm_simps) auto
  have B: "reach (Suc n) fork_vm 0xB007 = insert 11 (reach n fork_vm 0xC007)" "need (Suc n) fork_vm 0xB007 = Suc (need n fork_vm 0xC007)"
      "no_big (Suc n) fork_vm 0xB007 = no_big n fork_vm 0xC007" for n
    using walk_single [of "0xB007" 0 fork_vm "0xC007" n] by (simp_all only: fork_vm_simps) auto
  have C: "reach (Suc n) fork_vm 0xC007 = insert 12 (reach n fork_vm 0xD007)" "need (Suc n) fork_vm 0xC007 = Suc (need n fork_vm 0xD007)"
      "no_big (Suc n) fork_vm 0xC007 = no_big n fork_vm 0xD007" for n
    using walk_single [of "0xC007" 1 fork_vm "0xD007" n] by (simp_all only: fork_vm_simps) auto
  have D: "reach 0 fork_vm 0xD007 = {13}" "need 0 fork_vm 0xD007 = 1" "no_big 0 fork_vm 0xD007" by (simp_all add: fork_vm_ptes)
  show "reach 3 fork_vm 0xA007 = {10, 11, 12, 13}" unfolding numeral_3_eq_3 A B C D ..
  show "need 3 fork_vm 0xA007 = 4" unfolding numeral_3_eq_3 A B C D by simp
  show "no_big 3 fork_vm 0xA007" unfolding numeral_3_eq_3 A B C by (rule D)
qed

lemma fork_vm_ok:
  "vm_ok fork_vm" "user_half fork_vm 9" "mrt (pg fork_vm) 14 \<noteq> 0"
  "1 + (\<Sum>i<256. need 3 fork_vm (entry fork_vm 9 i)) \<le> nfree (pg fork_vm)"
proof -
  have "pai_ok (\<lambda>k. if 9 \<le> k then 255 else 0) \<lparr>spa = 0x1000, epa = 0x9000, fpp = 8, nfpa = 0x1000\<rparr>"
    by (rule pai_ok_all_free(1)) (auto simp: pai_pages_def)
  then show "vm_ok fork_vm" by (simp add: vm_ok_def pool_inv_def fork_vm_def)
  show "user_half fork_vm 9"
    using fork_vm_levels(1,3) by (simp add: user_half_def fork_vm_entries) (simp add: fork_vm_def)
  show "mrt (pg fork_vm) 14 \<noteq> 0" by (simp add: fork_vm_def)
  have "{k. page_free (pg fork_vm) k} = {1..8}" by (auto simp: page_free_def fork_vm_def pai_pages_def)
  then have "nfree (pg fork_vm) = 8" by (simp add: nfree_def)
  moreover have "(\<Sum>i<256. need 3 fork_vm (entry fork_vm 9 i)) = (\<Sum>i<256 :: nat. if i = 0 then 4 else 0)"
    by (rule sum.cong) (use fork_vm_levels(2) in \<open>simp_all add: fork_vm_entries\<close>)
  ultimately show "1 + (\<Sum>i<256. need 3 fork_vm (entry fork_vm 9 i)) \<le> nfree (pg fork_vm)" by simp
qed

lemma fork_vm_xlate: "xlate fork_vm 9 (layers 0x1000) = Some (0xD007, [])"
  by (simp add: layers_def VIRTUAL_ADDR_0_def fork_vm_simps)

theorem fork_space_correct_witness:
  "\<exists>cr3 s' e'. fork_space 14 9 fork_vm = Some (cr3, s') \<and> xlate s' cr3 (layers 0x1000) = Some (e', []) \<and>
     entry s' (frame_of e') 0 = 42"
proof -
  obtain cr3 s' where f: "fork_space 14 9 fork_vm = Some (cr3, s')"
      "\<forall>v < 2 ^ 47. case xlate fork_vm 9 (layers v) of
        None \<Rightarrow> xlate s' cr3 (layers v) = None
      | Some (e, _) \<Rightarrow> \<exists>e'. xlate s' cr3 (layers v) = Some (e', []) \<and> e' AND 0xfff = e AND 0xfff \<and> page_free (pg fork_vm) (frame_of e') \<and>
          (\<forall>j<512. entry s' (frame_of e') j = entry fork_vm (frame_of e) j)"
    using fork_space_correct [OF fork_vm_ok] by blast
  have "(0x1000 :: nat) < 2 ^ 47" by simp
  with f(2) have "case Some (0xD007 :: pte, [] :: nat list) of
        None \<Rightarrow> xlate s' cr3 (layers 0x1000) = None
      | Some (e, _) \<Rightarrow> \<exists>e'. xlate s' cr3 (layers 0x1000) = Some (e', []) \<and> e' AND 0xfff = e AND 0xfff \<and> page_free (pg fork_vm) (frame_of e') \<and>
          (\<forall>j<512. entry s' (frame_of e') j = entry fork_vm (frame_of e) j)"
    unfolding fork_vm_xlate [symmetric] by blast
  moreover have "entry fork_vm 13 0 = 42" by (simp add: entry_def fork_vm_def)
  ultimately show ?thesis using f(1) fork_vm_ptes(12) by auto
qed

text \<open>C37: forking an address space and releasing the copy gives every page of the machine the reference
  count it had before, and the contents of all pages that were in use are unchanged: the copy owns exactly
  the pages it took, no two of its entries lead to the same page, and nothing halts.\<close>

theorem fork_release:
  assumes "vm_ok s" "user_half s source" "mrt (pg s) vir_ptable4 \<noteq> 0"
    and "1 + (\<Sum>i<256. need 3 s (entry s source i)) \<le> nfree (pg s)"
  shows "\<exists>cr3 s' s''. fork_space vir_ptable4 source s = Some (cr3, s') \<and> free_ptable_and_mem vir_ptable4 cr3 s' = Some s'' \<and>
    pool_inv (pg s'') \<and> mrt (pg s'') = mrt (pg s) \<and> nfree (pg s'') = nfree (pg s) \<and>
    (\<forall>k. mrt (pg s) k \<noteq> 0 \<longrightarrow> (\<forall>j<512. entry s'' k j = entry s k j))"
proof -
  obtain cr3 s' where f: "fork_space vir_ptable4 source s = Some (cr3, s')" "vm_ok s'" "areas_same s s'" "page_free (pg s) cr3"
    "mrt (pg s') cr3 = 1" "cr3 \<noteq> vir_ptable4" "\<And>k. mrt (pg s) k \<noteq> 0 \<Longrightarrow> mrt (pg s') k = mrt (pg s) k"
    "\<And>k j. mrt (pg s) k \<noteq> 0 \<Longrightarrow> j < 512 \<Longrightarrow> entry s' k j = entry s k j"
    "\<And>i. i < 256 \<Longrightarrow> copy_post 3 source cr3 i s s'" "\<And>i. i < 256 \<Longrightarrow> cr3 \<notin> reach 3 s' (entry s' cr3 i)"
    "\<And>i j. i < 256 \<Longrightarrow> j < 256 \<Longrightarrow> i \<noteq> j \<Longrightarrow> reach 3 s' (entry s' cr3 i) \<inter> reach 3 s' (entry s' cr3 j) = {}"
    "\<And>i. 256 \<le> i \<Longrightarrow> i < 512 \<Longrightarrow> entry s' cr3 i = entry s source i"
    "\<And>k. mrt (pg s) k = 0 \<Longrightarrow> mrt (pg s') k \<noteq> 0 \<Longrightarrow> k = cr3 \<or> k \<in> user_pages s' cr3"
    by (rule fork_space_ok [OF assms]) blast
  have own: "owned (pg s') k" if "page_free (pg s) k" "mrt (pg s') k = 1" for k
    using that f(3) by (auto simp: owned_def page_free_areas areas_same_def simp del: set_map)
  have sub: "reach 3 s' (entry s' cr3 i) \<subseteq> new_frames s s'" if "i < 256" for i using f(9) [OF that] by (simp add: copy_post_def)
  have own3: "\<forall>i<256. \<forall>k \<in> reach 3 s' (entry s' cr3 i). owned (pg s') k" using own sub by (auto simp: new_frames_def)
  have "can_free cr3 [0..<256] s'"
    using f(2,9,10,11) own [OF f(4,5)] own3 by (simp add: can_free_def vm_ok_def copy_post_def)
  then obtain s'' where g: "free_ptable_and_mem vir_ptable4 cr3 s' = Some s''" "released (insert cr3 (user_pages s' cr3)) (pg s') (pg s'')"
      "\<And>k j. j < 512 \<Longrightarrow> k \<noteq> cr3 \<Longrightarrow> entry s'' k j = entry s' k j"
    using free_space_ok f(6) by blast
  have up: "page_free (pg s) k" if "k \<in> insert cr3 (user_pages s' cr3)" for k
    using sub f(4) that by (auto simp: user_pages_def new_frames_def)
  have m: "mrt (pg s'') k = mrt (pg s) k" for k
  proof (cases "mrt (pg s) k = 0")
    case True
    then show ?thesis using g(2) f(13) [OF True] by (auto simp: released_def)
  next
    case False
    then have "k \<notin> insert cr3 (user_pages s' cr3)" using up by (auto simp: page_free_def)
    then show ?thesis using g(2) f(7) [OF False] by (simp add: released_def)
  qed
  have "map pai_pages (pais (pg s'')) = map pai_pages (pais (pg s))" using g(2) f(3) by (simp add: released_def areas_same_def)
  then have "nfree (pg s'') = nfree (pg s)" by (simp add: nfree_def page_free_areas m del: set_map)
  moreover have "entry s'' k j = entry s k j" if "mrt (pg s) k \<noteq> 0" "j < 512" for k j
    using g(3) [of j k] f(4,8) that by (auto simp: page_free_def)
  moreover have "pool_inv (pg s'')" using g(2) by (simp add: released_def)
  moreover have "mrt (pg s'') = mrt (pg s)" using m by blast
  ultimately show ?thesis using f(1) g(1) by blast
qed

theorem fork_release_witness:
  "\<exists>cr3 s' s''. fork_space 14 9 fork_vm = Some (cr3, s') \<and> free_ptable_and_mem 14 cr3 s' = Some s'' \<and> nfree (pg s'') = nfree (pg fork_vm)"
  using fork_release [OF fork_vm_ok] by blast

end
