(* ===== verification/Printf.thy ===== *)
theory Printf
  imports Prelude
begin

text \<open>
  The kernel's formatted output, \<open>vsnprintf\<close> of \<open>src/lib/printf.c\<close>, behind \<open>sprintf\<close>,
  \<open>wb_printf\<close> and \<open>color_printf\<close>.  The output buffer is a byte list, a write outside it is
  the value \<open>None\<close>; the variable arguments are a list of register values and strings.  The
  format string is the list of its bytes before the terminator, and \<open>fch fmt i\<close> is \<open>fmt[i]\<close>.
  Characters are written as their ASCII codes.  What a format means is specified apart from the code, by
  \<open>format_text\<close>; the main theorem is that the code prints it.
\<close>

datatype arg = Val nat | Str "byte list option"

definition fch :: "byte list \<Rightarrow> nat \<Rightarrow> byte" where
  "fch fmt i = (if i < length fmt then fmt ! i else 0)"

text \<open>\<open>va_arg\<close> for the scalar types; a missing argument or a string in its place is \<open>None\<close>.\<close>

fun va_val :: "arg list \<Rightarrow> (nat \<times> arg list) option" where
  "va_val (Val v # as) = Some (v, as)"
| "va_val _ = None"

fun va_str :: "arg list \<Rightarrow> (byte list option \<times> arg list) option" where
  "va_str (Str s # as) = Some (s, as)"
| "va_str _ = None"

definition sx16 :: "nat \<Rightarrow> int" where
  "sx16 v = (if u16 v < 2 ^ 15 then int (u16 v) else int (u16 v) - 2 ^ 16)"

definition sx32 :: "nat \<Rightarrow> int" where
  "sx32 v = (if u32 v < 2 ^ 31 then int (u32 v) else int (u32 v) - 2 ^ 32)"

definition sx64 :: "nat \<Rightarrow> int" where
  "sx64 v = (if u64 v < 2 ^ 63 then int (u64 v) else int (u64 v) - 2 ^ 64)"

section \<open>Writing into the buffer\<close>

type_synonym out = "byte list \<times> nat"

definition emit :: "byte \<Rightarrow> out \<Rightarrow> out option" where
  "emit c = (\<lambda>(buf, pos). if pos < length buf then Some (buf[pos := c], pos + 1) else None)"

text \<open>The bounded copy loops \<open>while (... && pos < size - 1) buf[pos++] = ...\<close>.\<close>

fun emit_str :: "nat \<Rightarrow> byte list \<Rightarrow> out \<Rightarrow> out option" where
  "emit_str sz [] o' = Some o'"
| "emit_str sz (c # cs) o' = (if snd o' < sub32 sz 1 then emit c o' \<bind> emit_str sz cs else Some o')"

section \<open>Numbers\<close>

text \<open>The digits in the order \<open>numbuf\<close> holds them, least significant first.\<close>

function digits_rev :: "nat \<Rightarrow> (nat \<Rightarrow> byte) \<Rightarrow> nat \<Rightarrow> byte list" where
  "digits_rev base dig v =
     dig (v mod base) # (if base \<le> 1 \<or> v div base = 0 then [] else digits_rev base dig (v div base))"
  by pat_completeness auto
termination
  by (relation "measure (\<lambda>(base, dig, v). v)") (auto simp: div_eq_0_iff)

declare digits_rev.simps [simp del]

definition dec_digit :: "nat \<Rightarrow> byte" where "dec_digit d = word_of_nat d + 48"

definition hex_digit :: "bool \<Rightarrow> nat \<Rightarrow> byte" where
  "hex_digit upper d =
     (if d < 10 then word_of_nat d + 48 else if upper then word_of_nat (d - 10) + 65
      else word_of_nat (d - 10) + 97)"

text \<open>Printing \<open>numbuf\<close> backwards; the buffer has 32 bytes.\<close>

definition emit_num :: "nat \<Rightarrow> byte list \<Rightarrow> out \<Rightarrow> out option" where
  "emit_num sz numbuf o' = (if length numbuf \<le> 32 then emit_str sz (rev numbuf) o' else None)"

definition parse_unsigned10 :: "nat \<Rightarrow> nat \<Rightarrow> out \<Rightarrow> out option" where
  "parse_unsigned10 sz v o' = emit_num sz (digits_rev 10 dec_digit v) o'"

definition int64_min :: "byte list" where
  "int64_min = [45, 57, 50, 50, 51, 51, 55, 50, 48, 51, 54, 56, 53, 52, 55, 55, 53, 56, 48, 56]"

definition parse_signed10 :: "nat \<Rightarrow> int \<Rightarrow> out \<Rightarrow> out option" where
  "parse_signed10 sz sv o' =
     (if sv < 0
      then if sv = - (2 ^ 63) then emit_str sz int64_min o'
           else emit 45 o' \<bind> parse_unsigned10 sz (nat (- sv))
      else parse_unsigned10 sz (nat sv) o')"

definition parse_hex :: "nat \<Rightarrow> bool \<Rightarrow> bool \<Rightarrow> nat \<Rightarrow> out \<Rightarrow> out option" where
  "parse_hex sz upper with_header v o' =
     emit_num sz (digits_rev 16 (hex_digit upper) v @ (if with_header then [120, 48] else [])) o'"

definition parse_octal :: "nat \<Rightarrow> bool \<Rightarrow> nat \<Rightarrow> out \<Rightarrow> out option" where
  "parse_octal sz with_header v o' =
     emit_num sz (digits_rev 8 dec_digit v @ (if with_header then [48] else [])) o'"

section \<open>Conversions\<close>

text \<open>What the code behind \<open>parse_next\<close> jumps to: one of the number printers with its value, or
  \<open>continue\<close> at an unknown letter, which is then printed as an ordinary character.\<close>

datatype conv = Signed int | Unsigned nat | Hex bool nat | Octal nat | Unknown

definition conv_h :: "byte \<Rightarrow> arg list \<Rightarrow> (conv \<times> arg list) option" where
  "conv_h c as =
     (if c = 117 then do { (v, as) \<leftarrow> va_val as; Some (Unsigned (u16 v), as) }
      else if c = 100 \<or> c = 105 then do { (v, as) \<leftarrow> va_val as; Some (Signed (sx16 v), as) }
      else if c = 120 then do { (v, as) \<leftarrow> va_val as; Some (Hex False (u16 v), as) }
      else if c = 88 then do { (v, as) \<leftarrow> va_val as; Some (Hex True (u16 v), as) }
      else if c = 111 then do { (v, as) \<leftarrow> va_val as; Some (Octal (u16 v), as) }
      else Some (Unknown, as))"

definition conv_l :: "byte \<Rightarrow> arg list \<Rightarrow> (conv \<times> arg list) option" where
  "conv_l c as =
     (if c = 100 \<or> c = 105 then do { (v, as) \<leftarrow> va_val as; Some (Signed (sx64 v), as) }
      else if c = 117 then do { (v, as) \<leftarrow> va_val as; Some (Unsigned (u64 v), as) }
      else if c = 120 then do { (v, as) \<leftarrow> va_val as; Some (Hex False (u64 v), as) }
      else if c = 88 then do { (v, as) \<leftarrow> va_val as; Some (Hex True (u64 v), as) }
      else if c = 111 then do { (v, as) \<leftarrow> va_val as; Some (Octal (u64 v), as) }
      else Some (Unknown, as))"

text \<open>\<open>%u\<close> reads its argument as an \<open>int32_t\<close> and widens it to \<open>uint64_t\<close>.\<close>

definition conv_plain :: "byte \<Rightarrow> arg list \<Rightarrow> (conv \<times> arg list) option" where
  "conv_plain c as =
     (if c = 100 \<or> c = 105 then do { (v, as) \<leftarrow> va_val as; Some (Signed (sx32 v), as) }
      else if c = 117 then do { (v, as) \<leftarrow> va_val as; Some (Unsigned (nat (sx32 v mod 2 ^ 64)), as) }
      else if c = 120 then do { (v, as) \<leftarrow> va_val as; Some (Hex False (u32 v), as) }
      else if c = 88 then do { (v, as) \<leftarrow> va_val as; Some (Hex True (u32 v), as) }
      else if c = 111 then do { (v, as) \<leftarrow> va_val as; Some (Octal (u32 v), as) }
      else Some (Unknown, as))"

text \<open>\<open>parse_next\<close>: the conversion, the index of its last letter, the remaining arguments.\<close>

definition parse_next :: "byte list \<Rightarrow> nat \<Rightarrow> arg list \<Rightarrow> (conv \<times> nat \<times> arg list) option" where
  "parse_next fmt i as =
     (if fch fmt i = 104 then do { (c, as) \<leftarrow> conv_h (fch fmt (i + 1)) as; Some (c, i + 1, as) }
      else if fch fmt i = 108 then do { (c, as) \<leftarrow> conv_l (fch fmt (i + 1)) as; Some (c, i + 1, as) }
      else do { (c, as) \<leftarrow> conv_plain (fch fmt i) as; Some (c, i, as) })"

definition emit_conv :: "nat \<Rightarrow> bool \<Rightarrow> conv \<Rightarrow> out \<Rightarrow> out option" where
  "emit_conv sz with_header c o' =
     (case c of
        Signed v \<Rightarrow> parse_signed10 sz v o'
      | Unsigned v \<Rightarrow> parse_unsigned10 sz v o'
      | Hex upper v \<Rightarrow> parse_hex sz upper with_header v o'
      | Octal v \<Rightarrow> parse_octal sz with_header v o'
      | Unknown \<Rightarrow> Some o')"

text \<open>One \<open>%\<close> directive, \<open>i\<close> being the index after the \<open>%\<close>; the result has the index where the
  loop goes on.\<close>

definition null_str :: "byte list" where "null_str = [40, 110, 117, 108, 108, 41]"

definition directive :: "nat \<Rightarrow> byte list \<Rightarrow> nat \<Rightarrow> arg list \<Rightarrow> out \<Rightarrow> (nat \<times> arg list \<times> out) option" where
  "directive sz fmt i as o' =
     (if fch fmt i = 99 then do { (v, as) \<leftarrow> va_val as; o' \<leftarrow> emit (word_of_nat v) o'; Some (i + 1, as, o') }
      else if fch fmt i = 115 then
        do { (s, as) \<leftarrow> va_str as;
             o' \<leftarrow> emit_str sz (case s of None \<Rightarrow> null_str | Some str \<Rightarrow> str) o';
             Some (i + 1, as, o') }
      else if fch fmt i = 37 then do { o' \<leftarrow> emit 37 o'; Some (i + 1, as, o') }
      else if fch fmt i = 112 then
        do { (v, as) \<leftarrow> va_val as; o' \<leftarrow> parse_hex sz False True (u64 v) o'; Some (i + 1, as, o') }
      else
        do { let header = (fch fmt i = 35);
             (c, j, as) \<leftarrow> parse_next fmt (if header then i + 1 else i) as;
             o' \<leftarrow> emit_conv sz header c o';
             Some (if c = Unknown then j else j + 1, as, o') })"

section \<open>The formatting loop\<close>

lemma parse_next_index: "parse_next fmt i as = Some (c, j, as') \<Longrightarrow> i \<le> j"
  by (auto simp: parse_next_def bind_eq_Some_conv split: if_splits)

lemma directive_index: "directive sz fmt i as o' = Some (j, as', o'') \<Longrightarrow> i \<le> j"
  by (auto simp: directive_def Let_def bind_eq_Some_conv dest!: parse_next_index split: if_splits)

text \<open>The test for the terminator is the index test, because the listed bytes are those
  before the terminator.\<close>

function vsn_loop :: "nat \<Rightarrow> byte list \<Rightarrow> nat \<Rightarrow> arg list \<Rightarrow> out \<Rightarrow> out option" where
  "vsn_loop sz fmt i as o' =
     (if i < length fmt \<and> snd o' < sub32 sz 1 then
        if fmt ! i = 37 then
          (case directive sz fmt (i + 1) as o' of
             None \<Rightarrow> None
           | Some (j, as', o'') \<Rightarrow> vsn_loop sz fmt j as' o'')
        else (case emit (fmt ! i) o' of None \<Rightarrow> None | Some o'' \<Rightarrow> vsn_loop sz fmt (i + 1) as o'')
      else Some o')"
  by pat_completeness auto
termination
  by (relation "measure (\<lambda>(sz, fmt, i, as, o'). length fmt - i)") (auto dest!: directive_index)

declare vsn_loop.simps [simp del]

definition vsnprintf :: "byte list \<Rightarrow> nat \<Rightarrow> byte list \<Rightarrow> arg list \<Rightarrow> out option" where
  "vsnprintf buf sz fmt as =
     do { (buf, pos) \<leftarrow> vsn_loop sz fmt 0 as (buf, 0);
          (buf, _) \<leftarrow> emit 0 (buf, pos);
          Some (buf, pos) }"

definition sprintf :: "byte list \<Rightarrow> byte list \<Rightarrow> nat \<Rightarrow> arg list \<Rightarrow> out option" where
  "sprintf buf fmt sz as = vsnprintf buf sz fmt as"

section \<open>The text without a buffer\<close>

text \<open>The complete text the code prints for a format with its arguments, with no buffer and no limit: the step
  between the code and the meaning of a format given below.\<close>

definition num_text :: "nat \<Rightarrow> (nat \<Rightarrow> byte) \<Rightarrow> nat \<Rightarrow> byte list" where
  "num_text base dig v = rev (digits_rev base dig v)"

definition conv_text :: "bool \<Rightarrow> conv \<Rightarrow> byte list" where
  "conv_text header c =
     (case c of
        Signed v \<Rightarrow> (if v < 0 then [45] else []) @ num_text 10 dec_digit (nat \<bar>v\<bar>)
      | Unsigned v \<Rightarrow> num_text 10 dec_digit v
      | Hex upper v \<Rightarrow> (if header then [48, 120] else []) @ num_text 16 (hex_digit upper) v
      | Octal v \<Rightarrow> (if header then [48] else []) @ num_text 8 dec_digit v
      | Unknown \<Rightarrow> [])"

definition directive_text :: "byte list \<Rightarrow> nat \<Rightarrow> arg list \<Rightarrow> (nat \<times> arg list \<times> byte list) option" where
  "directive_text fmt i as =
     (if fch fmt i = 99 then do { (v, as) \<leftarrow> va_val as; Some (i + 1, as, [word_of_nat v]) }
      else if fch fmt i = 115 then
        do { (s, as) \<leftarrow> va_str as; Some (i + 1, as, case s of None \<Rightarrow> null_str | Some str \<Rightarrow> str) }
      else if fch fmt i = 37 then Some (i + 1, as, [37])
      else if fch fmt i = 112 then
        do { (v, as) \<leftarrow> va_val as; Some (i + 1, as, conv_text True (Hex False (u64 v))) }
      else
        do { (c, j, as) \<leftarrow> parse_next fmt (if fch fmt i = 35 then i + 1 else i) as;
             Some (if c = Unknown then j else j + 1, as, conv_text (fch fmt i = 35) c) })"

lemma directive_text_index: "directive_text fmt i as = Some (j, as', t) \<Longrightarrow> i \<le> j"
  by (auto simp: directive_text_def bind_eq_Some_conv dest!: parse_next_index split: if_splits)

function render :: "byte list \<Rightarrow> nat \<Rightarrow> arg list \<Rightarrow> byte list option" where
  "render fmt i as =
     (if i < length fmt then
        if fmt ! i = 37 then
          (case directive_text fmt (i + 1) as of
             None \<Rightarrow> None
           | Some (j, as', t) \<Rightarrow> map_option ((@) t) (render fmt j as'))
        else map_option ((#) (fmt ! i)) (render fmt (i + 1) as)
      else Some [])"
  by pat_completeness auto
termination
  by (relation "measure (\<lambda>(fmt, i, as). length fmt - i)") (auto dest!: directive_text_index)

declare render.simps [simp del]

section \<open>Correctness\<close>

text \<open>\<open>put sz t\<close> writes as much of the text \<open>t\<close> as fits before the last byte of the limit.\<close>

definition put :: "nat \<Rightarrow> byte list \<Rightarrow> out \<Rightarrow> out" where
  "put sz t = (\<lambda>(buf, pos). (blit buf pos (take (sz - 1 - pos) t), min (sz - 1) (pos + length t)))"

definition room :: "nat \<Rightarrow> out \<Rightarrow> bool" where
  "room sz = (\<lambda>(buf, pos). 0 < sz \<and> sz < 4294967296 \<and> sz \<le> length buf \<and> pos \<le> sz - 1)"

lemma room_sub32: "room sz o' \<Longrightarrow> sub32 sz (Suc 0) = sz - 1"
  by (auto simp: room_def width)

lemma put_Nil [simp]: "room sz o' \<Longrightarrow> put sz [] o' = o'"
  by (auto simp: put_def room_def blit_def)

lemma room_put [simp]: "room sz o' \<Longrightarrow> room sz (put sz t o')"
  by (auto simp: put_def room_def)

lemma blit_blit:
  "i + length a + length b \<le> length buf \<Longrightarrow> blit (blit buf i a) (i + length a) b = blit buf i (a @ b)"
  by (simp add: blit_def ac_simps)

lemma put_append:
  assumes "room sz o'"
  shows "put sz b (put sz a o') = put sz (a @ b) o'"
proof -
  obtain buf pos where o: "o' = (buf, pos)" by fastforce
  show ?thesis
  proof (cases "pos + length a \<le> sz - 1")
    case True
    then show ?thesis using assms o blit_blit [of pos a "take (sz - 1 - (pos + length a)) b" buf]
      by (auto simp: put_def room_def)
  next
    case False
    have "blit x n [] = x" if "n \<le> length x" for x :: "byte list" and n using that by (simp add: blit_def)
    with False show ?thesis using assms o by (auto simp: put_def room_def)
  qed
qed

lemma emit_put:
  assumes "room sz o'" "snd o' < sz - 1"
  shows "emit c o' = Some (put sz [c] o')"
proof -
  have "buf[pos := c] = blit buf pos [c]" if "pos < length buf" for buf :: "byte list" and pos
    using that by (simp add: blit_def upd_conv_take_nth_drop)
  with assms show ?thesis by (auto simp: emit_def put_def room_def)
qed

lemma emit_str_put: "room sz o' \<Longrightarrow> emit_str sz cs o' = Some (put sz cs o')"
proof (induction cs arbitrary: o')
  case (Cons c cs)
  show ?case
  proof (cases "snd o' < sz - 1")
    case True
    with Cons show ?thesis
      by (simp add: room_sub32 emit_put [OF Cons.prems True] put_append)
  next
    case False
    then have "put sz (c # cs) o' = o'" using Cons.prems
      by (auto simp: put_def room_def blit_def)
    with False Cons.prems show ?thesis by (simp add: room_sub32)
  qed
qed simp

lemma length_digits_rev:
  "v < base ^ k \<Longrightarrow> 2 \<le> base \<Longrightarrow> 0 < k \<Longrightarrow> length (digits_rev base dig v) \<le> k"
proof (induction k arbitrary: v)
  case (Suc k)
  show ?case
  proof (cases "v div base = 0")
    case True
    then show ?thesis by (simp add: digits_rev.simps [of base dig v])
  next
    case False
    then have "base \<le> v" using Suc.prems by (simp add: div_eq_0_iff)
    then have "0 < k" using Suc.prems by (cases k) auto
    moreover have "v div base < base ^ k" using Suc.prems by (simp add: less_mult_imp_div_less mult.commute)
    ultimately show ?thesis using Suc.IH [of "v div base"] Suc.prems by (subst digits_rev.simps) simp
  qed
qed simp

lemma emit_num_put:
  assumes "room sz o'" "v < 2 ^ 64" "base \<in> {8, 10, 16}" "length t \<le> 2"
  shows "emit_num sz (digits_rev base dig v @ t) o' = Some (put sz (rev t @ num_text base dig v) o')"
proof -
  have "(2 :: nat) ^ 64 \<le> base ^ 22"
    using assms(3) by auto
  then have "v < base ^ 22" using assms(2) by (rule less_le_trans [rotated])
  then have "length (digits_rev base dig v) \<le> 22"
    using assms(3) by (intro length_digits_rev) auto
  then show ?thesis using assms by (simp add: emit_num_def num_text_def emit_str_put)
qed

lemmas emit_num_put0 = emit_num_put [where t = "[]", simplified]

lemma min_int64_text: "int64_min = 45 # num_text 10 dec_digit (2 ^ 63)"
  by (simp add: int64_min_def num_text_def digits_rev.simps dec_digit_def)

text \<open>The values the conversions yield fit 64 bits, so \<open>numbuf\<close> is large enough.\<close>

definition conv_fits :: "conv \<Rightarrow> bool" where
  "conv_fits c =
     (case c of Signed v \<Rightarrow> - (2 ^ 63) \<le> v \<and> v < 2 ^ 63 | Unsigned v \<Rightarrow> v < 2 ^ 64 | Hex _ v \<Rightarrow> v < 2 ^ 64
      | Octal v \<Rightarrow> v < 2 ^ 64 | Unknown \<Rightarrow> True)"

lemma widths_fit:
  "u16 v < 18446744073709551616" "u32 v < 18446744073709551616" "u64 v < 18446744073709551616"
  using u16_less [of v] u32_less [of v] u64_less [of v] by linarith+

lemma sx_fit:
  "- (2 ^ 63) \<le> sx16 v \<and> sx16 v < 2 ^ 63" "- (2 ^ 63) \<le> sx32 v \<and> sx32 v < 2 ^ 63"
  "- (2 ^ 63) \<le> sx64 v \<and> sx64 v < 2 ^ 63"
  using u16_less [of v] u32_less [of v] u64_less [of v]
  by (auto simp: sx16_def sx32_def sx64_def simp del: u16_less u32_less u64_less)

lemma parse_next_fits: "parse_next fmt i as = Some (c, j, as') \<Longrightarrow> conv_fits c"
  using sx_fit widths_fit
  by (auto simp: parse_next_def conv_h_def conv_l_def conv_plain_def conv_fits_def bind_eq_Some_conv
      nat_less_iff split: if_splits)

lemma parse_unsigned10_put:
  "room sz o' \<Longrightarrow> v < 2 ^ 64 \<Longrightarrow> parse_unsigned10 sz v o' = Some (put sz (num_text 10 dec_digit v) o')"
  by (simp add: parse_unsigned10_def emit_num_put0)

lemma parse_signed10_put:
  assumes "room sz o'" "snd o' < sz - 1" "- (2 ^ 63) \<le> v" "v < 2 ^ 63"
  shows "parse_signed10 sz v o' = Some (put sz (conv_text h (Signed v)) o')"
proof (cases "v = - (2 ^ 63)")
  case True
  then show ?thesis using assms min_int64_text
    by (simp add: parse_signed10_def conv_text_def emit_str_put)
next
  case False
  then have "nat (- v) < 2 ^ 64" "nat v < 2 ^ 64" using assms by (auto simp: nat_less_iff)
  then show ?thesis using assms False
    by (auto simp: parse_signed10_def conv_text_def emit_put [OF assms(1,2)] parse_unsigned10_put put_append)
qed

lemma emit_conv_put:
  assumes "room sz o'" "snd o' < sz - 1" "conv_fits c"
  shows "emit_conv sz h c o' = Some (put sz (conv_text h c) o')"
proof (cases c)
  case (Signed v)
  then show ?thesis using assms parse_signed10_put [OF assms(1,2), of v h]
    by (simp add: emit_conv_def conv_fits_def)
next
  case (Hex u v)
  then show ?thesis using assms emit_num_put [OF assms(1), of v 16 "[120, 48]" "hex_digit u"]
    by (simp add: emit_conv_def conv_fits_def parse_hex_def conv_text_def emit_num_put0)
next
  case (Octal v)
  then show ?thesis using assms emit_num_put [OF assms(1), of v 8 "[48]" dec_digit]
    by (simp add: emit_conv_def conv_fits_def parse_octal_def conv_text_def emit_num_put0)
qed (use assms in \<open>simp_all add: emit_conv_def conv_fits_def conv_text_def parse_unsigned10_put\<close>)

lemma directive_put:
  assumes "room sz o'" "snd o' < sz - 1" "directive_text fmt i as = Some (j, as', t)"
  shows "directive sz fmt i as o' = Some (j, as', put sz t o')"
proof -
  have hex: "parse_hex sz False True (u64 v) o' = Some (put sz (conv_text True (Hex False (u64 v))) o')" for v
    using emit_conv_put [OF assms(1,2), of "Hex False (u64 v)" True] widths_fit(3) [of v]
    by (simp add: emit_conv_def conv_fits_def)
  note puts = emit_put [OF assms(1,2)] emit_str_put [OF assms(1)] hex
  consider (plain) "fch fmt i \<in> {99, 115, 37, 112}" | (num) "fch fmt i \<notin> {99, 115, 37, 112}" by blast
  then show ?thesis
  proof cases
    case plain
    then show ?thesis using assms(3)
      by (elim insertE emptyE) (auto simp: directive_text_def directive_def bind_eq_Some_conv puts)
  next
    case num
    with assms(3) obtain c k where
      p: "parse_next fmt (if fch fmt i = 35 then i + 1 else i) as = Some (c, k, as')"
        "j = (if c = Unknown then k else k + 1)" "t = conv_text (fch fmt i = 35) c"
      by (auto simp: directive_text_def bind_eq_Some_conv)
    show ?thesis using num p emit_conv_put [OF assms(1,2) parse_next_fits [OF p(1)]]
      by (simp add: directive_def Let_def)
  qed
qed

lemma vsn_loop_put:
  assumes "room sz o'" "render fmt i as = Some t"
  shows "vsn_loop sz fmt i as o' = Some (put sz t o')"
  using assms
proof (induction fmt i as arbitrary: o' t rule: render.induct)
  case (1 fmt i as)
  show ?case
  proof (cases "i < length fmt \<and> snd o' < sz - 1")
    case False
    then have "put sz t o' = o'"
      using "1.prems" by (auto simp: put_def room_def blit_def render.simps [of fmt i as])
    then show ?thesis using False "1.prems" by (subst vsn_loop.simps) (auto simp: room_sub32)
  next
    case True
    note step = vsn_loop.simps [of sz fmt i as o'] and rtext = render.simps [of fmt i as]
    show ?thesis
    proof (cases "fmt ! i = 37")
      case pc: True
      from "1.prems"(2) True pc obtain j as' a b where
        d: "directive_text fmt (i + 1) as = Some (j, as', a)" "render fmt j as' = Some b" "t = a @ b"
        by (auto simp: rtext split: option.splits prod.splits)
      from directive_put [OF "1.prems"(1) _ d(1)] True
      have "directive sz fmt (i + 1) as o' = Some (j, as', put sz a o')" by simp
      moreover have "vsn_loop sz fmt j as' (put sz a o') = Some (put sz b (put sz a o'))"
        using "1.IH"(1) [OF _ pc d(1) refl refl _ d(2)] True "1.prems"(1) by simp
      ultimately show ?thesis using True pc d(3) "1.prems"(1) by (simp add: step room_sub32 put_append)
    next
      case ch: False
      from "1.prems"(2) True ch obtain b where
        d: "render fmt (i + 1) as = Some b" "t = fmt ! i # b" by (auto simp: rtext)
      have "vsn_loop sz fmt (i + 1) as (put sz [fmt ! i] o') = Some (put sz b (put sz [fmt ! i] o'))"
        using "1.IH"(2) [OF _ ch _ d(1)] True "1.prems"(1) by simp
      then show ?thesis using True ch d(2) "1.prems"(1)
        by (simp add: step room_sub32 put_append emit_put)
    qed
  qed
qed

lemma vsnprintf_put:
  assumes "0 < sz" "sz < 4294967296" "sz \<le> length buf" "render fmt 0 as = Some t"
  shows "vsnprintf buf sz fmt as =
    Some (blit buf 0 (take (sz - 1) t @ [0]), min (sz - 1) (length t))"
proof -
  let ?t = "take (sz - 1) t"
  have "room sz (buf, 0)" using assms by (simp add: room_def)
  from vsn_loop_put [OF this assms(4)]
  have "vsn_loop sz fmt 0 as (buf, 0) = Some (blit buf 0 ?t, length ?t)"
    by (simp add: put_def min.commute)
  moreover have "(blit buf 0 ?t)[length ?t := 0] = blit buf 0 (?t @ [0])"
  proof -
    have "length ?t < length buf" using assms(1,3) by (auto simp: min_def)
    then obtain x where "drop (length ?t) buf = x # drop (Suc (length ?t)) buf"
      using Cons_nth_drop_Suc [of "length ?t" buf] by metis
    then show ?thesis by (simp add: blit_def list_update_append del: length_take)
  qed
  moreover have "length ?t < length (blit buf 0 ?t)" using assms(1,3) by (auto simp: min_def)
  ultimately show ?thesis by (simp add: vsnprintf_def emit_def min.commute)
qed

section \<open>What a format means\<close>

text \<open>The meaning of a format, written down apart from the code: a directive is \<open>%c\<close>, \<open>%s\<close>, \<open>%p\<close>, \<open>%%\<close> or
  an integer conversion with an optional \<open>#\<close>, an optional length \<open>h\<close> or \<open>l\<close> and a letter of the table
  \<open>style_of\<close>; the argument is taken modulo \<open>2 ^ 16\<close>, \<open>2 ^ 32\<close> or \<open>2 ^ 64\<close>, as a two's complement number for
  the signed letters, and printed in positional notation.  With \<open>#\<close> hexadecimal numbers start with \<open>0x\<close> and
  octal ones with \<open>0\<close>.  The start of a directive with an unknown letter prints nothing, and the letter itself is
  ordinary text.\<close>

datatype int_size = Short | Plain | Long
datatype int_style = SDec | UDec | HexLow | HexUp | Oct

text \<open>The letters d, i, u, x, X, o.\<close>

definition style_of :: "byte \<Rightarrow> int_style option" where
  "style_of = map_of [(100, SDec), (105, SDec), (117, UDec), (120, HexLow), (88, HexUp), (111, Oct)]"

text \<open>The digits 0 to 9 and a to f, or A to F.\<close>

definition low_digits :: "byte list" where
  "low_digits = [48, 49, 50, 51, 52, 53, 54, 55, 56, 57, 97, 98, 99, 100, 101, 102]"

definition up_digits :: "byte list" where
  "up_digits = [48, 49, 50, 51, 52, 53, 54, 55, 56, 57, 65, 66, 67, 68, 69, 70]"

fun ndigits :: "nat \<Rightarrow> nat \<Rightarrow> nat" where
  "ndigits base v = (if base \<le> 1 \<or> v < base then 1 else Suc (ndigits base (v div base)))"

declare ndigits.simps [simp del]

definition positional :: "byte list \<Rightarrow> nat \<Rightarrow> nat \<Rightarrow> byte list" where
  "positional digits base v = map (\<lambda>i. digits ! (v div base ^ i mod base)) (rev [0..<ndigits base v])"

fun size_bits :: "int_size \<Rightarrow> nat" where
  "size_bits Short = 16" | "size_bits Plain = 32" | "size_bits Long = 64"

definition two_complement :: "nat \<Rightarrow> nat \<Rightarrow> int" where
  "two_complement bits v = (let w = v mod 2 ^ bits in if w < 2 ^ (bits - 1) then int w else int w - 2 ^ bits)"

fun int_text :: "bool \<Rightarrow> int_size \<Rightarrow> int_style \<Rightarrow> nat \<Rightarrow> byte list" where
  "int_text alt len SDec v =
     (let x = two_complement (size_bits len) v
      in (if x < 0 then [45] else []) @ positional low_digits 10 (nat \<bar>x\<bar>))"
| "int_text alt len UDec v = positional low_digits 10 (v mod 2 ^ size_bits len)"
| "int_text alt len HexLow v = (if alt then [48, 120] else []) @ positional low_digits 16 (v mod 2 ^ size_bits len)"
| "int_text alt len HexUp v = (if alt then [48, 120] else []) @ positional up_digits 16 (v mod 2 ^ size_bits len)"
| "int_text alt len Oct v = (if alt then [48] else []) @ positional low_digits 8 (v mod 2 ^ size_bits len)"

definition head_is :: "byte \<Rightarrow> byte list \<Rightarrow> bool" where
  "head_is c cs \<longleftrightarrow> cs \<noteq> [] \<and> hd cs = c"

text \<open>The text behind a \<open>%\<close>: what it prints, the arguments it takes for plain \<open>%u\<close>, the remaining arguments and
  the remaining format.  First behind the length, then from the \<open>#\<close> on, then all of it.\<close>

type_synonym meant = "byte list \<times> nat list \<times> arg list \<times> byte list"

definition letter_meaning :: "bool \<Rightarrow> int_size \<Rightarrow> byte list \<Rightarrow> arg list \<Rightarrow> meant option" where
  "letter_meaning alt len cs as =
     (case cs of
        [] \<Rightarrow> Some ([], [], as, [])
      | l # rest \<Rightarrow>
          (case style_of l of
             None \<Rightarrow> Some ([], [], as, cs)
           | Some style \<Rightarrow>
               map_option
                 (\<lambda>(v, as). (int_text alt len style v, if style = UDec \<and> len = Plain then [v] else [], as, rest))
                 (va_val as)))"

definition int_meaning :: "bool \<Rightarrow> byte list \<Rightarrow> arg list \<Rightarrow> meant option" where
  "int_meaning alt cs as =
     (if head_is 104 cs then letter_meaning alt Short (tl cs) as
      else if head_is 108 cs then letter_meaning alt Long (tl cs) as
      else letter_meaning alt Plain cs as)"

definition meaning :: "byte list \<Rightarrow> arg list \<Rightarrow> meant option" where
  "meaning cs as =
     (if head_is 99 cs then map_option (\<lambda>(v, as). ([word_of_nat v], [], as, tl cs)) (va_val as)
      else if head_is 115 cs
      then map_option (\<lambda>(s, as). (case s of None \<Rightarrow> [40, 110, 117, 108, 108, 41] | Some str \<Rightarrow> str, [], as, tl cs)) (va_str as)
      else if head_is 112 cs then map_option (\<lambda>(v, as). (int_text True Long HexLow v, [], as, tl cs)) (va_val as)
      else if head_is 37 cs then Some ([37], [], as, tl cs)
      else if head_is 35 cs then int_meaning True (tl cs) as
      else int_meaning False cs as)"

lemma letter_meaning_length: "letter_meaning alt len cs as = Some (t, us, as', rest) \<Longrightarrow> length rest \<le> length cs"
  by (auto simp: letter_meaning_def split: list.splits option.splits)

lemma int_meaning_length: "int_meaning alt cs as = Some (t, us, as', rest) \<Longrightarrow> length rest \<le> length cs"
  by (fastforce simp: int_meaning_def dest: letter_meaning_length split: if_splits)

lemma meaning_length: "meaning cs as = Some (t, us, as', rest) \<Longrightarrow> length rest \<le> length cs"
  by (fastforce simp: meaning_def dest: int_meaning_length split: if_splits)

text \<open>The text of a format with its arguments, and the arguments printed by plain \<open>%u\<close>; \<open>None\<close> if an argument is
  missing or of the wrong kind.\<close>

function format_text :: "byte list \<Rightarrow> arg list \<Rightarrow> (byte list \<times> nat list) option" where
  "format_text [] as = Some ([], [])"
| "format_text (c # cs) as =
     (if c = 37 then
        (case meaning cs as of
           None \<Rightarrow> None
         | Some (t, us, as', rest) \<Rightarrow> map_option (\<lambda>(t', us'). (t @ t', us @ us')) (format_text rest as'))
      else map_option (\<lambda>(t, us). (c # t, us)) (format_text cs as))"
  by pat_completeness auto
termination
  by (relation "measure (\<lambda>(cs, as). length cs)") (auto dest!: meaning_length)

section \<open>The code prints the meaning\<close>

lemma digits_rev_positional: "2 \<le> base \<Longrightarrow> digits_rev base dig v = map (\<lambda>i. dig (v div base ^ i mod base)) [0..<ndigits base v]"
proof (induction v rule: less_induct)
  case (less v)
  show ?case
  proof (cases "v < base")
    case True
    then show ?thesis using less.prems by (simp add: digits_rev.simps [of base dig v] ndigits.simps [of base v])
  next
    case False
    then have lt: "v div base < v" "v div base \<noteq> 0" using less.prems by (simp_all add: div_eq_0_iff)
    have "map (\<lambda>i. dig (v div base ^ i mod base)) [0..<Suc n] =
        dig (v mod base) # map (\<lambda>i. dig (v div base div base ^ i mod base)) [0..<n]" for n
      by (simp add: map_upt_Suc div_mult2_eq del: upt_Suc)
    then show ?thesis using less.IH [OF lt(1)] less.prems lt(2) False
      by (simp add: digits_rev.simps [of base dig v] ndigits.simps [of base v] del: upt_Suc)
  qed
qed

lemma num_text_positional:
  assumes "2 \<le> base" "\<And>d. d < base \<Longrightarrow> dig d = digits ! d"
  shows "num_text base dig v = positional digits base v"
  using assms by (simp add: num_text_def digits_rev_positional positional_def rev_map)

lemma below_16: "d < 16 \<Longrightarrow> d \<in> {0, 1, 2, 3, 4, 5, 6, 7, 8, 9, 10, 11, 12, 13, 14, 15 :: nat}"
  by (simp, arith)

lemma digit_tables:
  "d < 10 \<Longrightarrow> dec_digit d = low_digits ! d" "d < 16 \<Longrightarrow> hex_digit False d = low_digits ! d"
  "d < 16 \<Longrightarrow> hex_digit True d = up_digits ! d"
  using below_16 [of d] by (auto simp: dec_digit_def hex_digit_def low_digits_def up_digits_def)

lemma texts:
  "num_text 10 dec_digit v = positional low_digits 10 v" "num_text 8 dec_digit v = positional low_digits 8 v"
  "num_text 16 (hex_digit False) v = positional low_digits 16 v" "num_text 16 (hex_digit True) v = positional up_digits 16 v"
  by (rule num_text_positional; simp add: digit_tables)+

lemma two_complement_sx: "two_complement 16 v = sx16 v" "two_complement 32 v = sx32 v" "two_complement 64 v = sx64 v"
  by (simp_all add: two_complement_def sx16_def sx32_def sx64_def u16_def u32_def u64_def Let_def)

lemma fch_drop: "fch fmt i = (case drop i fmt of [] \<Rightarrow> 0 | c # _ \<Rightarrow> c)"
  by (cases "i < length fmt") (simp_all add: fch_def Cons_nth_drop_Suc [symmetric])

lemma head_is_fch: "c \<noteq> 0 \<Longrightarrow> head_is c (drop i fmt) \<longleftrightarrow> fch fmt i = c"
  by (auto simp: fch_def head_is_def hd_drop_conv_nth)

lemma tl_drop_Suc: "tl (drop i fmt) = drop (Suc i) fmt"
  by (simp add: drop_Suc tl_drop)

lemma drop_past: "drop i fmt = c # rest \<Longrightarrow> fch fmt i = c \<and> drop (Suc i) fmt = rest"
  using fch_drop [of fmt i] tl_drop_Suc [of i fmt] by simp

lemma drop_end: "drop i fmt = [] \<Longrightarrow> fch fmt i = 0"
  using fch_drop [of fmt i] by simp

text \<open>The three conversion tables against the one of the specification.\<close>

fun code_conv :: "int_size \<Rightarrow> byte \<Rightarrow> arg list \<Rightarrow> (conv \<times> arg list) option" where
  "code_conv Short = conv_h" | "code_conv Plain = conv_plain" | "code_conv Long = conv_l"

lemma style_of_None: "style_of c = None \<longleftrightarrow> c \<notin> {100, 105, 117, 120, 88, 111}"
  by (simp add: style_of_def)

lemma style_of_Some:
  "style_of c = Some st \<longleftrightarrow>
     (st = SDec \<and> (c = 100 \<or> c = 105)) \<or> (st = UDec \<and> c = 117) \<or> (st = HexLow \<and> c = 120) \<or>
     (st = HexUp \<and> c = 88) \<or> (st = Oct \<and> c = 111)"
  by (auto simp: style_of_def)

lemma unknown_code: "style_of c = None \<Longrightarrow> code_conv len c as = Some (Unknown, as)"
  by (cases len) (simp_all add: style_of_None conv_h_def conv_plain_def conv_l_def)

lemma plain_u: "v mod 2 ^ 32 < 2 ^ 31 \<Longrightarrow> nat (sx32 v mod 2 ^ 64) = v mod 2 ^ 32"
  by (simp add: sx32_def u32_def)

lemma known_code:
  assumes "style_of c = Some st" "va_val as = Some (v, as')" "st = UDec \<and> len = Plain \<longrightarrow> v mod 2 ^ 32 < 2 ^ 31"
  shows "\<exists>k. code_conv len c as = Some (k, as') \<and> k \<noteq> Unknown \<and> conv_text alt k = int_text alt len st v"
proof -
  note [simp] = conv_h_def conv_plain_def conv_l_def conv_text_def texts two_complement_sx u16_def u32_def u64_def plain_u [simplified]
  show ?thesis
    using assms by (cases len; cases st) (auto simp: style_of_Some Let_def)
qed

lemma letter_meaning_code:
  assumes "letter_meaning alt len (drop i fmt) as = Some (t, us, as', rest)" "\<forall>v\<in>set us. v mod 2 ^ 32 < 2 ^ 31"
  shows "\<exists>c. code_conv len (fch fmt i) as = Some (c, as') \<and>
    drop (if c = Unknown then i else i + 1) fmt = rest \<and> conv_text alt c = t"
proof (cases "drop i fmt")
  case Nil
  have "style_of 0 = None" by (simp add: style_of_None)
  with Nil assms show ?thesis by (simp add: letter_meaning_def drop_end unknown_code conv_text_def)
next
  case (Cons l r)
  note l = drop_past [OF Cons]
  show ?thesis
  proof (cases "style_of l")
    case None
    with Cons assms l show ?thesis by (auto simp: letter_meaning_def unknown_code conv_text_def)
  next
    case (Some st)
    with Cons assms obtain v where v: "va_val as = Some (v, as')" "t = int_text alt len st v" "rest = r"
      "us = (if st = UDec \<and> len = Plain then [v] else [])"
      by (auto simp: letter_meaning_def)
    with assms(2) have "st = UDec \<and> len = Plain \<longrightarrow> v mod 2 ^ 32 < 2 ^ 31" by simp
    from known_code [OF Some v(1) this, of alt] v l show ?thesis by auto
  qed
qed

lemma int_meaning_code:
  assumes "int_meaning alt (drop i fmt) as = Some (t, us, as', rest)" "\<forall>v\<in>set us. v mod 2 ^ 32 < 2 ^ 31"
  shows "\<exists>c j. parse_next fmt i as = Some (c, j, as') \<and>
    drop (if c = Unknown then j else j + 1) fmt = rest \<and> conv_text alt c = t"
proof -
  consider (h) "fch fmt i = 104" | (l) "fch fmt i = 108" | (p) "fch fmt i \<noteq> 104" "fch fmt i \<noteq> 108" by blast
  then show ?thesis
  proof cases
    case h
    with assms letter_meaning_code [of alt Short "Suc i"] show ?thesis
      by (fastforce simp: int_meaning_def head_is_fch tl_drop_Suc parse_next_def)
  next
    case l
    with assms letter_meaning_code [of alt Long "Suc i"] show ?thesis
      by (fastforce simp: int_meaning_def head_is_fch tl_drop_Suc parse_next_def)
  next
    case p
    with assms letter_meaning_code [of alt Plain i] show ?thesis
      by (fastforce simp: int_meaning_def head_is_fch parse_next_def)
  qed
qed

lemma meaning_code:
  assumes "meaning (drop i fmt) as = Some (t, us, as', rest)" "\<forall>v\<in>set us. v mod 2 ^ 32 < 2 ^ 31"
  shows "\<exists>j. directive_text fmt i as = Some (j, as', t) \<and> drop j fmt = rest"
proof -
  consider (s) "fch fmt i \<in> {99, 115, 112, 37}" | (a) "fch fmt i = 35" | (p) "fch fmt i \<notin> {99, 115, 112, 37, 35}" by blast
  then show ?thesis
  proof cases
    case s
    with assms show ?thesis
      by (auto simp: meaning_def head_is_fch tl_drop_Suc directive_text_def conv_text_def texts u64_def null_str_def split: option.splits)
  next
    case a
    with assms have "int_meaning True (drop (Suc i) fmt) as = Some (t, us, as', rest)"
      by (simp add: meaning_def head_is_fch tl_drop_Suc)
    from int_meaning_code [OF this assms(2)] a show ?thesis
      by (auto simp: directive_text_def)
  next
    case p
    with assms have "int_meaning False (drop i fmt) as = Some (t, us, as', rest)"
      by (simp add: meaning_def head_is_fch)
    from int_meaning_code [OF this assms(2)] p show ?thesis
      by (auto simp: directive_text_def)
  qed
qed

lemma render_format:
  assumes "format_text (drop i fmt) as = Some (t, us)" "\<forall>v\<in>set us. v mod 2 ^ 32 < 2 ^ 31"
  shows "render fmt i as = Some t"
  using assms
proof (induction "length fmt - i" arbitrary: i as t us rule: less_induct)
  case less
  show ?case
  proof (cases "i < length fmt")
    case False
    with less.prems show ?thesis by (simp add: render.simps [of fmt i])
  next
    case True
    then have d: "drop i fmt = fmt ! i # drop (Suc i) fmt" by (simp add: Cons_nth_drop_Suc)
    show ?thesis
    proof (cases "fmt ! i = 37")
      case False
      with less.prems d obtain t' where t': "format_text (drop (Suc i) fmt) as = Some (t', us)" "t = fmt ! i # t'" by auto
      with less.hyps [OF _ t'(1) less.prems(2)] True False show ?thesis by (simp add: render.simps [of fmt i])
    next
      case p: True
      with less.prems(1) d obtain t1 us1 as1 rest t2 us2 where m: "meaning (drop (Suc i) fmt) as = Some (t1, us1, as1, rest)"
        and r: "format_text rest as1 = Some (t2, us2)" "t = t1 @ t2" "us = us1 @ us2"
        by (auto split: option.splits)
      from meaning_code [OF m] less.prems(2) r obtain j where j: "directive_text fmt (Suc i) as = Some (j, as1, t1)" "drop j fmt = rest"
        by auto
      with directive_text_index [OF j(1)] less.hyps [of j as1 t2 us2] r less.prems(2) True p show ?thesis
        by (simp add: render.simps [of fmt i])
    qed
  qed
qed



text \<open>The decimal text of a number denotes the number.\<close>

lemma digits_rev_value:
  "foldr (\<lambda>d n. (unat d - 48) + 10 * n) (digits_rev 10 dec_digit v) 0 = v"
proof (induction v rule: less_induct)
  case (less v)
  have "dec_digit (v mod 10) = word_of_nat (v mod 10 + 48)" by (simp add: dec_digit_def)
  then have "unat (dec_digit (v mod 10)) = (v mod 10 + 48) mod 256" by (simp add: unat_of_nat_byte del: of_nat_add)
  then have d: "unat (dec_digit (v mod 10)) - 48 = v mod 10" by simp
  show ?case
  proof (cases "v div 10 = 0")
    case True
    then show ?thesis using d by (subst digits_rev.simps) auto
  next
    case False
    then have "v div 10 < v" by (simp add: div_eq_0_iff)
    from less [OF this] d False show ?thesis
      by (subst digits_rev.simps) (simp add: mod_mult_div_eq)
  qed
qed

text \<open>\<open>%u\<close> with the value \<open>2 ^ 31\<close> is widened with its sign.\<close>

lemma percent_u_sign_extends:
  "conv_plain 117 [Val 2147483648] = Some (Unsigned 18446744071562067968, [])"
  by (simp add: conv_plain_def sx32_def u32_def)

end
