(* ===== verification/BlockDev.thy ===== *)
theory BlockDev
  imports Printf
begin

text \<open>
  Block devices, partitions and partition tables: \<open>src/fs/block.c\<close>, with the UUID functions of
  \<open>src/fs/ext2.c\<close> it calls.

  The disk drivers (AHCI, EHCI, UHCI) are a parameter: \<open>'d\<close> is the state of the hardware and
  \<open>drv_read\<close>, \<open>drv_write\<close> are the \<open>read\<close> and \<open>write\<close> entries the drivers put into their
  \<open>block_device_t\<close>, applied to the disk they serve.  A read is \<open>None\<close> and a write is
  \<open>(False, h')\<close> where the driver returns an error.  What the code above relies on is the locale
  \<open>reliable_disk\<close>.

  Block devices live in a store of pointers (\<open>devs\<close>); \<open>kmalloc\<close> yields the pointer
  \<open>next_ptr\<close>, which no device has.  It never returns NULL (the page allocator halts when memory is
  exhausted), so the tests of its result are dead branches.  Console messages and the entries that
  \<open>block_register\<close> makes in devfs are left out.
\<close>

section \<open>Devices\<close>

record 'd driver =
  drv_read :: "'d \<Rightarrow> nat \<Rightarrow> nat \<Rightarrow> nat \<Rightarrow> byte list option"
  drv_write :: "'d \<Rightarrow> nat \<Rightarrow> nat \<Rightarrow> nat \<Rightarrow> byte list \<Rightarrow> bool \<times> 'd"

datatype block_type = BLOCK_DISK | BLOCK_PARTITION

text \<open>\<open>block_device_t\<close> together with the fields \<open>partition_t\<close> adds.  \<open>dunit\<close> is the disk that
  serves the device: the device itself, or the \<open>parent\<close> of a partition.\<close>

record block_device =
  bd_id :: nat
  bd_type :: block_type
  bd_name :: "byte list"
  block_size :: nat
  total_blocks :: nat
  dunit :: nat
  start_lba :: nat
  sector_count :: nat
  bootable :: nat
  part_type :: nat
  uuid :: "byte list option"

definition partition_read :: "'d driver \<Rightarrow> 'd \<Rightarrow> block_device \<Rightarrow> nat \<Rightarrow> nat \<Rightarrow> byte list option" where
  "partition_read D h dev lba cnt =
     (if bd_type dev = BLOCK_PARTITION
      then if u64 (lba + cnt) > sector_count dev then None
           else drv_read D h (dunit dev) (u64 (start_lba dev + lba)) cnt
      else drv_read D h (dunit dev) lba cnt)"

definition partition_write :: "'d driver \<Rightarrow> 'd \<Rightarrow> block_device \<Rightarrow> nat \<Rightarrow> nat \<Rightarrow> byte list \<Rightarrow> bool \<times> 'd" where
  "partition_write D h dev lba cnt b =
     (if bd_type dev = BLOCK_PARTITION
      then if u64 (lba + cnt) > sector_count dev then (False, h)
           else drv_write D h (dunit dev) (u64 (start_lba dev + lba)) cnt b
      else drv_write D h (dunit dev) lba cnt b)"

text \<open>The file operations of a block device node.  The position counts sectors; \<open>len\<close> is a
  \<open>size_t\<close> that the call narrows to 32 bits.  The results are the return value, the new position
  and the data or the new hardware state.\<close>

definition block_file_read ::
  "'d driver \<Rightarrow> 'd \<Rightarrow> block_device option \<Rightarrow> nat \<Rightarrow> nat \<Rightarrow> int \<times> nat \<times> byte list" where
  "block_file_read D h dev len pos =
     (case dev of
        None \<Rightarrow> (-1, pos, [])
      | Some dev \<Rightarrow>
          (case partition_read D h dev pos (u32 len) of
             Some b \<Rightarrow> (int len, u64 (pos + len), b)
           | None \<Rightarrow> (-1, pos, [])))"

definition block_file_write ::
  "'d driver \<Rightarrow> 'd \<Rightarrow> block_device option \<Rightarrow> byte list \<Rightarrow> nat \<Rightarrow> nat \<Rightarrow> int \<times> nat \<times> 'd" where
  "block_file_write D h dev b len pos =
     (case dev of
        None \<Rightarrow> (-1, pos, h)
      | Some dev \<Rightarrow>
          (case partition_write D h dev pos (u32 len) b of
             (True, h') \<Rightarrow> (int len, u64 (pos + len), h')
           | (False, h') \<Rightarrow> (-1, pos, h')))"

definition block_file_open :: int where "block_file_open = 0"
definition block_file_release :: int where "block_file_release = 0"
definition block_file_fsync :: int where "block_file_fsync = 0"
definition block_file_readdir :: int where "block_file_readdir = -1"

section \<open>UUIDs\<close>

definition hex_char :: "nat \<Rightarrow> byte" where
  "hex_char d = [48, 49, 50, 51, 52, 53, 54, 55, 56, 57, 97, 98, 99, 100, 101, 102] ! d"

definition uuid_to_string :: "byte list \<Rightarrow> byte list" where
  "uuid_to_string u =
     fold (\<lambda>i out. out @ [hex_char (unat (drop_bit 4 (u ! i))), hex_char (unat (take_bit 4 (u ! i)))]
                       @ (if i = 3 \<or> i = 5 \<or> i = 7 \<or> i = 9 then [45] else [])) [0..<16] []"

definition hex_value :: "byte \<Rightarrow> byte option" where
  "hex_value c =
     (if 48 \<le> c \<and> c \<le> 57 then Some (c - 48)
      else if 97 \<le> c \<and> c \<le> 102 then Some (c - 97 + 10)
      else if 65 \<le> c \<and> c \<le> 70 then Some (c - 65 + 10)
      else None)"

text \<open>The result is the return value and the 16-byte array; a store outside the array is \<open>None\<close>.
  The caller's string has at least 36 characters before its end is reached.\<close>

function uuid_from :: "byte list \<Rightarrow> nat \<Rightarrow> nat \<Rightarrow> byte list \<Rightarrow> (int \<times> byte list) option" where
  "uuid_from str i j u =
     (if i < 36
      then if str ! i = 45 then uuid_from str (i + 1) j u
           else if i + 1 \<ge> 36 then Some (-1, u)
           else (case hex_value (str ! i) of
                   None \<Rightarrow> Some (-1, u)
                 | Some high \<Rightarrow>
                     (case hex_value (str ! (i + 1)) of
                        None \<Rightarrow> Some (-1, u)
                      | Some low \<Rightarrow>
                          if j < length u
                          then uuid_from str (i + 2) (j + 1) (u[j := or (push_bit 4 high) low])
                          else None))
      else Some (if j = 16 then 0 else -1, u))"
  by pat_completeness auto
termination by (relation "measure (\<lambda>(str, i, j, u). 36 - i)") auto

declare uuid_from.simps [simp del]

definition uuid_from_string :: "byte list \<Rightarrow> byte list \<Rightarrow> (int \<times> byte list) option" where
  "uuid_from_string str u = uuid_from str 0 0 u"

definition EXT2_SUPER_MAGIC :: nat where "EXT2_SUPER_MAGIC = 0xEF53"
definition EXT2_MAGIC_OFFSET :: nat where "EXT2_MAGIC_OFFSET = 0x38"
definition EXT2_UUID_OFFSET :: nat where "EXT2_UUID_OFFSET = 0x68"
definition PARTITION_LINUX :: nat where "PARTITION_LINUX = 0x83"

text \<open>\<open>ext2_read_uuid\<close> yields the new value of \<open>part->uuid\<close>.\<close>

definition ext2_read_uuid :: "'d driver \<Rightarrow> 'd \<Rightarrow> block_device \<Rightarrow> byte list option" where
  "ext2_read_uuid D h part =
     (case partition_read D h part 2 2 of
        None \<Rightarrow> uuid part
      | Some buf \<Rightarrow>
          if get16 buf EXT2_MAGIC_OFFSET \<noteq> EXT2_SUPER_MAGIC then uuid part
          else Some (uuid_to_string (slice buf EXT2_UUID_OFFSET 16)))"

text \<open>\<open>ext2_write_uuid\<close> with its test as written: a read that succeeds ends in the error return, and
  a read that fails goes on with \<open>junk\<close>, the content of the fresh buffer.  \<open>stack\<close> is the
  uninitialised array \<open>new_uuid\<close>.\<close>

definition ext2_write_uuid ::
  "'d driver \<Rightarrow> 'd \<Rightarrow> block_device \<Rightarrow> byte list \<Rightarrow> byte list \<Rightarrow> byte list \<Rightarrow> (int \<times> 'd) option" where
  "ext2_write_uuid D h part uuid_str junk stack =
     (case partition_read D h part 2 2 of
        Some _ \<Rightarrow> Some (-1, h)
      | None \<Rightarrow>
          if get16 junk EXT2_MAGIC_OFFSET \<noteq> EXT2_SUPER_MAGIC then Some (-1, h)
          else do { (ret, new_uuid) \<leftarrow> uuid_from_string uuid_str stack;
                    if ret \<noteq> 0 then Some (-1, h)
                    else Some (0, snd (partition_write D h part 2 2 (blit junk EXT2_UUID_OFFSET new_uuid))) })"

definition write_uuid ::
  "'d driver \<Rightarrow> 'd \<Rightarrow> block_device \<Rightarrow> byte list \<Rightarrow> byte list \<Rightarrow> byte list \<Rightarrow> (int \<times> block_device \<times> 'd) option" where
  "write_uuid D h part str junk stack =
     (if part_type part = PARTITION_LINUX
      then do { (ret, h') \<leftarrow> ext2_write_uuid D h part str junk stack;
                Some (if ret = 0 then (0, part\<lparr>uuid := Some str\<rparr>, h') else (ret, part, h')) }
      else Some (-1, part, h))"

definition read_uuid :: "'d driver \<Rightarrow> 'd \<Rightarrow> block_device \<Rightarrow> block_device" where
  "read_uuid D h part =
     (if part_type part = PARTITION_LINUX then part\<lparr>uuid := ext2_read_uuid D h part\<rparr> else part)"

section \<open>The block manager\<close>

record 'd blk =
  hw :: 'd
  global_block_id :: nat
  block_device_id :: nat
  block_list :: "nat list"
  device_list :: "nat list"
  childs :: "nat \<Rightarrow> nat list"
  devs :: "nat \<Rightarrow> block_device option"
  next_ptr :: nat

definition init_block :: "'d blk \<Rightarrow> 'd blk" where
  "init_block s = s\<lparr>block_device_id := 0, global_block_id := 0, block_list := [], device_list := []\<rparr>"

function name_letters :: "nat \<Rightarrow> byte list" where
  "name_letters index =
     (97 + word_of_nat (index mod 26)) #
     (if index div 26 = 0 then [] else name_letters (index div 26 - 1))"
  by pat_completeness auto
termination by (relation "measure id") (auto simp: less_imp_diff_less div_eq_0_iff)

declare name_letters.simps [simp del]

definition disk_index_to_name :: "nat \<Rightarrow> byte list" where
  "disk_index_to_name index = rev (name_letters index)"

definition alloc_block_id :: "'d blk \<Rightarrow> nat \<times> 'd blk" where
  "alloc_block_id s = (global_block_id s, s\<lparr>global_block_id := u64 (global_block_id s + 1)\<rparr>)"

definition alloc_device_id :: "'d blk \<Rightarrow> nat \<times> 'd blk" where
  "alloc_device_id s = (block_device_id s, s\<lparr>block_device_id := u64 (block_device_id s + 1)\<rparr>)"

text \<open>\<open>block_register\<close> of the device at \<open>p\<close>; the caller has filled in the rest of it.  The format
  of a disk name is \<open>sd%s\<close>.\<close>

definition block_register :: "nat \<Rightarrow> 'd blk \<Rightarrow> 'd blk option" where
  "block_register p s =
     do { dev \<leftarrow> devs s p;
          let (i, s) = alloc_block_id s;
          let dev = dev\<lparr>bd_id := i\<rparr>;
          let s = s\<lparr>block_list := block_list s @ [p]\<rparr>;
          if bd_type dev = BLOCK_DISK
          then do { let s = s\<lparr>childs := (childs s)(p := []), device_list := device_list s @ [p]\<rparr>;
                    let (k, s) = alloc_device_id s;
                    (name, _) \<leftarrow> sprintf (bd_name dev) [115, 100, 37, 115] 18
                                   [Str (Some (disk_index_to_name k))];
                    Some (s\<lparr>devs := (devs s)(p \<mapsto> dev\<lparr>bd_name := name\<rparr>)\<rparr>) }
          else Some (s\<lparr>childs := (childs s)(dunit dev := childs s (dunit dev) @ [p]),
                       devs := (devs s)(p \<mapsto> dev)\<rparr>) }"

text \<open>\<open>block_unregister\<close> takes the partition out of its disk's list and frees it; the global list
  keeps its entry.\<close>

definition block_unregister :: "nat \<Rightarrow> 'd blk \<Rightarrow> (int \<times> 'd blk) option" where
  "block_unregister p s =
     do { dev \<leftarrow> devs s p;
          if bd_type dev = BLOCK_DISK then Some (-1, s)
          else Some (0, s\<lparr>childs := (childs s)(dunit dev := remove1 p (childs s (dunit dev))),
                          devs := (devs s)(p := None)\<rparr>) }"

section \<open>Partition tables\<close>

definition MBR_SIGNATURE :: nat where "MBR_SIGNATURE = 0xAA55"
definition MBR_PART_COUNT :: nat where "MBR_PART_COUNT = 4"
definition GPT_PROTECTIVE_TYPE :: nat where "GPT_PROTECTIVE_TYPE = 0xEE"

record mbr_entry =
  e_bootable :: nat
  e_type :: nat
  e_start_lba :: nat
  e_sector_count :: nat

text \<open>The entries of \<open>mbr_t\<close> start at byte 446 and have 16 bytes; the signature is the last word.\<close>

definition mbr_ent :: "byte list \<Rightarrow> nat \<Rightarrow> mbr_entry" where
  "mbr_ent buf i =
     \<lparr>e_bootable = unat (buf ! (446 + 16 * i)), e_type = unat (buf ! (446 + 16 * i + 4)),
      e_start_lba = get32 buf (446 + 16 * i + 8), e_sector_count = get32 buf (446 + 16 * i + 12)\<rparr>"

definition mbr_signature :: "byte list \<Rightarrow> nat" where
  "mbr_signature buf = get16 buf 510"

text \<open>The partition record that both loaders fill in; its name has the format \<open>%s%d\<close>.  The name
  of the disk ends at its NUL.\<close>

definition new_partition :: "nat \<Rightarrow> block_device \<Rightarrow> nat \<Rightarrow> mbr_entry \<Rightarrow> nat \<Rightarrow> block_device option" where
  "new_partition disk d start ent number =
     do { (name, _) \<leftarrow> sprintf (replicate 18 0) [37, 115, 37, 100] 18
                         [Str (Some (takeWhile (\<lambda>c. c \<noteq> 0) (bd_name d))), Val number];
          Some \<lparr>bd_id = 0, bd_type = BLOCK_PARTITION, bd_name = name, block_size = block_size d,
                total_blocks = e_sector_count ent, dunit = disk, start_lba = start,
                sector_count = e_sector_count ent, bootable = e_bootable ent, part_type = e_type ent,
                uuid = None\<rparr> }"

text \<open>Allocate, fill in, register, and read the UUID: the common part of the two loaders.\<close>

definition add_partition :: "'d driver \<Rightarrow> nat \<Rightarrow> nat \<Rightarrow> mbr_entry \<Rightarrow> nat \<Rightarrow> 'd blk \<Rightarrow> 'd blk option" where
  "add_partition D disk start ent number s =
     do { d \<leftarrow> devs s disk;
          let p = next_ptr s;
          part \<leftarrow> new_partition disk d start ent number;
          s \<leftarrow> block_register p (s\<lparr>devs := (devs s)(p \<mapsto> part), next_ptr := Suc p\<rparr>);
          part \<leftarrow> devs s p;
          Some (s\<lparr>devs := (devs s)(p \<mapsto> read_uuid D (hw s) part)\<rparr>) }"

definition load_primary_partition :: "'d driver \<Rightarrow> nat \<Rightarrow> mbr_entry \<Rightarrow> nat \<Rightarrow> 'd blk \<Rightarrow> 'd blk option" where
  "load_primary_partition D disk ent index s =
     (if e_sector_count ent = 0 then Some s else add_partition D disk (e_start_lba ent) ent (index + 1) s)"

definition is_extended_type :: "nat \<Rightarrow> bool" where
  "is_extended_type t \<longleftrightarrow> t = 0x05 \<or> t = 0x0F \<or> t = 0x85"

function scan_ebr :: "'d driver \<Rightarrow> nat \<Rightarrow> nat \<Rightarrow> nat \<Rightarrow> nat \<Rightarrow> nat \<Rightarrow> 'd blk \<Rightarrow> 'd blk option" where
  "scan_ebr D disk ext_base_lba current_ebr logical_index safety s =
     (if safety > 32 then Some s
      else case drv_read D (hw s) disk current_ebr 1 of
        None \<Rightarrow> Some s
      | Some buffer \<Rightarrow>
          if mbr_signature buffer \<noteq> MBR_SIGNATURE then Some s
          else
            let part_entry = mbr_ent buffer 0; next_entry = mbr_ent buffer 1;
                present = (e_type part_entry \<noteq> 0 \<and> e_sector_count part_entry \<noteq> 0)
            in case (if present
                     then add_partition D disk (u32 (current_ebr + e_start_lba part_entry)) part_entry
                            logical_index s
                     else Some s) of
                 None \<Rightarrow> None
               | Some s' \<Rightarrow>
                   if e_type next_entry = 0 \<or> e_sector_count next_entry = 0 then Some s'
                   else scan_ebr D disk ext_base_lba (u32 (ext_base_lba + e_start_lba next_entry))
                          (if present then logical_index + 1 else logical_index) (safety + 1) s')"
  by pat_completeness auto
termination by (relation "measure (\<lambda>(D, disk, b, c, l, safety, s). 33 - safety)") auto

declare scan_ebr.simps [simp del]

definition scan_extended :: "'d driver \<Rightarrow> nat \<Rightarrow> nat \<Rightarrow> 'd blk \<Rightarrow> 'd blk option" where
  "scan_extended D disk ext_base_lba s = scan_ebr D disk ext_base_lba ext_base_lba 5 0 s"

text \<open>The second loop of \<open>mbr_scan\<close> from entry \<open>i\<close> on.\<close>

fun scan_entries :: "'d driver \<Rightarrow> nat \<Rightarrow> byte list \<Rightarrow> nat list \<Rightarrow> 'd blk \<Rightarrow> 'd blk option" where
  "scan_entries D disk buffer [] s = Some s"
| "scan_entries D disk buffer (i # is) s =
     (let ent = mbr_ent buffer i
      in if e_type ent = 0 then scan_entries D disk buffer is s
         else if is_extended_type (e_type ent)
         then scan_extended D disk (e_start_lba ent) s \<bind> scan_entries D disk buffer is
         else load_primary_partition D disk ent i s \<bind> scan_entries D disk buffer is)"

definition mbr_scan :: "'d driver \<Rightarrow> nat \<Rightarrow> 'd blk \<Rightarrow> (int \<times> 'd blk) option" where
  "mbr_scan D disk s =
     do { d \<leftarrow> devs s disk;
          if block_size d \<noteq> 512 then Some (-1, s)
          else case drv_read D (hw s) disk 0 1 of
            None \<Rightarrow> Some (-1, s)
          | Some buffer \<Rightarrow>
              if mbr_signature buffer \<noteq> MBR_SIGNATURE then Some (-1, s)
              else if \<exists>i \<in> set [0..<MBR_PART_COUNT]. e_type (mbr_ent buffer i) = GPT_PROTECTIVE_TYPE
              then Some (-1, s)
              else do { s \<leftarrow> scan_entries D disk buffer [0..<MBR_PART_COUNT] s; Some (0, s) } }"

fun scan_devices :: "'d driver \<Rightarrow> nat list \<Rightarrow> 'd blk \<Rightarrow> 'd blk option" where
  "scan_devices D [] s = Some s"
| "scan_devices D (p # ps) s = do { (_, s) \<leftarrow> mbr_scan D p s; scan_devices D ps s }"

definition read_partitions :: "'d driver \<Rightarrow> 'd blk \<Rightarrow> 'd blk option" where
  "read_partitions D s = scan_devices D (device_list s) s"

text \<open>The search of \<open>mount_root\<close> for the partition with the UUID of the command line; \<open>None\<close> is the
  panic.\<close>

definition root_partition :: "byte list \<Rightarrow> 'd blk \<Rightarrow> nat option" where
  "root_partition rootuuid s =
     find (\<lambda>p. case devs s p of
                 None \<Rightarrow> False
               | Some dev \<Rightarrow> bd_type dev = BLOCK_PARTITION \<and> uuid dev = Some rootuuid) (block_list s)"

section \<open>The registry invariant\<close>

definition is_disk :: "'d blk \<Rightarrow> nat \<Rightarrow> bool" where
  "is_disk s p \<longleftrightarrow> (\<exists>d. devs s p = Some d \<and> bd_type d = BLOCK_DISK)"

definition is_part_of :: "'d blk \<Rightarrow> nat \<Rightarrow> nat \<Rightarrow> bool" where
  "is_part_of s disk p \<longleftrightarrow> (\<exists>d. devs s p = Some d \<and> bd_type d = BLOCK_PARTITION \<and> dunit d = disk)"

text \<open>The global list has every device once, numbered in the order of registration; the device list
  has the disks and each disk's list its partitions, in the same order.\<close>

definition blk_inv :: "'d blk \<Rightarrow> bool" where
  "blk_inv s \<longleftrightarrow>
     distinct (block_list s) \<and> (\<forall>p. devs s p \<noteq> None \<longrightarrow> p < next_ptr s) \<and>
     global_block_id s = u64 (length (block_list s)) \<and>
     (\<forall>k<length (block_list s). \<exists>d. devs s (block_list s ! k) = Some d \<and> bd_id d = u64 k) \<and>
     device_list s = filter (is_disk s) (block_list s) \<and>
     (\<forall>p \<in> set (device_list s). childs s p = filter (is_part_of s p) (block_list s))"

text \<open>\<open>grown disk s n s'\<close>: the registry \<open>s'\<close> is \<open>s\<close> with at most \<open>n\<close> partitions of \<open>disk\<close> more.\<close>

definition grown :: "nat \<Rightarrow> 'd blk \<Rightarrow> nat \<Rightarrow> 'd blk \<Rightarrow> bool" where
  "grown disk s n s' \<longleftrightarrow>
     blk_inv s' \<and> device_list s' = device_list s \<and> hw s' = hw s \<and>
     (\<forall>p. devs s p \<noteq> None \<longrightarrow> devs s' p = devs s p) \<and>
     (\<exists>new. length new \<le> n \<and> block_list s' = block_list s @ new \<and>
        childs s' disk = childs s disk @ new \<and> (\<forall>p \<in> set new. is_part_of s' disk p))"

lemma grown_refl: "blk_inv s \<Longrightarrow> grown disk s n s"
  by (simp add: grown_def)

lemma grown_mono: "grown disk s n s' \<Longrightarrow> n \<le> m \<Longrightarrow> grown disk s m s'"
  by (fastforce simp: grown_def)

lemma grown_trans:
  assumes "grown disk a m b" "grown disk b n c"
  shows "grown disk a (m + n) c"
proof -
  from assms(1) obtain x where x: "length x \<le> m" "block_list b = block_list a @ x"
    "childs b disk = childs a disk @ x" "\<forall>p \<in> set x. is_part_of b disk p" by (auto simp: grown_def)
  from assms(2) obtain y where y: "length y \<le> n" "block_list c = block_list b @ y"
    "childs c disk = childs b disk @ y" "\<forall>p \<in> set y. is_part_of c disk p" by (auto simp: grown_def)
  have "is_part_of c disk p" if "p \<in> set x" for p
    using x(4) assms(2) that unfolding grown_def is_part_of_def by fastforce
  then have "\<exists>new. length new \<le> m + n \<and> block_list c = block_list a @ new \<and>
      childs c disk = childs a disk @ new \<and> (\<forall>p \<in> set new. is_part_of c disk p)"
    using x y by (intro exI [of _ "x @ y"]) auto
  then show ?thesis using assms unfolding grown_def by fastforce
qed

lemma grown_disk: "grown disk s n s' \<Longrightarrow> disk \<in> set (device_list s) \<Longrightarrow> disk \<in> set (device_list s')"
  by (simp add: grown_def)

lemma length_vsnprintf:
  assumes "0 < sz" "sz < 4294967296" "sz \<le> length buf" "render fmt 0 as = Some t"
  obtains name k where "vsnprintf buf sz fmt as = Some (name, k)" "length name = length buf"
proof -
  have "length (take (sz - 1) t @ [0]) \<le> length buf" using assms(1,3) by auto
  then show ?thesis using that vsnprintf_put [OF assms] by (simp add: min_def)
qed

lemma render_part_name: "render [37, 115, 37, 100] 0 [Str (Some x), Val n] =
    Some (x @ conv_text False (Signed (sx32 n)))"
proof -
  let ?f = "[37, 115, 37, 100] :: byte list"
  have "directive_text ?f 3 [Val n] = Some (4, [], conv_text False (Signed (sx32 n)))"
    by (simp add: directive_text_def fch_def parse_next_def conv_plain_def)
  then have "render ?f 2 [Val n] = Some (conv_text False (Signed (sx32 n)))"
    by (subst render.simps) (simp add: render.simps [of ?f 4 "[]"])
  moreover have "directive_text ?f 1 [Str (Some x), Val n] = Some (2, [Val n], x)"
    by (simp add: directive_text_def fch_def)
  ultimately show ?thesis by (subst render.simps) simp
qed

lemma render_disk_name: "render [115, 100, 37, 115] 0 [Str (Some x)] = Some (115 # 100 # x)"
proof -
  let ?f = "[115, 100, 37, 115] :: byte list"
  have "directive_text ?f 3 [Str (Some x)] = Some (4, [], x)"
    by (simp add: directive_text_def fch_def)
  then have "render ?f 2 [Str (Some x)] = Some x"
    by (subst render.simps) (simp add: render.simps [of ?f 4 "[]"])
  then have "render ?f (Suc 0) [Str (Some x)] = Some (100 # x)"
    by (subst render.simps) (simp add: numeral_2_eq_2 [symmetric])
  then show ?thesis by (subst render.simps) simp
qed

lemma new_partition_ok:
  obtains part where "new_partition disk d start ent number = Some part"
    "bd_type part = BLOCK_PARTITION" "dunit part = disk" "start_lba part = start"
    "sector_count part = e_sector_count ent"
proof -
  obtain name k where "vsnprintf (replicate 18 0) 18 [37, 115, 37, 100]
      [Str (Some (takeWhile (\<lambda>c. c \<noteq> 0) (bd_name d))), Val number] = Some (name, k)"
    by (rule length_vsnprintf [of 18 "replicate 18 0", OF _ _ _ render_part_name]) auto
  then show ?thesis using that by (simp add: new_partition_def sprintf_def)
qed

lemma read_uuid_keeps [simp]:
  "bd_type (read_uuid D h d) = bd_type d" "dunit (read_uuid D h d) = dunit d"
  "bd_id (read_uuid D h d) = bd_id d" "start_lba (read_uuid D h d) = start_lba d"
  "sector_count (read_uuid D h d) = sector_count d"
  by (simp_all add: read_uuid_def)

lemma length_snoc_id: "u64 (Suc (u64 n)) = u64 (Suc n)"
  by (simp add: u64_def mod_Suc_eq)

text \<open>What registering a new partition does to the registry.\<close>

definition with_partition :: "'d blk \<Rightarrow> nat \<Rightarrow> block_device \<Rightarrow> 'd blk" where
  "with_partition s disk part =
     s\<lparr>next_ptr := Suc (next_ptr s), global_block_id := u64 (global_block_id s + 1),
       block_list := block_list s @ [next_ptr s],
       childs := (childs s)(disk := childs s disk @ [next_ptr s]),
       devs := (devs s)(next_ptr s \<mapsto> part\<lparr>bd_id := global_block_id s\<rparr>)\<rparr>"

lemma add_partition_eq:
  assumes "devs s disk \<noteq> None"
  obtains part where "add_partition D disk start ent number s = Some (with_partition s disk part)"
    "bd_type part = BLOCK_PARTITION" "dunit part = disk" "start_lba part = start"
    "sector_count part = e_sector_count ent"
proof -
  from assms obtain d where d: "devs s disk = Some d" by blast
  obtain part where n: "new_partition disk d start ent number = Some part"
    and part: "bd_type part = BLOCK_PARTITION" "dunit part = disk" "start_lba part = start"
    "sector_count part = e_sector_count ent" by (rule new_partition_ok)
  let ?q = "read_uuid D (hw s) (part\<lparr>bd_id := global_block_id s\<rparr>)"
  have q: "?q\<lparr>bd_id := global_block_id s\<rparr> = ?q" by (simp add: read_uuid_def)
  have "add_partition D disk start ent number s = Some (with_partition s disk ?q)"
    using d n part
    by (simp add: add_partition_def block_register_def alloc_block_id_def with_partition_def Let_def q)
  then show ?thesis using that part by simp
qed

lemma with_partition_grown:
  assumes inv: "blk_inv s" and disk: "disk \<in> set (device_list s)"
    and part: "bd_type part = BLOCK_PARTITION" "dunit part = disk"
  shows "grown disk s 1 (with_partition s disk part)"
proof -
  let ?p = "next_ptr s" and ?s = "with_partition s disk part"
  have fresh: "devs s ?p = None" using inv by (fastforce simp: blk_inv_def)
  have listed: "devs s q \<noteq> None" if "q \<in> set (block_list s)" for q
    using inv that unfolding blk_inv_def in_set_conv_nth by fastforce
  have new: "?p \<notin> set (block_list s)" using fresh listed by blast
  have disk_old: "is_disk ?s q \<longleftrightarrow> is_disk s q" if "q \<noteq> ?p" for q
    using that by (simp add: is_disk_def with_partition_def)
  have part_old: "is_part_of ?s r q \<longleftrightarrow> is_part_of s r q" if "q \<noteq> ?p" for r q
    using that by (simp add: is_part_of_def with_partition_def)
  have disks: "filter (is_disk ?s) (block_list s @ [?p]) = filter (is_disk s) (block_list s)"
  proof -
    have "\<not> is_disk ?s ?p" using part by (simp add: is_disk_def with_partition_def)
    moreover have "filter (is_disk ?s) (block_list s) = filter (is_disk s) (block_list s)"
      by (rule filter_cong [OF refl]) (use disk_old new in metis)
    ultimately show ?thesis by simp
  qed
  have parts: "filter (is_part_of ?s r) (block_list s @ [?p]) =
      filter (is_part_of s r) (block_list s) @ (if r = disk then [?p] else [])" for r
  proof -
    have "is_part_of ?s r ?p \<longleftrightarrow> r = disk" using part by (auto simp: is_part_of_def with_partition_def)
    moreover have "filter (is_part_of ?s r) (block_list s) = filter (is_part_of s r) (block_list s)"
      by (rule filter_cong [OF refl]) (use part_old new in metis)
    ultimately show ?thesis by simp
  qed
  have ids: "\<exists>d. devs ?s (block_list ?s ! k) = Some d \<and> bd_id d = u64 k"
    if "k < length (block_list ?s)" for k
  proof (cases "k < length (block_list s)")
    case True
    moreover from this have "block_list s ! k \<noteq> ?p" using new by (metis nth_mem)
    ultimately show ?thesis using inv by (auto simp: with_partition_def nth_append blk_inv_def)
  next
    case False
    then show ?thesis using that inv by (simp add: with_partition_def nth_append blk_inv_def less_Suc_eq)
  qed
  have flds: "block_list ?s = block_list s @ [?p]" "device_list ?s = device_list s"
    "childs ?s = (childs s)(disk := childs s disk @ [?p])" by (simp_all add: with_partition_def)
  have old: "device_list s = filter (is_disk s) (block_list s)"
    "\<forall>q \<in> set (device_list s). childs s q = filter (is_part_of s q) (block_list s)"
    using inv by (simp_all add: blk_inv_def)
  have "blk_inv ?s" unfolding blk_inv_def
  proof (intro conjI)
    show "distinct (block_list ?s)" using inv new by (simp add: blk_inv_def with_partition_def)
    show "\<forall>p. devs ?s p \<noteq> None \<longrightarrow> p < next_ptr ?s"
      using inv by (auto simp: blk_inv_def with_partition_def less_Suc_eq)
    show "global_block_id ?s = u64 (length (block_list ?s))"
      using inv by (simp add: blk_inv_def with_partition_def length_snoc_id)
    show "\<forall>k<length (block_list ?s). \<exists>d. devs ?s (block_list ?s ! k) = Some d \<and> bd_id d = u64 k"
      using ids by blast
    show "device_list ?s = filter (is_disk ?s) (block_list ?s)"
      unfolding flds disks by (rule old(1))
    show "\<forall>p \<in> set (device_list ?s). childs ?s p = filter (is_part_of ?s p) (block_list ?s)"
      unfolding flds parts using old(2) by simp
  qed
  moreover have "\<forall>q. devs s q \<noteq> None \<longrightarrow> devs ?s q = devs s q" using fresh by (auto simp: with_partition_def)
  moreover have "is_part_of ?s disk ?p" using part by (auto simp: is_part_of_def with_partition_def)
  ultimately show ?thesis unfolding grown_def
    by (auto simp: with_partition_def intro!: exI [of _ "[?p]"])
qed

lemma add_partition_grown:
  assumes "blk_inv s" "disk \<in> set (device_list s)"
  obtains s' where "add_partition D disk start ent number s = Some s'" "grown disk s 1 s'"
proof -
  have "devs s disk \<noteq> None" using assms by (auto simp: blk_inv_def is_disk_def)
  then show ?thesis
    by (rule add_partition_eq) (use that with_partition_grown [OF assms] in blast)
qed

lemma scan_ebr_grown:
  assumes "blk_inv s" "disk \<in> set (device_list s)"
  shows "\<exists>s'. scan_ebr D disk base cur idx safety s = Some s' \<and> grown disk s (33 - safety) s'"
  using assms
proof (induction D disk base cur idx safety s rule: scan_ebr.induct)
  case (1 D disk base cur idx safety s)
  show ?case
  proof (cases "safety > 32 \<or> (case drv_read D (hw s) disk cur 1 of None \<Rightarrow> True
                              | Some b \<Rightarrow> mbr_signature b \<noteq> MBR_SIGNATURE)")
    case True
    then have "scan_ebr D disk base cur idx safety s = Some s"
      by (subst scan_ebr.simps) (auto split: option.splits)
    then show ?thesis using grown_refl "1.prems" by blast
  next
    case False
    then obtain b where b: "drv_read D (hw s) disk cur 1 = Some b" "mbr_signature b = MBR_SIGNATURE"
      and le: "safety \<le> 32" by (auto split: option.splits)
    define pe where "pe = mbr_ent b 0"
    define ne where "ne = mbr_ent b 1"
    define pres where "pres = (e_type pe \<noteq> 0 \<and> e_sector_count pe \<noteq> 0)"
    have "\<exists>s1. (if pres then add_partition D disk (u32 (cur + e_start_lba pe)) pe idx s else Some s) = Some s1
        \<and> grown disk s 1 s1"
      by (cases pres) (use add_partition_grown [OF "1.prems"] grown_refl [OF "1.prems"(1)] in \<open>metis+\<close>)
    then obtain s1 where s1: "(if pres then add_partition D disk (u32 (cur + e_start_lba pe)) pe idx s
        else Some s) = Some s1" and g1: "grown disk s 1 s1" by blast
    note step = scan_ebr.simps [of D disk base cur idx safety s]
    show ?thesis
    proof (cases "e_type ne = 0 \<or> e_sector_count ne = 0")
      case True
      then have "scan_ebr D disk base cur idx safety s = Some s1"
        using b le s1 unfolding pe_def ne_def pres_def by (subst step) (simp add: Let_def)
      then show ?thesis using grown_mono [OF g1] le by auto
    next
      case more: False
      let ?idx = "if pres then idx + 1 else idx" and ?cur = "u32 (base + e_start_lba ne)"
      have rec: "scan_ebr D disk base cur idx safety s = scan_ebr D disk base ?cur ?idx (safety + 1) s1"
        using b le s1 more unfolding pe_def ne_def pres_def by (subst step) (simp add: Let_def)
      have inv1: "blk_inv s1" "disk \<in> set (device_list s1)" using g1 "1.prems" by (auto simp: grown_def)
      have "\<exists>s'. scan_ebr D disk base ?cur ?idx (safety + 1) s1 = Some s' \<and> grown disk s1 (33 - (safety + 1)) s'"
        using "1.IH" [OF _ b(1) _ pe_def ne_def pres_def s1 _ inv1] le b(2) more by simp
      then obtain s' where s': "scan_ebr D disk base ?cur ?idx (safety + 1) s1 = Some s'"
        "grown disk s1 (33 - (safety + 1)) s'" by blast
      have "grown disk s (33 - safety) s'" using grown_mono [OF grown_trans [OF g1 s'(2)]] le by auto
      then show ?thesis using rec s'(1) by auto
    qed
  qed
qed

section \<open>What the code relies on in a disk\<close>

text \<open>The contract of \<open>read\<close> and \<open>write\<close> for sectors of 512 bytes: \<open>sec h i\<close> is the content of
  sector \<open>i\<close>, \<open>nsec\<close> the size of the device, \<open>ok\<close> the states of working hardware.  A transfer of 1 to \<open>nmax\<close>
  sectors inside the device succeeds; a write changes its own sectors and no other.  Nothing is assumed of
  other requests: the drivers put only 16 bits of the sector count into a command (\<open>src/machine/ahci.c\<close>,
  \<open>ehci.c\<close>, \<open>uhci.c\<close>).\<close>

locale reliable_disk =
  fixes rd :: "'d \<Rightarrow> nat \<Rightarrow> nat \<Rightarrow> byte list option"
    and wr :: "'d \<Rightarrow> nat \<Rightarrow> nat \<Rightarrow> byte list \<Rightarrow> bool \<times> 'd"
    and sec :: "'d \<Rightarrow> nat \<Rightarrow> byte list" and nsec nmax :: nat and ok :: "'d \<Rightarrow> bool"
  assumes rd_in: "ok h \<Longrightarrow> lba + n \<le> nsec \<Longrightarrow> 0 < n \<Longrightarrow> n \<le> nmax \<Longrightarrow> rd h lba n = Some (concat (map (sec h) [lba..<lba + n]))"
    and sec_len: "ok h \<Longrightarrow> i < nsec \<Longrightarrow> length (sec h i) = 512"
    and wr_in: "ok h \<Longrightarrow> lba + n \<le> nsec \<Longrightarrow> 0 < n \<Longrightarrow> n \<le> nmax \<Longrightarrow> length b = 512 * n \<Longrightarrow>
      \<exists>h'. wr h lba n b = (True, h') \<and> ok h' \<and>
        (\<forall>i. sec h' i = (if lba \<le> i \<and> i < lba + n then slice b (512 * (i - lba)) 512 else sec h i))"
begin

definition extent_of :: "'d \<Rightarrow> nat \<Rightarrow> nat \<Rightarrow> byte list" where
  "extent_of h lba n = concat (map (sec h) [lba..<lba + n])"

lemma rd_extent: "ok h \<Longrightarrow> lba + n \<le> nsec \<Longrightarrow> 0 < n \<Longrightarrow> n \<le> nmax \<Longrightarrow> rd h lba n = Some (extent_of h lba n)"
  by (simp add: extent_of_def rd_in)

lemma length_extent: "ok h \<Longrightarrow> lba + n \<le> nsec \<Longrightarrow> length (extent_of h lba n) = 512 * n"
  using length_concat_eq [of "[lba..<lba + n]" "sec h" 512] sec_len by (simp add: extent_of_def)

lemma wr_extent:
  assumes "ok h" "lba + n \<le> nsec" "0 < n" "n \<le> nmax" "length b = 512 * n"
  obtains h' where "wr h lba n b = (True, h')" "ok h'" "extent_of h' lba n = b"
    "\<And>l m. l + m \<le> lba \<or> lba + n \<le> l \<Longrightarrow> extent_of h' l m = extent_of h l m"
    "\<And>i. i < lba \<or> lba + n \<le> i \<Longrightarrow> sec h' i = sec h i"
proof -
  from wr_in [OF assms] obtain h' where h': "wr h lba n b = (True, h')" "ok h'"
    and s: "\<And>i. sec h' i = (if lba \<le> i \<and> i < lba + n then slice b (512 * (i - lba)) 512 else sec h i)" by blast
  have "extent_of h' lba n = concat (map (\<lambda>i. slice b (512 * i) 512) [0..<n])"
    by (auto simp: extent_of_def map_upt_shift s intro!: arg_cong [where f = concat])
  then have "extent_of h' lba n = b" using concat_slices [of b 512 n] assms(5) by simp
  moreover have "extent_of h' l m = extent_of h l m" if "l + m \<le> lba \<or> lba + n \<le> l" for l m
    using that by (auto simp: extent_of_def s intro!: arg_cong [where f = concat] map_cong)
  moreover have "sec h' i = sec h i" if "i < lba \<or> lba + n \<le> i" for i using that by (auto simp: s)
  ultimately show ?thesis using that h' by blast
qed

end

text \<open>A partition inside a reliable disk is a reliable disk with its own sector numbers.\<close>

locale partition_on_disk =
  reliable_disk "\<lambda>h. drv_read D h (dunit dev)" "\<lambda>h. drv_write D h (dunit dev)" sec nsec nmax ok
  for D :: "'d driver" and dev :: block_device and sec nsec nmax ok +
  assumes is_partition: "bd_type dev = BLOCK_PARTITION"
    and inside: "start_lba dev + sector_count dev \<le> nsec"
    and disk_size: "nsec < 18446744073709551616"
begin

lemma partition_rd:
  "lba + n \<le> sector_count dev \<Longrightarrow> partition_read D h dev lba n = drv_read D h (dunit dev) (start_lba dev + lba) n"
  using is_partition inside disk_size by (simp add: partition_read_def width)

lemma partition_wr:
  "lba + n \<le> sector_count dev \<Longrightarrow>
     partition_write D h dev lba n b = drv_write D h (dunit dev) (start_lba dev + lba) n b"
  using is_partition inside disk_size by (simp add: partition_write_def width)

lemma partition_wr_in:
  assumes "ok h" "lba + n \<le> sector_count dev" "0 < n" "n \<le> nmax" "length b = 512 * n"
  shows "\<exists>h'. partition_write D h dev lba n b = (True, h') \<and> ok h' \<and>
    (\<forall>i. sec h' (start_lba dev + i) =
       (if lba \<le> i \<and> i < lba + n then slice b (512 * (i - lba)) 512 else sec h (start_lba dev + i)))"
proof -
  from wr_in [OF assms(1), of "start_lba dev + lba" n b] assms inside
  obtain h' where "drv_write D h (dunit dev) (start_lba dev + lba) n b = (True, h')" "ok h'"
    "\<forall>i. sec h' i = (if start_lba dev + lba \<le> i \<and> i < start_lba dev + lba + n
        then slice b (512 * (i - (start_lba dev + lba))) 512 else sec h i)" by auto
  with assms(2) show ?thesis by (intro exI [of _ h']) (auto simp: partition_wr)
qed

end

sublocale partition_on_disk \<subseteq> part: reliable_disk "\<lambda>h. partition_read D h dev" "\<lambda>h. partition_write D h dev"
  "\<lambda>h i. sec h (start_lba dev + i)" "sector_count dev" nmax ok
proof
  fix h :: 'd and lba n i and b :: "byte list"
  show "ok h \<Longrightarrow> lba + n \<le> sector_count dev \<Longrightarrow> 0 < n \<Longrightarrow> n \<le> nmax \<Longrightarrow>
      partition_read D h dev lba n = Some (concat (map (\<lambda>i. sec h (start_lba dev + i)) [lba..<lba + n]))"
    using inside rd_in [of h "start_lba dev + lba" n] map_upt_shift [of "sec h" "start_lba dev + lba" n]
    by (simp add: partition_rd map_upt_shift [of _ lba n] add.assoc)
  show "ok h \<Longrightarrow> i < sector_count dev \<Longrightarrow> length (sec h (start_lba dev + i)) = 512"
    using inside sec_len by simp
qed (rule partition_wr_in)

text \<open>A disk in memory: the instance the contract has for concrete runs.  The state maps a disk and a
  sector to the bytes of the sector.\<close>

definition ram_driver :: "nat \<Rightarrow> (nat \<Rightarrow> nat \<Rightarrow> byte list) driver" where
  "ram_driver cap =
     \<lparr>drv_read = (\<lambda>h u lba n. if lba + n \<le> cap then Some (concat (map (h u) [lba..<lba + n])) else None),
      drv_write = (\<lambda>h u lba n b.
        if lba + n \<le> cap
        then (True, h(u := \<lambda>i. if lba \<le> i \<and> i < lba + n then slice b (512 * (i - lba)) 512 else h u i))
        else (False, h))\<rparr>"

definition ram_ok :: "nat \<Rightarrow> nat \<Rightarrow> (nat \<Rightarrow> nat \<Rightarrow> byte list) \<Rightarrow> bool" where
  "ram_ok u cap h \<longleftrightarrow> (\<forall>i < cap. length (h u i) = 512)"

lemma ram_reliable:
  "reliable_disk (\<lambda>h. drv_read (ram_driver n) h u) (\<lambda>h. drv_write (ram_driver n) h u) (\<lambda>h. h u) n nmax (ram_ok u n)"
proof
  fix h :: "nat \<Rightarrow> nat \<Rightarrow> byte list" and lba m i and b :: "byte list"
  assume ok: "ram_ok u n h"
  show "lba + m \<le> n \<Longrightarrow> drv_read (ram_driver n) h u lba m = Some (concat (map (h u) [lba..<lba + m]))"
    by (simp add: ram_driver_def)
  show "i < n \<Longrightarrow> length (h u i) = 512" using ok by (simp add: ram_ok_def)
  assume le: "lba + m \<le> n" and b: "length b = 512 * m"
  have "512 * (j - lba) + 512 \<le> length b" if "lba \<le> j" "j < lba + m" for j
    using that b by (simp add: diff_less_mono2 less_diff_conv2 algebra_simps)
  then show "\<exists>h'. drv_write (ram_driver n) h u lba m b = (True, h') \<and> ram_ok u n h' \<and>
      (\<forall>j. h' u j = (if lba \<le> j \<and> j < lba + m then slice b (512 * (j - lba)) 512 else h u j))"
    using ok le by (auto simp: ram_driver_def ram_ok_def)
qed

interpretation ram: reliable_disk "\<lambda>h. drv_read (ram_driver n) h u" "\<lambda>h. drv_write (ram_driver n) h u"
  "\<lambda>h. h u" n nmax "ram_ok u n" for n u nmax
  by (rule ram_reliable)

text \<open>A partition of sectors 2 to 5 of the disk with pointer 1.\<close>

definition demo_part :: block_device where
  "demo_part = \<lparr>bd_id = 0, bd_type = BLOCK_PARTITION, bd_name = [], block_size = 512, total_blocks = 4,
     dunit = 1, start_lba = 2, sector_count = 4, bootable = 0, part_type = 0x83, uuid = None\<rparr>"

interpretation demo: partition_on_disk "ram_driver 8" demo_part "\<lambda>h. h 1" 8 65535 "ram_ok 1 8"
  by (intro partition_on_disk.intro partition_on_disk_axioms.intro)
    (use ram_reliable [of 8 1] in \<open>simp_all add: demo_part_def\<close>)

section \<open>Scanning a partition table\<close>

definition start_and_size :: "'d blk \<Rightarrow> nat \<Rightarrow> nat \<times> nat" where
  "start_and_size s p = (case devs s p of None \<Rightarrow> (0, 0) | Some d \<Rightarrow> (start_lba d, sector_count d))"

text \<open>The non-empty entries among the given ones, as extents.\<close>

definition listed_extents :: "byte list \<Rightarrow> nat list \<Rightarrow> (nat \<times> nat) list" where
  "listed_extents buffer ks =
     map (\<lambda>i. (e_start_lba (mbr_ent buffer i), e_sector_count (mbr_ent buffer i)))
       (filter (\<lambda>i. e_type (mbr_ent buffer i) \<noteq> 0 \<and> e_sector_count (mbr_ent buffer i) \<noteq> 0) ks)"

lemma scan_extended_grown:
  assumes "blk_inv s" "disk \<in> set (device_list s)"
  obtains s' where "scan_extended D disk base s = Some s'" "grown disk s 33 s'"
  using scan_ebr_grown [OF assms, of D base base 5 0] that by (auto simp: scan_extended_def)

lemma load_primary_grown:
  assumes "blk_inv s" "disk \<in> set (device_list s)"
  obtains s' where "load_primary_partition D disk ent index s = Some s'" "grown disk s 1 s'"
    "block_list s' = block_list s @ (if e_sector_count ent = 0 then [] else [next_ptr s])"
    "e_sector_count ent \<noteq> 0 \<longrightarrow> start_and_size s' (next_ptr s) = (e_start_lba ent, e_sector_count ent)"
proof (cases "e_sector_count ent = 0")
  case True
  then show ?thesis using that [of s] grown_refl [OF assms(1)] by (simp add: load_primary_partition_def)
next
  case False
  have "devs s disk \<noteq> None" using assms by (auto simp: blk_inv_def is_disk_def)
  then obtain part where "add_partition D disk (e_start_lba ent) ent (index + 1) s = Some (with_partition s disk part)"
    and part: "bd_type part = BLOCK_PARTITION" "dunit part = disk" "start_lba part = e_start_lba ent"
      "sector_count part = e_sector_count ent"
    by (rule add_partition_eq)
  then show ?thesis using that [of "with_partition s disk part"] with_partition_grown [OF assms part(1,2)] False
    by (simp add: load_primary_partition_def start_and_size_def with_partition_def)
qed

lemma scan_entries_grown:
  assumes "blk_inv s" "disk \<in> set (device_list s)"
  shows "\<exists>s'. scan_entries D disk buffer ks s = Some s' \<and> grown disk s (33 * length ks) s'"
  using assms
proof (induction "ks" arbitrary: s)
  case Nil
  then show ?case by (simp add: grown_refl)
next
  case (Cons i ks)
  let ?e = "mbr_ent buffer i"
  have "\<exists>s1. scan_entries D disk buffer (i # ks) s = scan_entries D disk buffer ks s1 \<and> grown disk s 33 s1"
  proof (cases "e_type ?e = 0")
    case True
    then show ?thesis using grown_refl [OF Cons.prems(1)] by auto
  next
    case False
    show ?thesis
    proof (cases "is_extended_type (e_type ?e)")
      case True
      obtain s1 where "scan_extended D disk (e_start_lba ?e) s = Some s1" "grown disk s 33 s1"
        by (rule scan_extended_grown [OF Cons.prems])
      then show ?thesis using False True by (auto simp: Let_def)
    next
      case prim: False
      obtain s1 where "load_primary_partition D disk ?e i s = Some s1" "grown disk s 1 s1"
        by (rule load_primary_grown [OF Cons.prems])
      then show ?thesis using False prim grown_mono [of disk s 1 s1 33] by (auto simp: Let_def)
    qed
  qed
  then obtain s1 where s1: "scan_entries D disk buffer (i # ks) s = scan_entries D disk buffer ks s1"
    "grown disk s 33 s1" by blast
  then have "blk_inv s1" "disk \<in> set (device_list s1)" using Cons.prems by (auto simp: grown_def)
  from Cons.IH [OF this] obtain s' where "scan_entries D disk buffer ks s1 = Some s'"
    "grown disk s1 (33 * length ks) s'" by blast
  with s1 grown_trans [OF s1(2)] show ?case by auto
qed

lemma scan_entries_primary:
  assumes "blk_inv s" "disk \<in> set (device_list s)" "\<forall>i \<in> set ks. \<not> is_extended_type (e_type (mbr_ent buffer i))"
  shows "\<exists>s' new. scan_entries D disk buffer ks s = Some s' \<and> block_list s' = block_list s @ new \<and>
    map (start_and_size s') new = listed_extents buffer ks \<and> grown disk s (length ks) s'"
  using assms
proof (induction "ks" arbitrary: s)
  case Nil
  then show ?case by (simp add: grown_refl listed_extents_def)
next
  case (Cons i ks)
  let ?e = "mbr_ent buffer i"
  have "\<exists>s1 n1. scan_entries D disk buffer (i # ks) s = scan_entries D disk buffer ks s1 \<and> grown disk s 1 s1 \<and>
      block_list s1 = block_list s @ n1 \<and> map (start_and_size s1) n1 = listed_extents buffer [i]"
  proof (cases "e_type ?e = 0")
    case True
    then show ?thesis using grown_refl [OF Cons.prems(1)] by (auto simp: listed_extents_def)
  next
    case False
    obtain s1 where "load_primary_partition D disk ?e i s = Some s1" "grown disk s 1 s1"
      "block_list s1 = block_list s @ (if e_sector_count ?e = 0 then [] else [next_ptr s])"
      "e_sector_count ?e \<noteq> 0 \<longrightarrow> start_and_size s1 (next_ptr s) = (e_start_lba ?e, e_sector_count ?e)"
      by (rule load_primary_grown [OF Cons.prems(1,2)])
    then show ?thesis using False Cons.prems(3)
      by (intro exI [of _ s1] exI [of _ "if e_sector_count ?e = 0 then [] else [next_ptr s]"])
        (auto simp: Let_def listed_extents_def)
  qed
  then obtain s1 n1 where s1: "scan_entries D disk buffer (i # ks) s = scan_entries D disk buffer ks s1"
    "grown disk s 1 s1" "block_list s1 = block_list s @ n1"
    "map (start_and_size s1) n1 = listed_extents buffer [i]" by blast
  then have inv1: "blk_inv s1" "disk \<in> set (device_list s1)" using Cons.prems by (auto simp: grown_def)
  from Cons.IH [OF this] Cons.prems(3) obtain s' n2 where
    s': "scan_entries D disk buffer ks s1 = Some s'" "block_list s' = block_list s1 @ n2"
    "map (start_and_size s') n2 = listed_extents buffer ks" "grown disk s1 (length ks) s'" by auto
  have "devs s' p = devs s1 p" if "p \<in> set n1" for p
  proof -
    have "devs s1 p \<noteq> None" using inv1(1) s1(3) that unfolding blk_inv_def
      by (metis UnI2 in_set_conv_nth option.distinct(1) set_append)
    then show ?thesis using s'(4) by (simp add: grown_def)
  qed
  then have "map (start_and_size s') n1 = listed_extents buffer [i]"
    using s1(4) by (auto simp: start_and_size_def cong: map_cong)
  moreover have "listed_extents buffer [i] @ listed_extents buffer ks = listed_extents buffer (i # ks)"
    by (simp add: listed_extents_def)
  ultimately have "map (start_and_size s') (n1 @ n2) = listed_extents buffer (i # ks)"
    using s'(3) by simp
  then show ?case using s1 s' grown_trans [OF s1(2) s'(4)] by auto
qed

text \<open>A readable partition table without a GPT entry.\<close>

definition readable_mbr :: "'d driver \<Rightarrow> nat \<Rightarrow> 'd blk \<Rightarrow> byte list \<Rightarrow> bool" where
  "readable_mbr D disk s buffer \<longleftrightarrow>
     (\<exists>d. devs s disk = Some d \<and> block_size d = 512) \<and> drv_read D (hw s) disk 0 1 = Some buffer \<and>
     mbr_signature buffer = MBR_SIGNATURE \<and>
     (\<forall>i<MBR_PART_COUNT. e_type (mbr_ent buffer i) \<noteq> GPT_PROTECTIVE_TYPE)"

text \<open>C8: scanning the partition table of a registered disk always ends, whatever the disk returns
  and however its chain of extended tables is linked.  The registry stays consistent: at most 132 devices
  are appended to the global list and to the disk's own list, all of them partitions of this disk, and
  nothing that was registered before changes.  A failing scan changes nothing.  If the table is readable
  and has no extended entry, the new partitions are exactly its non-empty entries, in their order.\<close>

theorem mbr_scan_correct:
  assumes "blk_inv s" "disk \<in> set (device_list s)"
  shows "\<exists>r s'. mbr_scan D disk s = Some (r, s') \<and> grown disk s 132 s' \<and> (r \<noteq> 0 \<longrightarrow> s' = s) \<and>
    (readable_mbr D disk s buffer \<and> (\<forall>i<4. \<not> is_extended_type (e_type (mbr_ent buffer i))) \<longrightarrow>
       r = 0 \<and> (\<exists>new. block_list s' = block_list s @ new \<and>
                  map (start_and_size s') new = listed_extents buffer [0, 1, 2, 3]))"
proof -
  have cnt: "[0..<MBR_PART_COUNT] = [0, 1, 2, 3]" by (simp add: MBR_PART_COUNT_def upt_rec)
  from assms obtain d where d: "devs s disk = Some d" by (auto simp: blk_inv_def is_disk_def)
  show ?thesis
  proof (cases "\<exists>b. readable_mbr D disk s b")
    case False
    then have "mbr_scan D disk s = Some (-1, s)" using d
      by (auto simp: mbr_scan_def readable_mbr_def split: option.splits)
    then show ?thesis using False grown_refl [OF assms(1)] by blast
  next
    case True
    then obtain b where b: "readable_mbr D disk s b" by blast
    then have uniq: "b = buffer" if "readable_mbr D disk s buffer" using that by (simp add: readable_mbr_def)
    have run: "mbr_scan D disk s = scan_entries D disk b [0, 1, 2, 3] s \<bind> (\<lambda>s. Some (0, s))"
      unfolding cnt [symmetric] using b by (auto simp: mbr_scan_def readable_mbr_def)
    obtain s' where s': "scan_entries D disk b [0, 1, 2, 3] s = Some s'" "grown disk s (33 * 4) s'"
      using scan_entries_grown [OF assms, of D b "[0, 1, 2, 3]"] by auto
    have "\<exists>new. block_list s' = block_list s @ new \<and> map (start_and_size s') new = listed_extents b [0, 1, 2, 3]"
      if "\<forall>i<4. \<not> is_extended_type (e_type (mbr_ent b i))"
      using scan_entries_primary [OF assms, of "[0, 1, 2, 3]" b D] that s'(1) by auto
    then show ?thesis using run s' uniq by auto
  qed
qed

text \<open>The witness: a disk of 8 sectors whose table has one partition, of sectors 2 to 5.\<close>

definition demo_mbr :: "byte list" where
  "demo_mbr = put16 (put32 (put32 ((replicate 512 0)[450 := 7]) 454 2) 458 4) 510 0xAA55"

definition demo_blk :: "(nat \<Rightarrow> nat \<Rightarrow> byte list) blk" where
  "demo_blk =
     \<lparr>hw = (\<lambda>u i. if i = 0 then demo_mbr else replicate 512 0), global_block_id = 1, block_device_id = 1,
      block_list = [1], device_list = [1], childs = (\<lambda>_. []),
      devs = [1 \<mapsto> demo_part\<lparr>bd_type := BLOCK_DISK, total_blocks := 8, bd_name := [115, 100, 97, 0]\<rparr>],
      next_ptr = 2\<rparr>"

theorem mbr_scan_correct_witness:
  "\<exists>s'. mbr_scan (ram_driver 8) 1 demo_blk = Some (0, s') \<and> length (block_list s') = 2 \<and>
     start_and_size s' (block_list s' ! 1) = (2, 4)"
proof -
  have inv: "blk_inv demo_blk" "1 \<in> set (device_list demo_blk)"
    by (simp_all add: blk_inv_def demo_blk_def is_disk_def is_part_of_def demo_part_def u64_def)
  have len: "length demo_mbr = 512" by (simp add: demo_mbr_def)
  have ents: "mbr_ent demo_mbr 0 = \<lparr>e_bootable = 0, e_type = 7, e_start_lba = 2, e_sector_count = 4\<rparr>"
    "mbr_ent demo_mbr 1 = \<lparr>e_bootable = 0, e_type = 0, e_start_lba = 0, e_sector_count = 0\<rparr>"
    "mbr_ent demo_mbr 2 = \<lparr>e_bootable = 0, e_type = 0, e_start_lba = 0, e_sector_count = 0\<rparr>"
    "mbr_ent demo_mbr 3 = \<lparr>e_bootable = 0, e_type = 0, e_start_lba = 0, e_sector_count = 0\<rparr>"
    by (simp_all add: mbr_ent_def demo_mbr_def overlay u32_def)
      (simp_all add: get32_def)
  have sig: "mbr_signature demo_mbr = 0xAA55" by (simp add: mbr_signature_def demo_mbr_def overlay u16_def)
  have four: "i < 4 \<longleftrightarrow> i = 0 \<or> i = 1 \<or> i = 2 \<or> i = 3" for i :: nat by auto
  have "readable_mbr (ram_driver 8) 1 demo_blk demo_mbr"
    using ents sig by (auto simp: readable_mbr_def demo_blk_def ram_driver_def demo_part_def MBR_SIGNATURE_def
        MBR_PART_COUNT_def GPT_PROTECTIVE_TYPE_def four)
  moreover have "\<forall>i<4. \<not> is_extended_type (e_type (mbr_ent demo_mbr i))"
    using ents by (auto simp: four is_extended_type_def)
  moreover have "listed_extents demo_mbr [0, 1, 2, 3] = [(2, 4)]"
    using ents by (simp add: listed_extents_def)
  ultimately obtain s' new where "mbr_scan (ram_driver 8) 1 demo_blk = Some (0, s')"
    "block_list s' = block_list demo_blk @ new" "map (start_and_size s') new = [(2, 4)]"
    using mbr_scan_correct [OF inv, of "ram_driver 8" demo_mbr] by auto
  then show ?thesis by (auto simp: demo_blk_def)
qed

section \<open>Confinement of partitions\<close>

text \<open>C5: what an access through a partition does, for a partition that lies inside a disk whose driver serves
  requests of 1 to \<open>nmax\<close> sectors.  A request inside the partition reads the bytes of its own sectors, and a
  write reads back and changes no other sector.  A request beyond the end is refused without
  touching the disk.  When \<open>lba + n\<close> wraps around at 64 bits, the test sees the wrapped sum: the request is
  refused only if that sum is too large, and otherwise it goes to the disk at a place outside the partition.\<close>

theorem partition_access:
  assumes "partition_on_disk D dev sec nsec nmax ok" "ok h" "0 < n" "n \<le> nmax" "length b = 512 * n"
    and "lba < 2 ^ 64" "n < 2 ^ 32"
  shows "if lba + n \<le> sector_count dev
    then partition_read D h dev lba n = Some (concat (map (sec h) [start_lba dev + lba..<start_lba dev + lba + n])) \<and>
      (\<exists>h'. partition_write D h dev lba n b = (True, h') \<and> ok h' \<and> partition_read D h' dev lba n = Some b \<and>
         (\<forall>i. i < start_lba dev + lba \<or> start_lba dev + lba + n \<le> i \<longrightarrow> sec h' i = sec h i))
    else if lba + n < 2 ^ 64 \<or> sector_count dev < lba + n - 2 ^ 64
    then partition_read D h dev lba n = None \<and> partition_write D h dev lba n b = (False, h)
    else \<exists>x. partition_read D h dev lba n = drv_read D h (dunit dev) x n \<and>
      partition_write D h dev lba n b = drv_write D h (dunit dev) x n b \<and>
      (x < start_lba dev \<or> start_lba dev + sector_count dev < x + n)"
proof -
  consider (inside) "lba + n \<le> sector_count dev" | (beyond) "sector_count dev < lba + n" "lba + n < 2 ^ 64"
    | (wrapped) "sector_count dev < lba + n" "2 ^ 64 \<le> lba + n" by linarith
  then show ?thesis
  proof cases
    case inside
    note disk = partition_on_disk.axioms(1) [OF assms(1)]
    have le: "start_lba dev + lba + n \<le> nsec" using partition_on_disk.inside [OF assms(1)] inside by simp
    note rd = partition_on_disk.partition_rd [OF assms(1) inside] and wr = partition_on_disk.partition_wr [OF assms(1) inside]
    have "partition_read D h dev lba n = Some (concat (map (sec h) [start_lba dev + lba..<start_lba dev + lba + n]))"
      using reliable_disk.rd_in [OF disk assms(2) le assms(3,4)] by (simp add: rd)
    moreover obtain h' where h': "drv_write D h (dunit dev) (start_lba dev + lba) n b = (True, h')" "ok h'"
      "reliable_disk.extent_of sec h' (start_lba dev + lba) n = b"
      "\<And>i. i < start_lba dev + lba \<or> start_lba dev + lba + n \<le> i \<Longrightarrow> sec h' i = sec h i"
      by (rule reliable_disk.wr_extent [OF disk assms(2) le assms(3-5)]) blast
    moreover have "partition_read D h' dev lba n = Some b"
      using reliable_disk.rd_extent [OF disk h'(2) le assms(3,4)] h'(3) by (simp add: rd)
    ultimately show ?thesis using inside by (auto simp: wr)
  next
    case beyond
    then show ?thesis using partition_on_disk.is_partition [OF assms(1)]
      by (simp add: partition_read_def partition_write_def width)
  next
    case wrapped
    have sum: "u64 (lba + n) = lba + n - 2 ^ 64" using wrapped(2) assms(6,7) by (simp add: u64_def le_mod_geq)
    have small: "start_lba dev + sector_count dev < 2 ^ 64"
      using partition_on_disk.inside [OF assms(1)] partition_on_disk.disk_size [OF assms(1)] by simp
    let ?x = "u64 (start_lba dev + lba)"
    have "?x < start_lba dev \<or> start_lba dev + sector_count dev < ?x + n"
    proof (cases "start_lba dev + lba < 2 ^ 64")
      case True
      then show ?thesis using wrapped small by (simp add: u64_def)
    next
      case False
      then have "?x = start_lba dev + lba - 18446744073709551616" using assms(6) small by (simp add: u64_def le_mod_geq)
      moreover have "lba < 18446744073709551616" "18446744073709551616 \<le> start_lba dev + lba" using assms(6) False by simp_all
      ultimately have "?x < start_lba dev" by linarith
      then show ?thesis by simp
    qed
    moreover have "\<not> lba + n < 2 ^ 64" using wrapped by simp
    ultimately show ?thesis using wrapped(1) partition_on_disk.is_partition [OF assms(1)]
      by (cases "sector_count dev < lba + n - 2 ^ 64") (auto simp: partition_read_def partition_write_def sum)
  qed
qed

theorem partition_access_witness:
  "(\<exists>h'. partition_write (ram_driver 8) (\<lambda>u i. replicate 512 0) demo_part 1 1 (replicate 512 9) = (True, h') \<and>
     partition_read (ram_driver 8) h' demo_part 1 1 = Some (replicate 512 9) \<and> h' 1 7 = replicate 512 0) \<and>
   partition_read (ram_driver 8) (\<lambda>u i. replicate 512 0) demo_part 3 2 = None"
proof
  have ok: "ram_ok 1 8 ((\<lambda>u i. replicate 512 0) :: nat \<Rightarrow> nat \<Rightarrow> byte list)" by (simp add: ram_ok_def)
  from partition_access [OF demo.partition_on_disk_axioms, OF ok, of 1 "replicate 512 9" 1]
  show "\<exists>h'. partition_write (ram_driver 8) (\<lambda>u i. replicate 512 0) demo_part 1 1 (replicate 512 9) = (True, h') \<and>
     partition_read (ram_driver 8) h' demo_part 1 1 = Some (replicate 512 9) \<and> h' 1 7 = replicate 512 0"
    by (auto simp: demo_part_def)
  from partition_access [OF demo.partition_on_disk_axioms, OF ok, of 2 "replicate 1024 9" 3]
  show "partition_read (ram_driver 8) (\<lambda>u i. replicate 512 0) demo_part 3 2 = None" by (simp add: demo_part_def)
qed

text \<open>The last sector number passes the range test and reaches the sector before the partition.\<close>

lemma partition_check_wraps:
  "partition_write D h demo_part 18446744073709551615 1 b = drv_write D h 1 1 1 b"
  by (simp add: partition_write_def demo_part_def u64_def)

section \<open>UUIDs and names\<close>

lemma hex_value_char:
  assumes "d < 16"
  shows "hex_value (hex_char d) = Some (word_of_nat d)"
proof -
  have "\<forall>d \<in> set [0..<16]. hex_value (hex_char d) = Some (word_of_nat d)"
    by (simp add: upt_rec hex_value_def hex_char_def)
  with assms show ?thesis by simp
qed

lemma hex_nibbles:
  fixes x :: byte
  shows "hex_value (hex_char (unat (drop_bit 4 x))) = Some (drop_bit 4 x)"
    "hex_value (hex_char (unat (take_bit 4 x))) = Some (take_bit 4 x)"
    "hex_char (unat (drop_bit 4 x)) \<noteq> 45" "hex_char (unat (take_bit 4 x)) \<noteq> 45"
    "or (push_bit 4 (drop_bit 4 x)) (take_bit 4 x) = x"
proof -
  have "unat (drop_bit 4 x) = unat x div 16" by (simp only: unat_drop_bit_eq) (simp add: drop_bit_eq_div)
  moreover have "unat (take_bit 4 x) = unat x mod 16"
    by (simp only: unsigned_take_bit_eq) (simp add: take_bit_eq_mod)
  moreover have "unat x < 256" by (rule unat_byte_less)
  ultimately have d: "unat (drop_bit 4 x) < 16" "unat (take_bit 4 x) < 16"
    by (simp_all add: less_mult_imp_div_less)
  show v: "hex_value (hex_char (unat (drop_bit 4 x))) = Some (drop_bit 4 x)"
    "hex_value (hex_char (unat (take_bit 4 x))) = Some (take_bit 4 x)"
    using hex_value_char [OF d(1)] hex_value_char [OF d(2)] by simp_all
  have "hex_value 45 = None" by (simp add: hex_value_def)
  then show "hex_char (unat (drop_bit 4 x)) \<noteq> 45" "hex_char (unat (take_bit 4 x)) \<noteq> 45" using v by auto
  show "or (push_bit 4 (drop_bit 4 x)) (take_bit 4 x) = x"
    by (rule bit_word_eqI) (auto simp: bit_simps)
qed

text \<open>One byte of a UUID read back, and a hyphen skipped.\<close>

lemma uuid_from_byte:
  assumes "i + 1 < 36" "str ! i = hex_char (unat (drop_bit 4 x))" "str ! (i + 1) = hex_char (unat (take_bit 4 x))"
    "j < length u"
  shows "uuid_from str i j u = uuid_from str (i + 2) (j + 1) (u[j := x])"
  using assms by (subst uuid_from.simps) (simp add: hex_nibbles)

lemma uuid_from_hyphen: "i < 36 \<Longrightarrow> str ! i = 45 \<Longrightarrow> uuid_from str i j u = uuid_from str (i + 1) j u"
  by (subst uuid_from.simps) simp

text \<open>C35: the textual form of a UUID determines it: reading back what \<open>uuid_to_string\<close> wrote gives
  the same 16 bytes, with return value 0.\<close>

theorem uuid_roundtrip:
  assumes "length u = 16" "length stack = 16"
  shows "length (uuid_to_string u) = 36 \<and> uuid_from_string (uuid_to_string u) stack = Some (0, u)"
proof -
  obtain a b c d e f g h i j k l m n p q where u: "u = [a, b, c, d, e, f, g, h, i, j, k, l, m, n, p, q]"
    using assms(1) by (auto simp: numeral_eq_Suc length_Suc_conv)
  obtain a' b' c' d' e' f' g' h' i' j' k' l' m' n' p' q' where
    v: "stack = [a', b', c', d', e', f', g', h', i', j', k', l', m', n', p', q']"
    using assms(2) by (auto simp: numeral_eq_Suc length_Suc_conv)
  define hi lo where "hi = (\<lambda>x :: byte. hex_char (unat (drop_bit 4 x)))" and "lo = (\<lambda>x :: byte. hex_char (unat (take_bit 4 x)))"
  have str: "uuid_to_string u =
      [hi a, lo a, hi b, lo b, hi c, lo c, hi d, lo d, 45, hi e, lo e, hi f, lo f, 45, hi g, lo g, hi h, lo h, 45,
       hi i, lo i, hi j, lo j, 45, hi k, lo k, hi l, lo l, hi m, lo m, hi n, lo n, hi p, lo p, hi q, lo q]"
    by (simp add: uuid_to_string_def upt_rec u hi_def lo_def)
  note byte = uuid_from_byte
  note bytes =
    byte [where i = 0 and x = a] byte [where i = 2 and x = b] byte [where i = 4 and x = c] byte [where i = 6 and x = d]
    byte [where i = 9 and x = e] byte [where i = 11 and x = f] byte [where i = 14 and x = g] byte [where i = 16 and x = h]
    byte [where i = 19 and x = i] byte [where i = 21 and x = j] byte [where i = 24 and x = k] byte [where i = 26 and x = l]
    byte [where i = 28 and x = m] byte [where i = 30 and x = n] byte [where i = 32 and x = p] byte [where i = 34 and x = q]
  show ?thesis
    unfolding uuid_from_string_def str v
    by (simp add: bytes uuid_from_hyphen uuid_from.simps [of _ 36] hi_def lo_def numeral_2_eq_2 [symmetric]) (simp add: u)
qed

theorem uuid_roundtrip_witness:
  "uuid_from_string (uuid_to_string (replicate 16 0x5A)) (replicate 16 0) = Some (0, replicate 16 0x5A)"
  using uuid_roundtrip [of "replicate 16 0x5A" "replicate 16 0"] by simp

text \<open>Names of disks: different indices have different names.\<close>

lemma name_letters_nonempty [simp]: "name_letters k \<noteq> []" "[] \<noteq> name_letters k"
  by (subst name_letters.simps, simp)+

lemma name_letters_inj: "name_letters m = name_letters n \<Longrightarrow> m = n"
proof (induction m arbitrary: n rule: name_letters.induct)
  case (1 m)
  note unf = name_letters.simps [of m] name_letters.simps [of n]
  from "1.prems" have "(word_of_nat (m mod 26) :: byte) = word_of_nat (n mod 26)" by (simp add: unf)
  then have "unat (word_of_nat (m mod 26) :: byte) = unat (word_of_nat (n mod 26) :: byte)" by simp
  then have md: "m mod 26 = n mod 26"
    unfolding unat_of_nat_byte using mod_less_divisor [of 26 m] mod_less_divisor [of 26 n] by simp
  have "m div 26 = n div 26"
  proof (cases "m div 26 = 0")
    case True
    then show ?thesis using "1.prems" by (auto simp: unf split: if_splits)
  next
    case False
    then have nz: "n div 26 \<noteq> 0" and "name_letters (m div 26 - 1) = name_letters (n div 26 - 1)"
      using "1.prems" by (auto simp: unf split: if_splits)
    from "1.IH" [OF False this(2)] False nz show ?thesis by simp
  qed
  with md show ?case by (metis div_mult_mod_eq)
qed

lemma disk_names_distinct: "disk_index_to_name m = disk_index_to_name n \<Longrightarrow> m = n"
  by (simp add: disk_index_to_name_def name_letters_inj)

text \<open>\<open>write_uuid\<close> fails on every partition that can be read: the test of \<open>ext2_write_uuid\<close> is
  inverted.\<close>

lemma write_uuid_never_succeeds:
  "partition_read D h part 2 2 \<noteq> None \<Longrightarrow> write_uuid D h part str junk stack = Some (-1, part, h)"
  by (auto simp: write_uuid_def ext2_write_uuid_def)

text \<open>A UUID text of 36 hexadecimal digits stores 18 bytes into the array of 16.\<close>

lemma uuid_from_string_overflow: "uuid_from_string (replicate 36 48) (replicate 16 0) = None"
proof -
  have hex: "hex_value 48 = Some 0" by (simp add: hex_value_def)
  have step: "uuid_from (replicate 36 48) i j u =
      (if j < length u then uuid_from (replicate 36 48) (i + 2) (j + 1) (u[j := 0]) else None)" if "i < 35" for i j u
    using that by (subst uuid_from.simps) (simp add: hex)
  show ?thesis unfolding uuid_from_string_def by (simp add: step)
qed

text \<open>A freed partition stays in the global list of block devices.\<close>

lemma block_unregister_dangles:
  assumes "blk_inv s" "p \<in> set (block_list s)" "is_part_of s disk p"
  shows "\<exists>s'. block_unregister p s = Some (0, s') \<and> p \<in> set (block_list s') \<and> devs s' p = None"
  using assms by (auto simp: block_unregister_def is_part_of_def)

end
