(* ===== verification/Ext2Base.thy ===== *)
theory Ext2Base
  imports BlockDev
begin

text \<open>
  The lower half of the ext2 driver, \<open>src/fs/ext2.c\<close>: the on-disk structures as byte overlays, block
  transfer, the group descriptors with their bitmaps, allocation of blocks and inodes, reading and writing
  disk inodes, mounting and syncing.

  \<open>'d ext2\<close> holds what the C code reaches from a \<open>super_block_t\<close>: the hardware and the partition, the
  \<open>ext2_fs_info_t\<close> with the raw superblock and the group descriptors, and the in-memory inodes the driver
  has created, indexed by a handle that stands for their address.  \<open>mounted\<close> says that
  \<open>sb->private_data\<close> is set.  The clock is a parameter: \<open>clk n\<close> is what the \<open>n\<close>-th call of
  \<open>get_time\<close> returns.  \<open>kmalloc\<close> never returns NULL (see \<open>BlockDev\<close>); the per-group mutexes make each
  allocation one step.  \<open>None\<close> is a run that does not return: a division by zero, an access outside a
  buffer or array, an endless loop.
\<close>

unbundle bit_operations_syntax

section \<open>On-disk structures\<close>

text \<open>Superblock, 1024 bytes.\<close>

definition s_blocks_count :: "byte list \<Rightarrow> nat" where "s_blocks_count e = get32 e 4"
definition s_free_blocks_count :: "byte list \<Rightarrow> nat" where "s_free_blocks_count e = get32 e 12"
definition s_free_inodes_count :: "byte list \<Rightarrow> nat" where "s_free_inodes_count e = get32 e 16"
definition s_first_data_block :: "byte list \<Rightarrow> nat" where "s_first_data_block e = get32 e 20"
definition s_log_block_size :: "byte list \<Rightarrow> nat" where "s_log_block_size e = get32 e 24"
definition s_blocks_per_group :: "byte list \<Rightarrow> nat" where "s_blocks_per_group e = get32 e 32"
definition s_inodes_per_group :: "byte list \<Rightarrow> nat" where "s_inodes_per_group e = get32 e 40"
definition s_magic :: "byte list \<Rightarrow> nat" where "s_magic e = get16 e 0x38"
definition s_inode_size :: "byte list \<Rightarrow> nat" where "s_inode_size e = get16 e 88"

definition set_s_free_blocks_count :: "nat \<Rightarrow> byte list \<Rightarrow> byte list" where
  "set_s_free_blocks_count v e = put32 e 12 v"
definition set_s_free_inodes_count :: "nat \<Rightarrow> byte list \<Rightarrow> byte list" where
  "set_s_free_inodes_count v e = put32 e 16 v"

text \<open>Disk inode, 128 bytes.\<close>

definition i_mode :: "byte list \<Rightarrow> nat" where "i_mode ei = get16 ei 0"
definition i_size :: "byte list \<Rightarrow> nat" where "i_size ei = get32 ei 4"
definition i_links_count :: "byte list \<Rightarrow> nat" where "i_links_count ei = get16 ei 26"
definition i_blocks :: "byte list \<Rightarrow> nat" where "i_blocks ei = get32 ei 28"
definition i_block :: "byte list \<Rightarrow> nat \<Rightarrow> nat" where "i_block ei k = get32 ei (40 + 4 * k)"

definition set_i_mode :: "nat \<Rightarrow> byte list \<Rightarrow> byte list" where "set_i_mode v ei = put16 ei 0 v"
definition set_i_size :: "nat \<Rightarrow> byte list \<Rightarrow> byte list" where "set_i_size v ei = put32 ei 4 v"
definition set_i_atime :: "nat \<Rightarrow> byte list \<Rightarrow> byte list" where "set_i_atime v ei = put32 ei 8 v"
definition set_i_ctime :: "nat \<Rightarrow> byte list \<Rightarrow> byte list" where "set_i_ctime v ei = put32 ei 12 v"
definition set_i_mtime :: "nat \<Rightarrow> byte list \<Rightarrow> byte list" where "set_i_mtime v ei = put32 ei 16 v"
definition set_i_links_count :: "nat \<Rightarrow> byte list \<Rightarrow> byte list" where "set_i_links_count v ei = put16 ei 26 v"
definition set_i_blocks :: "nat \<Rightarrow> byte list \<Rightarrow> byte list" where "set_i_blocks v ei = put32 ei 28 v"
definition set_i_block :: "nat \<Rightarrow> nat \<Rightarrow> byte list \<Rightarrow> byte list" where "set_i_block k v ei = put32 ei (40 + 4 * k) v"

definition EXT2_ROOT_INO :: nat where "EXT2_ROOT_INO = 2"
definition EXT2_NDIR_BLOCKS :: nat where "EXT2_NDIR_BLOCKS = 12"
definition EXT2_IND_BLOCK :: nat where "EXT2_IND_BLOCK = 12"
definition EXT2_DIND_BLOCK :: nat where "EXT2_DIND_BLOCK = 13"
definition EXT2_N_BLOCKS :: nat where "EXT2_N_BLOCKS = 15"

text \<open>File types in a mode.\<close>

definition S_IFDIR :: nat where "S_IFDIR = 0x4000"
definition S_IFREG :: nat where "S_IFREG = 0x8000"
definition S_ISDIR :: "nat \<Rightarrow> bool" where "S_ISDIR m \<longleftrightarrow> m AND 0xF000 = S_IFDIR"

section \<open>State\<close>

record gdesc =
  bg_block_bitmap :: nat
  bg_inode_bitmap :: nat
  bg_inode_table :: nat
  bg_free_blocks_count :: nat
  bg_free_inodes_count :: nat
  bg_used_dirs_count :: nat
  block_bitmap :: "byte list"
  inode_bitmap :: "byte list"

record vinode =
  v_ino :: nat
  v_mode :: nat
  v_size :: nat
  v_refcount :: nat
  v_link_count :: nat
  v_ei :: "byte list"

record 'd ext2 =
  dev :: 'd
  sb_part :: block_device
  mounted :: bool
  es :: "byte list"
  fs_block_size :: nat
  fs_inode_size :: nat
  group_count :: nat
  group_descs :: "gdesc list"
  vin :: "nat \<Rightarrow> vinode"
  nvin :: nat
  clk :: "nat \<Rightarrow> nat"
  ticks :: nat

definition upd_gd :: "nat \<Rightarrow> (gdesc \<Rightarrow> gdesc) \<Rightarrow> 'd ext2 \<Rightarrow> 'd ext2" where
  "upd_gd g f s = s\<lparr>group_descs := (group_descs s)[g := f (group_descs s ! g)]\<rparr>"

definition upd_ei :: "nat \<Rightarrow> (byte list \<Rightarrow> byte list) \<Rightarrow> 'd ext2 \<Rightarrow> 'd ext2" where
  "upd_ei ip f s = s\<lparr>vin := (vin s)(ip := (vin s ip)\<lparr>v_ei := f (v_ei (vin s ip))\<rparr>)\<rparr>"

definition get_time :: "'d ext2 \<Rightarrow> nat \<times> 'd ext2" where
  "get_time s = (clk s (ticks s), s\<lparr>ticks := Suc (ticks s)\<rparr>)"

section \<open>Block transfer\<close>

definition es_block_size :: "'d ext2 \<Rightarrow> nat" where
  "es_block_size s = (if mounted s then u32 (push_bit (s_log_block_size (es s)) 1024) else 1024)"

definition sectors_per_block :: "'d ext2 \<Rightarrow> nat" where
  "sectors_per_block s = es_block_size s div u32 (block_size (sb_part s))"

text \<open>\<open>ext2_rw_block\<close> in its two directions; the sector number is a 32-bit product.\<close>

definition ext2_read_block :: "'d driver \<Rightarrow> 'd ext2 \<Rightarrow> nat \<Rightarrow> byte list option" where
  "ext2_read_block D s b =
     partition_read D (dev s) (sb_part s) (u32 (b * sectors_per_block s)) (sectors_per_block s)"

definition ext2_write_block :: "'d driver \<Rightarrow> 'd ext2 \<Rightarrow> nat \<Rightarrow> byte list \<Rightarrow> bool \<times> 'd ext2" where
  "ext2_write_block D s b buf =
     (case partition_write D (dev s) (sb_part s) (u32 (b * sectors_per_block s)) (sectors_per_block s) buf of
        (r, h) \<Rightarrow> (r, s\<lparr>dev := h\<rparr>))"

section \<open>Bitmaps\<close>

definition bm_test :: "byte list \<Rightarrow> nat \<Rightarrow> bool" where
  "bm_test b i \<longleftrightarrow> b ! (i div 8) AND push_bit (i mod 8) 1 \<noteq> 0"

definition bm_set :: "byte list \<Rightarrow> nat \<Rightarrow> byte list" where
  "bm_set b i = b[i div 8 := b ! (i div 8) OR push_bit (i mod 8) 1]"

definition bm_clear :: "byte list \<Rightarrow> nat \<Rightarrow> byte list" where
  "bm_clear b i = b[i div 8 := b ! (i div 8) AND NOT (push_bit (i mod 8) 1)]"

section \<open>Allocation\<close>

text \<open>The body of the innermost loop of \<open>ext2_alloc_block\<close> at the first clear bit \<open>i\<close> of group
  \<open>g\<close>.\<close>

definition take_block :: "'d driver \<Rightarrow> nat \<Rightarrow> nat \<Rightarrow> 'd ext2 \<Rightarrow> nat \<times> 'd ext2" where
  "take_block D g i s =
     (let s = upd_gd g (\<lambda>d. d\<lparr>block_bitmap := bm_set (block_bitmap d) i,
                             bg_free_blocks_count := sub16 (bg_free_blocks_count d) 1\<rparr>) s;
          s = s\<lparr>es := set_s_free_blocks_count (sub32 (s_free_blocks_count (es s)) 1) (es s)\<rparr>;
          (_, s) = ext2_write_block D s (bg_block_bitmap (group_descs s ! g)) (block_bitmap (group_descs s ! g))
      in (u32 (g * s_blocks_per_group (es s) + i + s_first_data_block (es s)), s))"

function alloc_block_from :: "'d driver \<Rightarrow> nat \<Rightarrow> 'd ext2 \<Rightarrow> nat \<times> 'd ext2" where
  "alloc_block_from D g s =
     (if g < group_count s
      then if bg_free_blocks_count (group_descs s ! g) = 0 then alloc_block_from D (g + 1) s
           else case first_from (\<lambda>i. \<not> bm_test (block_bitmap (group_descs s ! g)) i) 0 (fs_block_size s * 8) of
                  None \<Rightarrow> alloc_block_from D (g + 1) s
                | Some i \<Rightarrow> take_block D g i s
      else (NEG1, s))"
  by pat_completeness auto
termination by (relation "measure (\<lambda>(D, g, s). group_count s - g)") auto

declare alloc_block_from.simps [simp del]

definition ext2_alloc_block :: "'d driver \<Rightarrow> 'd ext2 \<Rightarrow> nat \<times> 'd ext2" where
  "ext2_alloc_block D s = alloc_block_from D 0 s"

definition ext2_free_block :: "'d driver \<Rightarrow> nat \<Rightarrow> 'd ext2 \<Rightarrow> 'd ext2" where
  "ext2_free_block D block s =
     (let bpg = s_blocks_per_group (es s);
          g = sub32 block (s_first_data_block (es s)) div bpg;
          index = sub32 block (u32 (g * bpg + s_first_data_block (es s)))
      in if g \<ge> group_count s \<or> index \<ge> bpg then s
         else if bm_test (block_bitmap (group_descs s ! g)) index
         then let s = upd_gd g (\<lambda>d. d\<lparr>block_bitmap := bm_clear (block_bitmap d) index,
                                     bg_free_blocks_count := u16 (bg_free_blocks_count d + 1)\<rparr>) s;
                  s = s\<lparr>es := set_s_free_blocks_count (u32 (s_free_blocks_count (es s) + 1)) (es s)\<rparr>
              in snd (ext2_write_block D s (bg_block_bitmap (group_descs s ! g)) (block_bitmap (group_descs s ! g)))
         else s)"

definition take_inode :: "'d driver \<Rightarrow> nat \<Rightarrow> nat \<Rightarrow> 'd ext2 \<Rightarrow> nat \<times> 'd ext2" where
  "take_inode D g i s =
     (let s = upd_gd g (\<lambda>d. d\<lparr>inode_bitmap := bm_set (inode_bitmap d) i,
                             bg_free_inodes_count := sub16 (bg_free_inodes_count d) 1\<rparr>) s;
          s = s\<lparr>es := set_s_free_inodes_count (sub32 (s_free_inodes_count (es s)) 1) (es s)\<rparr>;
          (_, s) = ext2_write_block D s (bg_inode_bitmap (group_descs s ! g)) (inode_bitmap (group_descs s ! g))
      in (u32 (g * s_inodes_per_group (es s) + i + 1), s))"

function alloc_inode_from :: "'d driver \<Rightarrow> nat \<Rightarrow> 'd ext2 \<Rightarrow> nat \<times> 'd ext2" where
  "alloc_inode_from D g s =
     (if g < group_count s
      then if bg_free_inodes_count (group_descs s ! g) = 0 then alloc_inode_from D (g + 1) s
           else case first_from (\<lambda>i. \<not> bm_test (inode_bitmap (group_descs s ! g)) i) 0 (fs_block_size s * 8) of
                  None \<Rightarrow> alloc_inode_from D (g + 1) s
                | Some i \<Rightarrow> take_inode D g i s
      else (NEG1, s))"
  by pat_completeness auto
termination by (relation "measure (\<lambda>(D, g, s). group_count s - g)") auto

declare alloc_inode_from.simps [simp del]

definition ext2_alloc_inode :: "'d driver \<Rightarrow> 'd ext2 \<Rightarrow> nat \<times> 'd ext2" where
  "ext2_alloc_inode D s = alloc_inode_from D 0 s"

definition ext2_free_inode :: "'d driver \<Rightarrow> nat \<Rightarrow> 'd ext2 \<Rightarrow> 'd ext2" where
  "ext2_free_inode D ino s =
     (let g = sub32 ino 1 div s_inodes_per_group (es s);
          index = sub32 ino 1 mod s_inodes_per_group (es s)
      in if g \<ge> group_count s then s
         else if bm_test (inode_bitmap (group_descs s ! g)) index
         then let s = upd_gd g (\<lambda>d. d\<lparr>inode_bitmap := bm_clear (inode_bitmap d) index,
                                     bg_free_inodes_count := u16 (bg_free_inodes_count d + 1)\<rparr>) s;
                  s = s\<lparr>es := set_s_free_inodes_count (u32 (s_free_inodes_count (es s) + 1)) (es s)\<rparr>
              in snd (ext2_write_block D s (bg_inode_bitmap (group_descs s ! g)) (inode_bitmap (group_descs s ! g)))
         else s)"

section \<open>Disk inodes\<close>

definition inode_sizeof :: nat where "inode_sizeof = 128"

text \<open>\<open>ext2_write_inode\<close> uses the cached group descriptors and \<open>fsi->inode_size\<close>.\<close>

definition ext2_write_inode :: "'d driver \<Rightarrow> nat \<Rightarrow> byte list \<Rightarrow> 'd ext2 \<Rightarrow> (int \<times> 'd ext2) option" where
  "ext2_write_inode D ino ei s =
     (if s_inodes_per_group (es s) = 0 \<or> fs_inode_size s = 0 \<or> fs_block_size s div fs_inode_size s = 0 then None
      else
        let g = sub32 ino 1 div s_inodes_per_group (es s);
            index = sub32 ino 1 mod s_inodes_per_group (es s);
            ipb = fs_block_size s div fs_inode_size s
        in if g \<ge> length (group_descs s) then None
           else
             let inode_block = u32 (bg_inode_table (group_descs s ! g) + index div ipb);
                 inode_offset = (index mod ipb) * fs_inode_size s
             in case ext2_read_block D s inode_block of
                  None \<Rightarrow> Some (-1, s)
                | Some buf \<Rightarrow>
                    if inode_offset + length ei \<le> length buf
                    then case ext2_write_block D s inode_block (blit buf inode_offset ei) of
                           (True, s') \<Rightarrow> Some (0, s')
                         | (False, s') \<Rightarrow> Some (-1, s')
                    else None)"

text \<open>\<open>ext2_read_inode\<close> goes through the descriptor table on the disk and takes 128 for a missing
  inode size.  The result is the disk inode, or \<open>Some None\<close> for the error return.\<close>

definition first_desc_block :: "nat \<Rightarrow> nat" where
  "first_desc_block bs = (if bs = 1024 then 2 else 1)"

definition group_desc_sizeof :: nat where "group_desc_sizeof = 32"

definition ext2_read_inode :: "'d driver \<Rightarrow> nat \<Rightarrow> 'd ext2 \<Rightarrow> byte list option option" where
  "ext2_read_inode D ino s =
     (if \<not> mounted s then Some None
      else
        let bs = u32 (push_bit (s_log_block_size (es s)) 1024);
            isz = (if s_inode_size (es s) = 0 then 128 else s_inode_size (es s))
        in if s_inodes_per_group (es s) = 0 \<or> bs div group_desc_sizeof = 0 then None
           else
             let g = sub32 ino 1 div s_inodes_per_group (es s);
                 index = sub32 ino 1 mod s_inodes_per_group (es s);
                 dpb = bs div group_desc_sizeof;
                 desc_block = first_desc_block bs + g div dpb;
                 desc_offset = (g mod dpb) * group_desc_sizeof
             in case ext2_read_block D s desc_block of
                  None \<Rightarrow> Some None
                | Some block_buf \<Rightarrow>
                    let table = get32 block_buf (desc_offset + 8);
                        ipb = bs div isz;
                        inode_offset = (index mod ipb) * isz
                    in if ipb = 0 then None
                       else case ext2_read_block D s (u32 (table + index div ipb)) of
                         None \<Rightarrow> Some None
                       | Some inode_buf \<Rightarrow>
                           if inode_offset + inode_sizeof \<le> length inode_buf
                           then Some (Some (slice inode_buf inode_offset inode_sizeof)) else None)"

text \<open>\<open>ext2_create_VFS_inode\<close>: a new in-memory inode; the result is its handle.\<close>

definition ext2_create_VFS_inode :: "byte list \<Rightarrow> nat \<Rightarrow> 'd ext2 \<Rightarrow> nat \<times> 'd ext2" where
  "ext2_create_VFS_inode ei ino s =
     (nvin s,
      s\<lparr>vin := (vin s)(nvin s :=
          \<lparr>v_ino = ino, v_mode = i_mode ei, v_size = i_size ei, v_refcount = 1,
           v_link_count = (if S_ISDIR (i_mode ei) then 1 else i_links_count ei), v_ei = ei\<rparr>),
        nvin := Suc (nvin s)\<rparr>)"

definition ext2_iget :: "'d driver \<Rightarrow> nat \<Rightarrow> 'd ext2 \<Rightarrow> (nat option \<times> 'd ext2) option" where
  "ext2_iget D ino s =
     do { r \<leftarrow> ext2_read_inode D ino s;
          Some (case r of
                  None \<Rightarrow> (None, s)
                | Some ei \<Rightarrow> (case ext2_create_VFS_inode ei ino s of (ip, s') \<Rightarrow> (Some ip, s'))) }"

section \<open>Mounting, syncing and unmounting\<close>

definition ext2_read_super :: "'d driver \<Rightarrow> 'd ext2 \<Rightarrow> byte list option" where
  "ext2_read_super D s =
     (case ext2_read_block D s 1 of
        None \<Rightarrow> None
      | Some buffer \<Rightarrow> if s_magic (take 1024 buffer) = EXT2_SUPER_MAGIC then Some (take 1024 buffer) else None)"

text \<open>The loop of \<open>ext2_load_group_descs\<close> over the groups from \<open>i\<close> on, \<open>block_buf\<close> being the
  descriptor block read last; \<open>None\<close> is the error return.\<close>

definition load_desc :: "'d driver \<Rightarrow> 'd ext2 \<Rightarrow> byte list \<Rightarrow> nat \<Rightarrow> gdesc option" where
  "load_desc D s block_buf off =
     do { bbm \<leftarrow> ext2_read_block D s (get32 block_buf off);
          ibm \<leftarrow> ext2_read_block D s (get32 block_buf (off + 4));
          Some \<lparr>bg_block_bitmap = get32 block_buf off, bg_inode_bitmap = get32 block_buf (off + 4),
                bg_inode_table = get32 block_buf (off + 8), bg_free_blocks_count = get16 block_buf (off + 12),
                bg_free_inodes_count = get16 block_buf (off + 14), bg_used_dirs_count = get16 block_buf (off + 16),
                block_bitmap = bbm, inode_bitmap = ibm\<rparr> }"

fun load_descs :: "'d driver \<Rightarrow> 'd ext2 \<Rightarrow> nat list \<Rightarrow> byte list \<Rightarrow> gdesc list option" where
  "load_descs D s [] block_buf = Some []"
| "load_descs D s (i # ks) block_buf =
     (let dpb = fs_block_size s div group_desc_sizeof
      in do { block_buf \<leftarrow> (if i mod dpb = 0
                           then ext2_read_block D s (first_desc_block (fs_block_size s) + i div dpb)
                           else Some block_buf);
              d \<leftarrow> load_desc D s block_buf ((i mod dpb) * group_desc_sizeof);
              ds \<leftarrow> load_descs D s ks block_buf;
              Some (d # ds) })"

definition ext2_load_group_descs :: "'d driver \<Rightarrow> 'd ext2 \<Rightarrow> (bool \<times> 'd ext2) option" where
  "ext2_load_group_descs D s =
     (if s_blocks_per_group (es s) = 0 \<or> fs_block_size s div group_desc_sizeof = 0 then None
      else
        let total = sub32 (u32 (s_blocks_count (es s) + s_blocks_per_group (es s))) 1
                      div s_blocks_per_group (es s);
            s = s\<lparr>group_count := total\<rparr>
        in Some (case load_descs D s [0..<total] [] of
                   None \<Rightarrow> (False, s)
                 | Some ds \<Rightarrow> (True, s\<lparr>group_descs := ds\<rparr>)))"

text \<open>\<open>ext2_read_root_inode\<close> on a fresh superblock; \<open>None\<close> in the result is the NULL return.\<close>

definition ext2_read_root_inode :: "'d driver \<Rightarrow> 'd ext2 \<Rightarrow> (nat option \<times> 'd ext2) option" where
  "ext2_read_root_inode D s =
     (case ext2_read_super D s of
        None \<Rightarrow> Some (None, s)
      | Some e \<Rightarrow>
          do { let s = s\<lparr>es := e, mounted := True\<rparr>;
               let s = s\<lparr>fs_block_size := u32 (push_bit (s_log_block_size e) 1024), fs_inode_size := s_inode_size e\<rparr>;
               (ok, s) \<leftarrow> ext2_load_group_descs D s;
               if \<not> ok then Some (None, s) else ext2_iget D EXT2_ROOT_INO s })"

definition ext2_write_super :: "'d driver \<Rightarrow> 'd ext2 \<Rightarrow> int \<times> 'd ext2" where
  "ext2_write_super D s =
     (let n = 1024 div u32 (block_size (sb_part s))
      in (0, s\<lparr>dev := snd (partition_write D (dev s) (sb_part s) n n (es s))\<rparr>))"

text \<open>One round of the descriptor loop of \<open>ext2_sync_fs\<close>.\<close>

definition sync_desc :: "'d driver \<Rightarrow> nat \<Rightarrow> 'd ext2 \<Rightarrow> 'd ext2" where
  "sync_desc D g s =
     (let dpb = fs_block_size s div group_desc_sizeof;
          block_idx = first_desc_block (fs_block_size s) + g div dpb;
          off = (g mod dpb) * group_desc_sizeof;
          gd = group_descs s ! g
      in case ext2_read_block D s block_idx of
           None \<Rightarrow> s
         | Some buf \<Rightarrow>
             snd (ext2_write_block D s block_idx
               (put16 (put16 (put16 buf (off + 12) (bg_free_blocks_count gd))
                  (off + 14) (bg_free_inodes_count gd)) (off + 16) (bg_used_dirs_count gd))))"

definition ext2_sync_fs :: "'d driver \<Rightarrow> 'd ext2 \<Rightarrow> int \<times> 'd ext2" where
  "ext2_sync_fs D s =
     (let s = fold (sync_desc D) [0..<group_count s] s
      in (0, snd (ext2_write_super D s)))"

definition ext2_put_super :: "'d driver \<Rightarrow> 'd ext2 \<Rightarrow> 'd ext2" where
  "ext2_put_super D s =
     (let s = fold (sync_desc D) [0..<group_count s] s;
          s = snd (ext2_write_super D s)
      in s\<lparr>group_descs := []\<rparr>)"

section \<open>A volume on a working disk\<close>

lemma length_es_upd [simp]:
  "length (set_s_free_blocks_count v e) = length e" "length (set_s_free_inodes_count v e) = length e"
  by (simp_all add: set_s_free_blocks_count_def set_s_free_inodes_count_def)

lemma es_upd_other [simp]:
  "s_log_block_size (set_s_free_blocks_count v e) = s_log_block_size e"
  "s_log_block_size (set_s_free_inodes_count v e) = s_log_block_size e"
  "s_blocks_per_group (set_s_free_blocks_count v e) = s_blocks_per_group e"
  "s_blocks_per_group (set_s_free_inodes_count v e) = s_blocks_per_group e"
  "s_inodes_per_group (set_s_free_blocks_count v e) = s_inodes_per_group e"
  "s_inodes_per_group (set_s_free_inodes_count v e) = s_inodes_per_group e"
  "s_first_data_block (set_s_free_blocks_count v e) = s_first_data_block e"
  "s_first_data_block (set_s_free_inodes_count v e) = s_first_data_block e"
  "s_free_inodes_count (set_s_free_blocks_count v e) = s_free_inodes_count e"
  "s_free_blocks_count (set_s_free_inodes_count v e) = s_free_blocks_count e"
  "s_inode_size (set_s_free_blocks_count v e) = s_inode_size e"
  "s_inode_size (set_s_free_inodes_count v e) = s_inode_size e"
  by (simp_all add: s_log_block_size_def s_blocks_per_group_def s_inodes_per_group_def s_first_data_block_def
      s_free_inodes_count_def s_free_blocks_count_def s_inode_size_def
      set_s_free_blocks_count_def set_s_free_inodes_count_def overlay)

lemma s_free_blocks_upd [simp]:
  "16 \<le> length e \<Longrightarrow> s_free_blocks_count (set_s_free_blocks_count v e) = u32 v"
  by (simp add: s_free_blocks_count_def set_s_free_blocks_count_def overlay)

text \<open>The geometry of a mounted volume: block size \<open>bs\<close>, which is \<open>spb\<close> sectors, and \<open>nblk\<close> blocks, all
  inside the partition \<open>p\<close>; the driver serves a block as one request.\<close>

locale ext2_volume = partition_on_disk D p sec nsec nmax ok
  for D :: "'d driver" and p :: block_device and sec nsec nmax ok +
  fixes bs spb nblk :: nat
  assumes sector_bytes: "block_size p = 512" and bs_sectors: "512 * spb = bs" and spb_pos: "0 < spb"
    and volume_inside: "nblk * spb \<le> sector_count p" and volume_small: "nblk * spb < 4294967296"
    and bs_small: "8 * bs < 4294967296" and one_request: "spb \<le> nmax"
begin

definition blk_at :: "'d ext2 \<Rightarrow> nat \<Rightarrow> byte list" where
  "blk_at s b = part.extent_of (dev s) (b * spb) spb"

definition on_vol :: "'d ext2 \<Rightarrow> bool" where
  "on_vol s \<longleftrightarrow> sb_part s = p \<and> mounted s \<and> ok (dev s) \<and> es_block_size s = bs \<and> fs_block_size s = bs \<and>
     1024 \<le> length (es s)"

lemma bs_pos: "0 < bs" using bs_sectors spb_pos by linarith

lemma block_sectors: "b < nblk \<Longrightarrow> b * spb + spb \<le> sector_count p" "b < nblk \<Longrightarrow> u32 (b * spb) = b * spb"
proof -
  assume "b < nblk"
  then have "(b + 1) * spb \<le> nblk * spb" by (intro mult_right_mono) auto
  then show "b * spb + spb \<le> sector_count p" "u32 (b * spb) = b * spb"
    using volume_inside volume_small by (auto intro!: u32_id)
qed

lemma spb_of: "on_vol s \<Longrightarrow> sectors_per_block s = spb"
  using bs_sectors sector_bytes by (auto simp: on_vol_def sectors_per_block_def u32_def)

lemma nblk_small: "b < nblk \<Longrightarrow> b < NEG1"
proof -
  assume "b < nblk"
  then have "b + 1 \<le> nblk * spb" using spb_pos mult_le_mono [of "b + 1" nblk 1 spb] by simp
  then show ?thesis using volume_small by (simp add: NEG1_def)
qed

lemma length_blk: "on_vol s \<Longrightarrow> b < nblk \<Longrightarrow> length (blk_at s b) = bs"
  using part.length_extent [of "dev s" "b * spb" spb] block_sectors(1) [of b] bs_sectors
  by (simp add: blk_at_def on_vol_def)

lemma read_block: "on_vol s \<Longrightarrow> b < nblk \<Longrightarrow> ext2_read_block D s b = Some (blk_at s b)"
  using part.rd_extent [of "dev s" "b * spb" spb] block_sectors [of b] spb_of [of s] spb_pos one_request
  by (simp add: ext2_read_block_def blk_at_def on_vol_def)

text \<open>A block write succeeds and changes this block only.\<close>

lemma write_block:
  assumes "on_vol s" "b < nblk" "length buf = bs"
  obtains h where "ext2_write_block D s b buf = (True, s\<lparr>dev := h\<rparr>)" "on_vol (s\<lparr>dev := h\<rparr>)"
    "\<And>b'. blk_at (s\<lparr>dev := h\<rparr>) b' = (if b' = b then buf else blk_at s b')"
proof -
  have ok: "ok (dev s)" "sb_part s = p" using assms(1) by (auto simp: on_vol_def)
  have len: "length buf = 512 * spb" using assms(3) bs_sectors by simp
  obtain h where h: "partition_write D (dev s) p (b * spb) spb buf = (True, h)" "ok h"
    "part.extent_of h (b * spb) spb = buf"
    "\<And>l m. l + m \<le> b * spb \<or> b * spb + spb \<le> l \<Longrightarrow> part.extent_of h l m = part.extent_of (dev s) l m"
    using part.wr_extent [OF ok(1) block_sectors(1) [OF assms(2)] spb_pos one_request len] by blast
  have "b' * spb + spb \<le> b * spb \<or> b * spb + spb \<le> b' * spb" if "b' \<noteq> b" for b'
  proof (cases "b' < b")
    case True
    then have "(b' + 1) * spb \<le> b * spb" by (intro mult_right_mono) auto
    then show ?thesis by simp
  next
    case False
    then have "(b + 1) * spb \<le> b' * spb" using that by (intro mult_right_mono) auto
    then show ?thesis by simp
  qed
  then have other: "part.extent_of h (b' * spb) spb = part.extent_of (dev s) (b' * spb) spb" if "b' \<noteq> b" for b'
    using h(4) that by simp
  have vol: "on_vol (s\<lparr>dev := h\<rparr>)" using assms(1) h(2) by (auto simp: on_vol_def es_block_size_def)
  have w: "ext2_write_block D s b buf = (True, s\<lparr>dev := h\<rparr>)"
    using h(1) ok(2) spb_of [OF assms(1)] block_sectors(2) [OF assms(2)] by (simp add: ext2_write_block_def)
  show ?thesis by (rule that [OF w vol]) (simp add: blk_at_def h(3) other)
qed

end

end
