(* ===== verification/Ext2Alloc.thy ===== *)
theory Ext2Alloc
  imports Ext2Base
begin

text \<open>
  Correctness of the block allocator of the ext2 driver (\<open>ext2_alloc_block\<close> and \<open>ext2_free_block\<close> of
  \<open>Ext2Base\<close>) on a volume with a working disk: the invariant of bitmaps, counters and their copies on the
  disk, and the effect of both operations on the set of free blocks.
\<close>

section \<open>Bitmaps\<close>

lemma bm_test_bit: "bm_test b i \<longleftrightarrow> bit (b ! (i div 8)) (i mod 8)"
  by (simp add: bm_test_def bit_iff_and_push_bit_not_eq_0)

lemma length_bm [simp]: "length (bm_set b i) = length b" "length (bm_clear b i) = length b"
  by (simp_all add: bm_set_def bm_clear_def)

lemma same_bit: "i = j \<longleftrightarrow> i div 8 = j div 8 \<and> i mod 8 = j mod (8 :: nat)"
  by (metis div_mod_decomp)

lemma bm_test_set: "i < 8 * length b \<Longrightarrow> bm_test (bm_set b i) j \<longleftrightarrow> i = j \<or> bm_test b j"
  by (auto simp: bm_test_bit bm_set_def nth_list_update bit_simps same_bit [of i j])

lemma bm_test_clear: "i < 8 * length b \<Longrightarrow> bm_test (bm_clear b i) j \<longleftrightarrow> i \<noteq> j \<and> bm_test b j"
  by (auto simp: bm_test_bit bm_clear_def nth_list_update bit_simps same_bit [of i j])

lemma count_clear_set:
  assumes "i < n" "n \<le> 8 * length b" "\<not> bm_test b i"
  shows "count_upto (\<lambda>j. \<not> bm_test b j) n = Suc (count_upto (\<lambda>j. \<not> bm_test (bm_set b i) j) n)"
proof -
  have "(\<lambda>j. \<not> bm_test (bm_set b i) j) = (\<lambda>j. \<not> bm_test b j)(i := False)"
    using assms by (auto simp: bm_test_set fun_eq_iff)
  then show ?thesis using count_upto_flip_off [of i n "\<lambda>j. \<not> bm_test b j"] assms by simp
qed

lemma count_clear_clear:
  assumes "i < n" "n \<le> 8 * length b" "bm_test b i"
  shows "count_upto (\<lambda>j. \<not> bm_test (bm_clear b i) j) n = Suc (count_upto (\<lambda>j. \<not> bm_test b j) n)"
proof -
  have "(\<lambda>j. \<not> bm_test (bm_clear b i) j) = (\<lambda>j. \<not> bm_test b j)(i := True)"
    using assms by (auto simp: bm_test_clear fun_eq_iff)
  then show ?thesis using count_upto_flip_on [of i n "\<lambda>j. \<not> bm_test b j"] assms by simp
qed

section \<open>The invariant\<close>

text \<open>What the allocators leave alone: the geometry and where the groups keep their tables.\<close>

definition geometry :: "'d ext2 \<Rightarrow> nat list \<times> (nat \<times> nat \<times> nat) list" where
  "geometry s =
     ([fs_block_size s, fs_inode_size s, group_count s, s_log_block_size (es s), s_blocks_per_group (es s),
       s_inodes_per_group (es s), s_first_data_block (es s), s_inode_size (es s)],
      map (\<lambda>d. (bg_block_bitmap d, bg_inode_bitmap d, bg_inode_table d)) (group_descs s))"

text \<open>And the in-memory inodes and the clock.\<close>

definition same_mem :: "'d ext2 \<Rightarrow> 'd ext2 \<Rightarrow> bool" where
  "same_mem s s' \<longleftrightarrow> vin s' = vin s \<and> nvin s' = nvin s \<and> clk s' = clk s \<and> ticks s' = ticks s"

definition bits :: "'d ext2 \<Rightarrow> nat \<Rightarrow> byte list" where
  "bits s g = block_bitmap (group_descs s ! g)"

definition bmblk :: "'d ext2 \<Rightarrow> nat \<Rightarrow> nat" where
  "bmblk s g = bg_block_bitmap (group_descs s ! g)"

definition blkno :: "'d ext2 \<Rightarrow> nat \<Rightarrow> nat \<Rightarrow> nat" where
  "blkno s g i = g * s_blocks_per_group (es s) + i + s_first_data_block (es s)"

lemma geometry_bmblk:
  "geometry s' = geometry s \<Longrightarrow> length (group_descs s') = length (group_descs s)"
  "geometry s' = geometry s \<Longrightarrow> g < length (group_descs s) \<Longrightarrow> bmblk s' g = bmblk s g"
  "geometry s' = geometry s \<Longrightarrow> g < length (group_descs s) \<Longrightarrow>
     bg_inode_table (group_descs s' ! g) = bg_inode_table (group_descs s ! g)"
  "geometry s' = geometry s \<Longrightarrow> blkno s' = blkno s"
proof -
  assume e: "geometry s' = geometry s"
  from e show len: "length (group_descs s') = length (group_descs s)"
    by (auto simp: geometry_def dest: map_eq_imp_length_eq)
  from e show "blkno s' = blkno s" by (auto simp: geometry_def blkno_def fun_eq_iff)
  assume g: "g < length (group_descs s)"
  from e have "map (\<lambda>d. (bg_block_bitmap d, bg_inode_bitmap d, bg_inode_table d)) (group_descs s') ! g =
      map (\<lambda>d. (bg_block_bitmap d, bg_inode_bitmap d, bg_inode_table d)) (group_descs s) ! g"
    by (simp add: geometry_def)
  with g len show "bmblk s' g = bmblk s g"
    "bg_inode_table (group_descs s' ! g) = bg_inode_table (group_descs s ! g)" by (auto simp: bmblk_def)
qed

context ext2_volume
begin

text \<open>\<open>free_at s g i\<close>: bit \<open>i\<close> of group \<open>g\<close> is clear.\<close>

definition free_at :: "'d ext2 \<Rightarrow> nat \<Rightarrow> nat \<Rightarrow> bool" where
  "free_at s g i \<longleftrightarrow> g < group_count s \<and> i < 8 * bs \<and> \<not> bm_test (bits s g) i"

definition is_free :: "'d ext2 \<Rightarrow> nat \<Rightarrow> bool" where
  "is_free s b \<longleftrightarrow> (\<exists>g i. free_at s g i \<and> b = blkno s g i)"

text \<open>The invariant of the allocator; \<open>meta\<close> is the set of blocks with file system metadata, which are
  never free.\<close>

definition group_inv :: "nat set \<Rightarrow> 'd ext2 \<Rightarrow> nat \<Rightarrow> bool" where
  "group_inv meta s g \<longleftrightarrow>
     length (bits s g) = bs \<and> bmblk s g \<in> meta \<and> blk_at s (bmblk s g) = bits s g \<and>
     bg_free_blocks_count (group_descs s ! g) = count_upto (\<lambda>i. \<not> bm_test (bits s g) i) (8 * bs) \<and>
     bg_free_blocks_count (group_descs s ! g) < 65536"

definition alloc_inv :: "nat set \<Rightarrow> 'd ext2 \<Rightarrow> bool" where
  "alloc_inv meta s \<longleftrightarrow>
     on_vol s \<and> group_count s = length (group_descs s) \<and> meta \<subseteq> {..<nblk} \<and>
     (\<forall>g<group_count s. group_inv meta s g) \<and> inj_on (bmblk s) {..<group_count s} \<and>
     (\<forall>g i. free_at s g i \<longrightarrow> i < s_blocks_per_group (es s) \<and> 0 < blkno s g i \<and> blkno s g i < nblk \<and> blkno s g i \<notin> meta)"

lemma free_blkno_inj:
  assumes "alloc_inv meta s" "free_at s g i" "free_at s g' i'" "blkno s g i = blkno s g' i'"
  shows "g = g'" "i = i'"
proof -
  have lt: "i < s_blocks_per_group (es s)" "i' < s_blocks_per_group (es s)"
    using assms(1-3) by (auto simp: alloc_inv_def)
  from assms(4) have e: "g * s_blocks_per_group (es s) + i = g' * s_blocks_per_group (es s) + i'"
    by (simp add: blkno_def)
  from e lt have "(g * s_blocks_per_group (es s) + i) div s_blocks_per_group (es s) =
      (g' * s_blocks_per_group (es s) + i') div s_blocks_per_group (es s)" by simp
  then show "g = g'" using lt by simp
  with e show "i = i'" by simp
qed

text \<open>The common part of both operations: a new bitmap and counter for group \<open>g\<close>, a superblock with the
  same geometry, and the bitmap written to the disk.\<close>

definition with_bits :: "nat \<Rightarrow> byte list \<Rightarrow> nat \<Rightarrow> byte list \<Rightarrow> 'd ext2 \<Rightarrow> 'd ext2" where
  "with_bits g bm c e s =
     (upd_gd g (\<lambda>d. d\<lparr>block_bitmap := bm, bg_free_blocks_count := c\<rparr>) s)\<lparr>es := e\<rparr>"

definition same_es :: "byte list \<Rightarrow> byte list \<Rightarrow> bool" where
  "same_es e e' \<longleftrightarrow> length e' = length e \<and> s_log_block_size e' = s_log_block_size e \<and>
     s_blocks_per_group e' = s_blocks_per_group e \<and> s_inodes_per_group e' = s_inodes_per_group e \<and>
     s_first_data_block e' = s_first_data_block e \<and> s_inode_size e' = s_inode_size e"

lemma with_bits_fields:
  assumes "same_es (es s) e" "g < length (group_descs s)"
  shows "geometry (with_bits g bm c e s) = geometry s" "same_mem s (with_bits g bm c e s)"
    "bits (with_bits g bm c e s) g' = (if g' = g then bm else bits s g')"
    "bmblk (with_bits g bm c e s) g' = bmblk s g'" "blkno (with_bits g bm c e s) = blkno s"
    "group_count (with_bits g bm c e s) = group_count s" "dev (with_bits g bm c e s) = dev s"
    "bg_free_blocks_count (group_descs (with_bits g bm c e s) ! g') =
       (if g' = g then c else bg_free_blocks_count (group_descs s ! g'))"
    "length (group_descs (with_bits g bm c e s)) = length (group_descs s)"
    "on_vol s \<Longrightarrow> on_vol (with_bits g bm c e s)"
  using assms
  by (auto simp: with_bits_def upd_gd_def geometry_def same_es_def same_mem_def bits_def bmblk_def blkno_def
      on_vol_def es_block_size_def fun_eq_iff nth_list_update map_update list_update_same_conv)

lemma write_bits:
  assumes inv: "alloc_inv meta s" and g: "g < group_count s" and e: "same_es (es s) e"
    and bm: "length bm = bs" and c: "count_upto (\<lambda>i. \<not> bm_test bm i) (8 * bs) = c" "c < 65536"
    and fr: "\<And>i. i < 8 * bs \<Longrightarrow> \<not> bm_test bm i \<Longrightarrow>
      i < s_blocks_per_group (es s) \<and> 0 < blkno s g i \<and> blkno s g i < nblk \<and> blkno s g i \<notin> meta"
  obtains s' where "ext2_write_block D (with_bits g bm c e s) (bmblk s g) bm = (True, s')" "alloc_inv meta s'"
    "geometry s' = geometry s" "same_mem s s'" "es s' = e"
    "\<And>g' i. free_at s' g' i \<longleftrightarrow> (if g' = g then i < 8 * bs \<and> \<not> bm_test bm i else free_at s g' i)"
    "\<And>b. b \<notin> meta \<Longrightarrow> blk_at s' b = blk_at s b"
proof -
  let ?s = "with_bits g bm c e s"
  have gl: "g < length (group_descs s)" using inv g by (simp add: alloc_inv_def)
  note flds = with_bits_fields [OF e gl]
  have vol: "on_vol s" and inj: "inj_on (bmblk s) {..<group_count s}"
    and grp: "\<And>g'. g' < group_count s \<Longrightarrow> group_inv meta s g'" and gc: "group_count s = length (group_descs s)"
    and free: "\<And>g' i. free_at s g' i \<Longrightarrow> i < s_blocks_per_group (es s) \<and> 0 < blkno s g' i \<and> blkno s g' i < nblk \<and> blkno s g' i \<notin> meta"
    and meta: "meta \<subseteq> {..<nblk}"
    using inv by (auto simp: alloc_inv_def)
  have "bmblk s g \<in> meta" using grp [OF g] by (simp add: group_inv_def)
  then have "bmblk s g < nblk" using meta by auto
  then obtain h where w: "ext2_write_block D ?s (bmblk s g) bm = (True, ?s\<lparr>dev := h\<rparr>)" "on_vol (?s\<lparr>dev := h\<rparr>)"
    and blk: "\<And>b'. blk_at (?s\<lparr>dev := h\<rparr>) b' = (if b' = bmblk s g then bm else blk_at ?s b')"
    using write_block [OF flds(10) [OF vol] _ bm] by metis
  let ?t = "?s\<lparr>dev := h\<rparr>"
  have tf: "geometry ?t = geometry s" "same_mem s ?t" "\<And>g'. bits ?t g' = (if g' = g then bm else bits s g')"
    "\<And>g'. bmblk ?t g' = bmblk s g'" "blkno ?t = blkno s" "group_count ?t = group_count s"
    "\<And>g'. bg_free_blocks_count (group_descs ?t ! g') = (if g' = g then c else bg_free_blocks_count (group_descs s ! g'))"
    "length (group_descs ?t) = length (group_descs s)"
    using flds by (simp_all add: geometry_def same_mem_def bits_def bmblk_def blkno_def fun_eq_iff)
  have same: "blk_at ?s b = blk_at s b" for b using flds(7) by (simp add: blk_at_def)
  have fat: "free_at ?t g' i \<longleftrightarrow> (if g' = g then i < 8 * bs \<and> \<not> bm_test bm i else free_at s g' i)" for g' i
    using g by (auto simp: free_at_def tf)
  have "alloc_inv meta ?t" unfolding alloc_inv_def
  proof (intro conjI allI impI)
    show "on_vol ?t" by (rule w(2))
    show "group_count ?t = length (group_descs ?t)" using gc tf by simp
    show "inj_on (bmblk ?t) {..<group_count ?t}" using inj tf by (simp add: inj_on_def)
    fix g' assume g': "g' < group_count ?t"
    show "group_inv meta ?t g'"
    proof (cases "g' = g")
      case True
      then show ?thesis using c bm grp [OF g] by (simp add: group_inv_def tf blk flds(8))
    next
      case False
      then have "bmblk s g' \<noteq> bmblk s g" using inj g g' by (auto simp: inj_on_def tf)
      with False show ?thesis using grp [of g'] g' by (simp add: group_inv_def tf blk same flds(8))
    qed
  next
    have bpg: "s_blocks_per_group (es ?s) = s_blocks_per_group (es s)"
      using e by (simp add: with_bits_def same_es_def)
    fix g' i assume f: "free_at ?t g' i"
    have "i < s_blocks_per_group (es s) \<and> 0 < blkno s g' i \<and> blkno s g' i < nblk \<and> blkno s g' i \<notin> meta"
    proof (cases "g' = g")
      case True
      with f fat show ?thesis using fr by simp
    next
      case False
      with f fat show ?thesis using free by simp
    qed
    then show "i < s_blocks_per_group (es ?t)" "0 < blkno ?t g' i" "blkno ?t g' i < nblk" "blkno ?t g' i \<notin> meta"
      by (simp_all add: tf bpg)
  qed (use meta in auto)
  moreover have "blk_at ?t b = blk_at s b" if "b \<notin> meta" for b
    using that \<open>bmblk s g \<in> meta\<close> by (auto simp: blk same)
  ultimately show ?thesis using that [OF w(1) _ tf(1,2) _ fat] by (simp add: with_bits_def)
qed

lemma same_es_free [simp]: "same_es e (set_s_free_blocks_count v e)"
  by (simp add: same_es_def)

lemma group_count_le: "alloc_inv meta s \<Longrightarrow> g < group_count s \<Longrightarrow> g < length (group_descs s)"
  by (simp add: alloc_inv_def)

lemma take_block_ok:
  assumes inv: "alloc_inv meta s" and fr: "free_at s g i"
  obtains s' where "take_block D g i s = (blkno s g i, s')" "alloc_inv meta s'" "geometry s' = geometry s"
    "same_mem s s'" "\<And>b. is_free s' b \<longleftrightarrow> is_free s b \<and> b \<noteq> blkno s g i"
    "\<And>b. b \<notin> meta \<Longrightarrow> blk_at s' b = blk_at s b"
    "s_free_blocks_count (es s') = sub32 (s_free_blocks_count (es s)) 1"
proof -
  let ?bm = "bm_set (bits s g) i" and ?c = "bg_free_blocks_count (group_descs s ! g) - 1"
  let ?e = "set_s_free_blocks_count (sub32 (s_free_blocks_count (es s)) 1) (es s)"
  have g: "g < group_count s" and i: "i < 8 * bs" "\<not> bm_test (bits s g) i" using fr by (auto simp: free_at_def)
  have gl: "g < length (group_descs s)" by (rule group_count_le [OF inv g])
  have gi: "group_inv meta s g" and vol: "on_vol s" using inv g by (auto simp: alloc_inv_def)
  have len: "length (bits s g) = bs" using gi by (simp add: group_inv_def)
  have cnt: "count_upto (\<lambda>j. \<not> bm_test ?bm j) (8 * bs) = ?c" "0 < bg_free_blocks_count (group_descs s ! g)" "?c < 65536"
    using count_clear_set [of i "8 * bs" "bits s g"] i len gi by (auto simp: group_inv_def)
  have small: "0 < blkno s g i" "blkno s g i < nblk" using inv fr by (auto simp: alloc_inv_def)
  have ok: "j < s_blocks_per_group (es s) \<and> 0 < blkno s g j \<and> blkno s g j < nblk \<and> blkno s g j \<notin> meta"
    if "j < 8 * bs" "\<not> bm_test ?bm j" for j
    using inv that g i len unfolding alloc_inv_def free_at_def by (auto simp: bm_test_set)
  obtain s' where s': "ext2_write_block D (with_bits g ?bm ?c ?e s) (bmblk s g) ?bm = (True, s')" "alloc_inv meta s'"
    "geometry s' = geometry s" "same_mem s s'" "es s' = ?e"
    "\<And>g' j. free_at s' g' j \<longleftrightarrow> (if g' = g then j < 8 * bs \<and> \<not> bm_test ?bm j else free_at s g' j)"
    "\<And>b. b \<notin> meta \<Longrightarrow> blk_at s' b = blk_at s b"
    using write_bits [OF inv g same_es_free _ cnt(1,3) ok] len by (metis length_bm(1))
  have upd: "upd_gd g (\<lambda>d. d\<lparr>block_bitmap := bm_set (block_bitmap d) i,
        bg_free_blocks_count := sub16 (bg_free_blocks_count d) 1\<rparr>) s\<lparr>es := ?e\<rparr> = with_bits g ?bm ?c ?e s"
    using cnt(2) gi by (simp add: with_bits_def upd_gd_def bits_def group_inv_def width)
  have fields: "group_descs (with_bits g ?bm ?c ?e s) ! g =
      (group_descs s ! g)\<lparr>block_bitmap := ?bm, bg_free_blocks_count := ?c\<rparr>"
    using gl by (simp add: with_bits_def upd_gd_def)
  have es1: "es (upd_gd g f s) = es s" for f by (simp add: upd_gd_def)
  have es2: "s_blocks_per_group (es s') = s_blocks_per_group (es s)" "s_first_data_block (es s') = s_first_data_block (es s)"
    using s'(5) by simp_all
  have "take_block D g i s = (u32 (blkno s g i), s')"
    unfolding take_block_def Let_def es1 upd fields
    using s'(1) es2 by (simp add: bmblk_def blkno_def)
  then have t: "take_block D g i s = (blkno s g i, s')"
    using nblk_small [OF small(2)] by (simp add: NEG1_def width)
  have free: "is_free s' b \<longleftrightarrow> is_free s b \<and> b \<noteq> blkno s g i" for b
  proof -
    have "free_at s' g' j \<longleftrightarrow> free_at s g' j \<and> \<not> (g' = g \<and> j = i)" for g' j
      using s'(6) [of g' j] i g len by (auto simp: free_at_def bm_test_set)
    moreover have "blkno s' = blkno s" using geometry_bmblk(4) [OF s'(3)] .
    ultimately show ?thesis using free_blkno_inj [OF inv _ fr] unfolding is_free_def by metis
  qed
  have "s_free_blocks_count (es s') = sub32 (s_free_blocks_count (es s)) 1"
    using s'(5) vol by (simp add: on_vol_def) (simp add: sub32_def u32_def)
  from that [OF t s'(2,3,4) free s'(7) this] show ?thesis .
qed

lemma alloc_block_from_cases:
  assumes "alloc_inv meta s"
  shows "(\<exists>g' i. free_at s g' i \<and> alloc_block_from D g s = take_block D g' i s) \<or>
    (\<forall>g' i. g \<le> g' \<longrightarrow> \<not> free_at s g' i) \<and> alloc_block_from D g s = (NEG1, s)"
  using assms
proof (induction D g s rule: alloc_block_from.induct)
  case (1 D g s)
  let ?P = "\<lambda>i. \<not> bm_test (block_bitmap (group_descs s ! g)) i"
  note step = alloc_block_from.simps [of D g s]
  show ?case
  proof (cases "g < group_count s")
    case False
    then show ?thesis by (auto simp: step free_at_def)
  next
    case True
    then have gi: "group_inv meta s g" and bs8: "fs_block_size s * 8 = 8 * bs"
      using "1.prems" by (auto simp: alloc_inv_def on_vol_def)
    show ?thesis
    proof (cases "first_from ?P 0 (8 * bs)")
      case None
      then have none: "\<not> free_at s g i" for i by (auto simp: first_from_None_iff free_at_def bits_def)
      have next': "alloc_block_from D g s = alloc_block_from D (g + 1) s"
        using True None by (simp add: step bs8)
      have "(\<exists>g' i. free_at s g' i \<and> alloc_block_from D (g + 1) s = take_block D g' i s) \<or>
          (\<forall>g' i. g + 1 \<le> g' \<longrightarrow> \<not> free_at s g' i) \<and> alloc_block_from D (g + 1) s = (NEG1, s)"
        by (cases "bg_free_blocks_count (group_descs s ! g) = 0") (use "1.IH" True "1.prems" None bs8 in simp_all)
      then show ?thesis unfolding next' using none by (metis Suc_eq_plus1 Suc_leI le_neq_implies_less)
    next
      case (Some i)
      from first_from_SomeD [OF this] have fr: "free_at s g i" using True by (simp add: free_at_def bits_def)
      then have "0 < bg_free_blocks_count (group_descs s ! g)"
        using gi count_upto_pos [of "\<lambda>j. \<not> bm_test (bits s g) j" "8 * bs"] by (auto simp: group_inv_def free_at_def)
      then have "alloc_block_from D g s = take_block D g i s" using True Some by (simp add: step bs8)
      with fr show ?thesis by blast
    qed
  qed
qed

lemma alloc_block_ok:
  assumes "alloc_inv meta s" "is_free s b0"
  obtains b s' where "ext2_alloc_block D s = (b, s')" "is_free s b" "0 < b" "b < nblk" "b \<notin> meta" "alloc_inv meta s'"
    "geometry s' = geometry s" "same_mem s s'" "\<And>x. is_free s' x \<longleftrightarrow> is_free s x \<and> x \<noteq> b"
    "\<And>x. x \<notin> meta \<Longrightarrow> blk_at s' x = blk_at s x"
    "s_free_blocks_count (es s') = sub32 (s_free_blocks_count (es s)) 1"
proof -
  from assms(2) obtain g' i' where "free_at s g' i'" by (auto simp: is_free_def)
  then obtain g i where fr: "free_at s g i" and eq: "alloc_block_from D 0 s = take_block D g i s"
    using alloc_block_from_cases [OF assms(1), of 0] by blast
  obtain s' where s': "take_block D g i s = (blkno s g i, s')" "alloc_inv meta s'" "geometry s' = geometry s"
    "same_mem s s'" "\<And>b. is_free s' b \<longleftrightarrow> is_free s b \<and> b \<noteq> blkno s g i"
    "\<And>b. b \<notin> meta \<Longrightarrow> blk_at s' b = blk_at s b"
    "s_free_blocks_count (es s') = sub32 (s_free_blocks_count (es s)) 1"
    using take_block_ok [OF assms(1) fr] by blast
  have "is_free s (blkno s g i)" using fr by (auto simp: is_free_def)
  moreover have "0 < blkno s g i" "blkno s g i < nblk" "blkno s g i \<notin> meta"
    using assms(1) fr by (auto simp: alloc_inv_def)
  moreover have "ext2_alloc_block D s = (blkno s g i, s')" using eq s'(1) by (simp add: ext2_alloc_block_def)
  ultimately show ?thesis using that s'(2-) by blast
qed

lemma alloc_block_full:
  assumes "alloc_inv meta s" "\<And>b. \<not> is_free s b"
  shows "ext2_alloc_block D s = (NEG1, s)"
  using alloc_block_from_cases [OF assms(1), of 0] assms(2) by (auto simp: ext2_alloc_block_def is_free_def)

text \<open>The bit taken from group \<open>g\<close> leaves room in its counter.\<close>

lemma room_after:
  assumes inv: "alloc_inv meta s" "alloc_inv meta s'" and geo: "geometry s' = geometry s" and fr: "free_at s g i"
    and less: "\<And>x. is_free s' x \<longleftrightarrow> is_free s x \<and> x \<noteq> blkno s g i"
  shows "bg_free_blocks_count (group_descs s' ! g) + 1 < 65536"
proof -
  have bk: "blkno s' = blkno s" "group_count s' = group_count s" "s_blocks_per_group (es s') = s_blocks_per_group (es s)"
    using geometry_bmblk(4) [OF geo] geo by (auto simp: geometry_def)
  have g: "g < group_count s" using fr by (simp add: free_at_def)
  have "free_at s g j \<and> j \<noteq> i" if "free_at s' g j" for j
  proof -
    have j: "j < s_blocks_per_group (es s)" using inv(2) that bk by (auto simp: alloc_inv_def)
    have "is_free s' (blkno s g j)" using that bk by (auto simp: is_free_def)
    then obtain g2 j2 where f: "free_at s g2 j2" "blkno s g j = blkno s g2 j2" "blkno s g j \<noteq> blkno s g i"
      using less by (auto simp: is_free_def)
    have "j2 < s_blocks_per_group (es s)" using inv(1) f(1) by (auto simp: alloc_inv_def)
    with f(2) j have "g = g2" by (simp add: blkno_def) (metis div_mult_self3 div_less add.commute add_0 less_nat_zero_code)
    with f show ?thesis by (auto simp: blkno_def)
  qed
  then have "{j. j < 8 * bs \<and> \<not> bm_test (bits s' g) j} \<subset> {j. j < 8 * bs \<and> \<not> bm_test (bits s g) j}"
    using fr g bk by (auto simp: free_at_def)
  then have "count_upto (\<lambda>j. \<not> bm_test (bits s' g) j) (8 * bs) < count_upto (\<lambda>j. \<not> bm_test (bits s g) j) (8 * bs)"
    unfolding count_upto_def by (intro psubset_card_mono) auto
  moreover have "group_inv meta s g" "group_inv meta s' g" using inv g bk by (auto simp: alloc_inv_def)
  ultimately show ?thesis by (simp add: group_inv_def)
qed

text \<open>Freeing block \<open>blkno s g i\<close> of a group whose bit is set.\<close>

lemma free_block_ok:
  assumes inv: "alloc_inv meta s" and g: "g < group_count s"
    and i: "i < s_blocks_per_group (es s)" "i < 8 * bs" "bm_test (bits s g) i"
    and b: "0 < blkno s g i" "blkno s g i < nblk" "blkno s g i \<notin> meta"
    and room: "bg_free_blocks_count (group_descs s ! g) + 1 < 65536"
  obtains s' where "ext2_free_block D (blkno s g i) s = s'" "alloc_inv meta s'" "geometry s' = geometry s"
    "same_mem s s'" "\<And>x. is_free s' x \<longleftrightarrow> is_free s x \<or> x = blkno s g i"
    "\<And>x. x \<notin> meta \<Longrightarrow> blk_at s' x = blk_at s x"
    "s_free_blocks_count (es s') = u32 (s_free_blocks_count (es s) + 1)"
proof -
  let ?bm = "bm_clear (bits s g) i" and ?c = "bg_free_blocks_count (group_descs s ! g) + 1"
  let ?e = "set_s_free_blocks_count (u32 (s_free_blocks_count (es s) + 1)) (es s)"
  let ?bpg = "s_blocks_per_group (es s)" and ?fd = "s_first_data_block (es s)"
  have gl: "g < length (group_descs s)" by (rule group_count_le [OF inv g])
  have gi: "group_inv meta s g" and vol: "on_vol s" using inv g by (auto simp: alloc_inv_def)
  have len: "length (bits s g) = bs" using gi by (simp add: group_inv_def)
  have lt: "blkno s g i < 4294967296" using nblk_small [OF b(2)] by (simp add: NEG1_def)
  have sub: "sub32 (blkno s g i) ?fd = g * ?bpg + i" using lt by (simp add: width blkno_def)
  have dv: "(g * ?bpg + i) div ?bpg = g" using i(1) by simp
  have idx: "sub32 (blkno s g i) (u32 (g * ?bpg + ?fd)) = i"
    using lt by (simp add: blkno_def width)
  have cnt: "count_upto (\<lambda>j. \<not> bm_test ?bm j) (8 * bs) = ?c"
    using count_clear_clear [of i "8 * bs" "bits s g"] i len gi by (simp add: group_inv_def)
  have ok: "j < ?bpg \<and> 0 < blkno s g j \<and> blkno s g j < nblk \<and> blkno s g j \<notin> meta"
    if "j < 8 * bs" "\<not> bm_test ?bm j" for j
  proof (cases "j = i")
    case False
    then have "free_at s g j" using that g i len by (simp add: free_at_def bm_test_clear)
    then show ?thesis using inv by (auto simp: alloc_inv_def)
  qed (use i b in simp)
  obtain s' where s': "ext2_write_block D (with_bits g ?bm ?c ?e s) (bmblk s g) ?bm = (True, s')" "alloc_inv meta s'"
    "geometry s' = geometry s" "same_mem s s'" "es s' = ?e"
    "\<And>g' j. free_at s' g' j \<longleftrightarrow> (if g' = g then j < 8 * bs \<and> \<not> bm_test ?bm j else free_at s g' j)"
    "\<And>x. x \<notin> meta \<Longrightarrow> blk_at s' x = blk_at s x"
    using write_bits [OF inv g same_es_free _ cnt room ok] len by (metis length_bm(2))
  have upd: "upd_gd g (\<lambda>d. d\<lparr>block_bitmap := bm_clear (block_bitmap d) i,
        bg_free_blocks_count := u16 (bg_free_blocks_count d + 1)\<rparr>) s\<lparr>es := ?e\<rparr> = with_bits g ?bm ?c ?e s"
    using room by (simp add: with_bits_def upd_gd_def bits_def width)
  have fields: "group_descs (with_bits g ?bm ?c ?e s) ! g =
      (group_descs s ! g)\<lparr>block_bitmap := ?bm, bg_free_blocks_count := ?c\<rparr>"
    using gl by (simp add: with_bits_def upd_gd_def)
  have es1: "es (upd_gd g f s) = es s" for f by (simp add: upd_gd_def)
  have test: "bm_test (block_bitmap (group_descs s ! g)) i" using i(3) by (simp add: bits_def)
  have run: "ext2_free_block D (blkno s g i) s = s'"
    unfolding ext2_free_block_def Let_def sub dv idx es1 upd fields
    using g i(1) test s'(1) by (simp add: bmblk_def)
  have free: "is_free s' x \<longleftrightarrow> is_free s x \<or> x = blkno s g i" for x
  proof -
    have "free_at s' g' j \<longleftrightarrow> free_at s g' j \<or> g' = g \<and> j = i" for g' j
      using s'(6) [of g' j] i g len by (auto simp: free_at_def bm_test_clear)
    moreover have "blkno s' = blkno s" using geometry_bmblk(4) [OF s'(3)] .
    ultimately show ?thesis unfolding is_free_def by metis
  qed
  have "s_free_blocks_count (es s') = u32 (s_free_blocks_count (es s) + 1)"
    using s'(5) vol by (simp add: on_vol_def) (simp add: u32_def)
  from that [OF run s'(2,3,4) free s'(7) this] show ?thesis .
qed

end

section \<open>A small volume\<close>

text \<open>A volume of 32 blocks of 1024 bytes on a disk in memory, with one group: the bitmap is in block 3,
  the inode table starts at block 5, blocks 17 to 24 are free.\<close>

definition small_part :: block_device where
  "small_part = demo_part\<lparr>start_lba := 2, sector_count := 64, total_blocks := 64\<rparr>"

definition small_bitmap :: "byte list" where
  "small_bitmap = (replicate 1024 (-1))[2 := 0]"

definition small_es :: "byte list" where
  "small_es = put32 (put32 (put32 (put32 (replicate 1024 0) 12 8) 20 1) 32 8192) 40 32"

definition small_disk :: "nat \<Rightarrow> nat \<Rightarrow> byte list" where
  "small_disk = (\<lambda>u i. if i = 8 then take 512 small_bitmap else if i = 9 then drop 512 small_bitmap else replicate 512 0)"

definition small_fs :: "(nat \<Rightarrow> nat \<Rightarrow> byte list) ext2" where
  "small_fs =
     \<lparr>dev = small_disk, sb_part = small_part, mounted = True, es = small_es, fs_block_size = 1024,
      fs_inode_size = 128, group_count = 1,
      group_descs = [\<lparr>bg_block_bitmap = 3, bg_inode_bitmap = 4, bg_inode_table = 5, bg_free_blocks_count = 8,
        bg_free_inodes_count = 20, bg_used_dirs_count = 1, block_bitmap = small_bitmap,
        inode_bitmap = replicate 1024 0\<rparr>],
      vin = (\<lambda>_. \<lparr>v_ino = 12, v_mode = S_IFREG, v_size = 0, v_refcount = 1, v_link_count = 1, v_ei = replicate 128 0\<rparr>),
      nvin = 1, clk = (\<lambda>n. n), ticks = 0\<rparr>"

definition small_meta :: "nat set" where "small_meta = {1..10}"

interpretation small: ext2_volume "ram_driver 80" small_part "\<lambda>h. h 1" 80 65535 "ram_ok 1 80" 1024 2 32
proof -
  have "reliable_disk (\<lambda>h. drv_read (ram_driver 80) h (dunit small_part)) (\<lambda>h. drv_write (ram_driver 80) h (dunit small_part))
      (\<lambda>h. h 1) 80 65535 (ram_ok 1 80)"
    using ram_reliable [of 80 1] by (simp add: small_part_def demo_part_def)
  then show "ext2_volume (ram_driver 80) small_part (\<lambda>h. h 1) 80 65535 (ram_ok 1 80) 1024 2 32"
    by (intro ext2_volume.intro ext2_volume_axioms.intro partition_on_disk.intro partition_on_disk_axioms.intro)
      (simp_all add: small_part_def demo_part_def)
qed

lemma small_es_fields:
  "s_log_block_size small_es = 0" "s_blocks_per_group small_es = 8192" "s_inodes_per_group small_es = 32"
  "s_first_data_block small_es = 1" "s_free_blocks_count small_es = 8" "length small_es = 1024"
  by (simp_all add: s_log_block_size_def s_blocks_per_group_def s_inodes_per_group_def s_first_data_block_def
      s_free_blocks_count_def small_es_def overlay u32_def)
    (simp add: get32_def)

lemma small_bitmap_test: "i < 8192 \<Longrightarrow> bm_test small_bitmap i \<longleftrightarrow> \<not> (16 \<le> i \<and> i < 24)"
  unfolding bm_test_bit small_bitmap_def by (cases "i div 8 = 2") (auto simp: nth_list_update)

lemma small_bitmap_count: "count_upto (\<lambda>i. \<not> bm_test small_bitmap i) 8192 = 8"
proof -
  have "{i. i < 8192 \<and> \<not> bm_test small_bitmap i} = {16..<24}" using small_bitmap_test by auto
  then show ?thesis by (simp add: count_upto_def)
qed

lemma small_on_vol: "small.on_vol small_fs"
  unfolding small.on_vol_def
  by (simp add: small_fs_def es_block_size_def small_es_fields ram_ok_def small_disk_def small_bitmap_def u32_def)

lemma small_free: "small.free_at small_fs g i \<longleftrightarrow> g = 0 \<and> 16 \<le> i \<and> i < 24"
  unfolding small.free_at_def using small_bitmap_test [of i] by (auto simp: bits_def small_fs_def)

lemma small_blkno: "blkno small_fs g i = g * 8192 + i + 1"
  by (simp add: blkno_def small_fs_def small_es_fields)

lemma small_alloc_inv: "small.alloc_inv small_meta small_fs"
proof -
  have blk: "small.blk_at small_fs 3 = small_bitmap"
    unfolding small.blk_at_def small.part.extent_of_def
    by (simp add: small_fs_def small_part_def demo_part_def small_disk_def upt_rec)
  have "length small_bitmap = 1024" by (simp add: small_bitmap_def)
  then have "small.group_inv small_meta small_fs 0"
    unfolding small.group_inv_def using blk small_bitmap_count
    by (simp add: bits_def bmblk_def small_fs_def small_meta_def)
  moreover have "group_count small_fs = 1" "length (group_descs small_fs) = 1" "es small_fs = small_es"
    by (simp_all add: small_fs_def)
  ultimately show ?thesis unfolding small.alloc_inv_def
    using small_on_vol small_free small_es_fields by (auto simp: small_blkno small_meta_def inj_on_def)
qed

section \<open>The allocator\<close>

text \<open>C4: on a mounted volume with a working disk, \<open>ext2_alloc_block\<close> finds a free block whenever there
  is one.  The block it returns was free, is not a metadata block and is the only one whose state changes;
  the superblock counter drops by one, the cached bitmap, its counter and the copy on the disk stay
  consistent, and no other block of the disk is written outside the metadata.  Giving the block back makes it
  free again and restores the counter.  Without a free block the call returns -1 and changes nothing.\<close>

theorem ext2_alloc_block_correct:
  assumes vol: "ext2_volume D p sec nsec nmax ok bs spb nblk" and inv: "ext2_volume.alloc_inv p sec ok bs spb nblk meta s"
  shows "(\<forall>b. \<not> ext2_volume.is_free bs s b) \<and> ext2_alloc_block D s = (NEG1, s) \<or>
    (\<exists>b s'. ext2_alloc_block D s = (b, s') \<and> ext2_volume.is_free bs s b \<and> b < nblk \<and> b \<notin> meta \<and>
       ext2_volume.alloc_inv p sec ok bs spb nblk meta s' \<and>
       (\<forall>x. ext2_volume.is_free bs s' x \<longleftrightarrow> ext2_volume.is_free bs s x \<and> x \<noteq> b) \<and>
       (\<forall>x. x \<notin> meta \<longrightarrow> ext2_volume.blk_at p sec spb s' x = ext2_volume.blk_at p sec spb s x) \<and>
       s_free_blocks_count (es s') = sub32 (s_free_blocks_count (es s)) 1 \<and>
       (\<forall>x. ext2_volume.is_free bs (ext2_free_block D b s') x \<longleftrightarrow> ext2_volume.is_free bs s x) \<and>
       s_free_blocks_count (es (ext2_free_block D b s')) = s_free_blocks_count (es s))"
proof (cases "\<exists>b. ext2_volume.is_free bs s b")
  case False
  then show ?thesis using ext2_volume.alloc_block_full [OF vol inv] by blast
next
  case True
  then obtain b s' where a: "ext2_alloc_block D s = (b, s')" "ext2_volume.is_free bs s b" "0 < b" "b < nblk" "b \<notin> meta"
    "ext2_volume.alloc_inv p sec ok bs spb nblk meta s'" "geometry s' = geometry s"
    "\<And>x. ext2_volume.is_free bs s' x \<longleftrightarrow> ext2_volume.is_free bs s x \<and> x \<noteq> b"
    "\<And>x. x \<notin> meta \<Longrightarrow> ext2_volume.blk_at p sec spb s' x = ext2_volume.blk_at p sec spb s x"
    "s_free_blocks_count (es s') = sub32 (s_free_blocks_count (es s)) 1"
    using ext2_volume.alloc_block_ok [OF vol inv] by metis
  obtain g i where gi: "ext2_volume.free_at bs s g i" "b = blkno s g i"
    using a(2) by (auto simp: ext2_volume.is_free_def [OF vol])
  have bk: "blkno s' = blkno s" "group_count s' = group_count s" "s_blocks_per_group (es s') = s_blocks_per_group (es s)"
    using geometry_bmblk(4) [OF a(7)] a(7) by (auto simp: geometry_def)
  have lt: "g < group_count s'" "i < s_blocks_per_group (es s')" "i < 8 * bs"
    using gi(1) inv bk by (auto simp: ext2_volume.free_at_def [OF vol] ext2_volume.alloc_inv_def [OF vol])
  have "\<not> ext2_volume.free_at bs s' g i"
    using a(8) [of b] gi(2) bk by (auto simp: ext2_volume.is_free_def [OF vol])
  then have set': "bm_test (bits s' g) i" using lt by (simp add: ext2_volume.free_at_def [OF vol])
  have "bg_free_blocks_count (group_descs s' ! g) + 1 < 65536"
    using ext2_volume.room_after [OF vol inv a(6,7) gi(1)] a(8) gi(2) by simp
  then obtain s'' where f: "ext2_free_block D b s' = s''"
    "\<And>x. ext2_volume.is_free bs s'' x \<longleftrightarrow> ext2_volume.is_free bs s' x \<or> x = b"
    "s_free_blocks_count (es s'') = u32 (s_free_blocks_count (es s') + 1)"
    using ext2_volume.free_block_ok [OF vol a(6) lt set'] a(3-5) gi(2) bk by metis
  have "s_free_blocks_count (es s) < 4294967296" by (simp add: s_free_blocks_count_def)
  then have "u32 (sub32 (s_free_blocks_count (es s)) 1 + 1) = s_free_blocks_count (es s)"
    by (simp add: sub32_def u32_def mod_Suc_eq)
  then show ?thesis using a f by auto
qed

theorem ext2_alloc_block_correct_witness:
  "\<exists>b s'. ext2_alloc_block (ram_driver 80) small_fs = (b, s') \<and> b < 32 \<and> s_free_blocks_count (es s') = 7 \<and>
     s_free_blocks_count (es (ext2_free_block (ram_driver 80) b s')) = 8"
proof -
  have "small.is_free small_fs 17"
    unfolding small.is_free_def using small_free by (intro exI [of _ 0] exI [of _ 16]) (simp add: small_blkno)
  moreover have "sub32 8 1 = 7" by (simp add: width)
  moreover have "s_free_blocks_count (es small_fs) = 8" by (simp add: small_fs_def small_es_fields)
  ultimately show ?thesis
    using ext2_alloc_block_correct [OF small.ext2_volume_axioms small_alloc_inv] by auto
qed

end
