(* ===== verification/Ext2Map.thy ===== *)
theory Ext2Map
  imports Ext2Alloc
begin

text \<open>
  The block map of an ext2 inode, \<open>src/fs/ext2.c\<close>: translation of a logical block number through the
  direct, indirect and doubly indirect pointers (\<open>ext2_bmap\<close>), the same with allocation
  (\<open>ext2_bmap_alloc\<close>), and the release of the blocks behind a new file size
  (\<open>ext2_truncate_blocks\<close>).  An inode is named by its handle \<open>ip\<close>.
\<close>

definition per_block :: "'d ext2 \<Rightarrow> nat" where
  "per_block s = fs_block_size s div 4"

definition ind_limit :: "'d ext2 \<Rightarrow> nat" where
  "ind_limit s = EXT2_NDIR_BLOCKS + per_block s"

definition dind_limit :: "'d ext2 \<Rightarrow> nat" where
  "dind_limit s = u32 (EXT2_NDIR_BLOCKS + per_block s + u32 (per_block s * per_block s))"

definition blocks_delta :: "'d ext2 \<Rightarrow> nat" where
  "blocks_delta s = u32 (push_bit (s_log_block_size (es s)) 2)"

section \<open>Translation\<close>

definition ext2_bmap :: "'d driver \<Rightarrow> 'd ext2 \<Rightarrow> nat \<Rightarrow> nat \<Rightarrow> nat" where
  "ext2_bmap D s ip lb =
     (let ei = v_ei (vin s ip)
      in if lb < EXT2_NDIR_BLOCKS then i_block ei lb
         else if lb < ind_limit s then
           if i_block ei EXT2_IND_BLOCK = 0 then 0
           else case ext2_read_block D s (i_block ei EXT2_IND_BLOCK) of
                  None \<Rightarrow> NEG1
                | Some ind_buf \<Rightarrow> get32 ind_buf (4 * (lb - EXT2_NDIR_BLOCKS))
         else if lb < dind_limit s then
           let off = lb - ind_limit s
           in if i_block ei EXT2_DIND_BLOCK = 0 then 0
              else case ext2_read_block D s (i_block ei EXT2_DIND_BLOCK) of
                     None \<Rightarrow> NEG1
                   | Some dind_buf \<Rightarrow>
                       let ind_block = get32 dind_buf (4 * (off div per_block s))
                       in if ind_block = 0 then 0
                          else case ext2_read_block D s ind_block of
                                 None \<Rightarrow> NEG1
                               | Some ind_buf \<Rightarrow> get32 ind_buf (4 * (off mod per_block s))
         else NEG1)"

section \<open>Translation with allocation\<close>

definition ext2_set_block_all_zero :: "'d driver \<Rightarrow> nat \<Rightarrow> 'd ext2 \<Rightarrow> 'd ext2" where
  "ext2_set_block_all_zero D b s = snd (ext2_write_block D s b (replicate (fs_block_size s) 0))"

text \<open>\<open>ext2_alloc_block\<close> followed by \<open>ei->i_blocks += delta\<close>, which is done even when no block was
  found.\<close>

definition charge_block :: "'d driver \<Rightarrow> nat \<Rightarrow> 'd ext2 \<Rightarrow> nat \<times> 'd ext2" where
  "charge_block D ip s =
     (let (nb, s) = ext2_alloc_block D s
      in (nb, upd_ei ip (\<lambda>ei. set_i_blocks (u32 (i_blocks ei + blocks_delta s)) ei) s))"

text \<open>A pointer slot of the inode that must have an (emptied) block of pointers: the result says whether
  it has, and whether the inode is dirty.\<close>

definition ensure_root :: "'d driver \<Rightarrow> nat \<Rightarrow> nat \<Rightarrow> 'd ext2 \<Rightarrow> bool \<times> bool \<times> 'd ext2" where
  "ensure_root D ip k s =
     (if i_block (v_ei (vin s ip)) k = 0
      then let (nb, s) = charge_block D ip s
           in if nb = NEG1 then (False, True, s)
              else (True, True, ext2_set_block_all_zero D nb (upd_ei ip (set_i_block k nb) s))
      else (True, False, s))"

text \<open>An entry of a pointer block that must have a block: \<open>None\<close> is the error return.  A new block of
  pointers is emptied first.\<close>

definition ensure_entry ::
  "'d driver \<Rightarrow> nat \<Rightarrow> nat \<Rightarrow> nat \<Rightarrow> bool \<Rightarrow> 'd ext2 \<Rightarrow> nat option \<times> bool \<times> 'd ext2" where
  "ensure_entry D ip blk idx pointers s =
     (case ext2_read_block D s blk of
        None \<Rightarrow> (None, False, s)
      | Some buf \<Rightarrow>
          if get32 buf (4 * idx) = 0
          then let (nb, s) = charge_block D ip s
               in if nb = NEG1 then (None, True, s)
                  else let s = (if pointers then ext2_set_block_all_zero D nb s else s)
                       in (Some nb, True, snd (ext2_write_block D s blk (put32 buf (4 * idx) nb)))
          else (Some (get32 buf (4 * idx)), False, s))"

text \<open>The result is the block number (\<open>NEG1\<close> on error), whether \<open>*dirty\<close> was set, and the state.\<close>

definition ext2_bmap_alloc :: "'d driver \<Rightarrow> nat \<Rightarrow> nat \<Rightarrow> 'd ext2 \<Rightarrow> nat \<times> bool \<times> 'd ext2" where
  "ext2_bmap_alloc D ip lb s =
     (if lb < EXT2_NDIR_BLOCKS then
        if i_block (v_ei (vin s ip)) lb = 0
        then let (nb, s) = charge_block D ip s
             in if nb = NEG1 then (NEG1, True, s) else (nb, True, upd_ei ip (set_i_block lb nb) s)
        else (i_block (v_ei (vin s ip)) lb, False, s)
      else if lb < ind_limit s then
        let index = lb - EXT2_NDIR_BLOCKS;
            (ok, d1, s) = ensure_root D ip EXT2_IND_BLOCK s
        in if \<not> ok then (NEG1, d1, s)
           else let (r, d2, s) = ensure_entry D ip (i_block (v_ei (vin s ip)) EXT2_IND_BLOCK) index False s
                in (case r of None \<Rightarrow> NEG1 | Some b \<Rightarrow> b, d1 \<or> d2, s)
      else if lb < dind_limit s then
        let off = lb - ind_limit s;
            (ok, d1, s) = ensure_root D ip EXT2_DIND_BLOCK s
        in if \<not> ok then (NEG1, d1, s)
           else let (r, d2, s) = ensure_entry D ip (i_block (v_ei (vin s ip)) EXT2_DIND_BLOCK)
                                   (off div per_block s) True s
                in case r of
                     None \<Rightarrow> (NEG1, d1 \<or> d2, s)
                   | Some ind_block \<Rightarrow>
                       let (r, d3, s) = ensure_entry D ip ind_block (off mod per_block s) False s
                       in (case r of None \<Rightarrow> NEG1 | Some b \<Rightarrow> b, d1 \<or> d2 \<or> d3, s)
      else (NEG1, False, s))"

section \<open>Truncation\<close>

definition uncharge_block :: "nat \<Rightarrow> 'd ext2 \<Rightarrow> 'd ext2" where
  "uncharge_block ip s = upd_ei ip (\<lambda>ei. set_i_blocks (sub32 (i_blocks ei) (blocks_delta s)) ei) s"

fun ext2_free_ind_blocks :: "'d driver \<Rightarrow> nat \<Rightarrow> nat \<Rightarrow> nat \<Rightarrow> 'd ext2 \<Rightarrow> 'd ext2" where
  "ext2_free_ind_blocks D ip 0 block s =
     (if block = 0 then s else uncharge_block ip (ext2_free_block D block s))"
| "ext2_free_ind_blocks D ip (Suc level) block s =
     (if block = 0 then s
      else case ext2_read_block D s block of
             None \<Rightarrow> s
           | Some buf \<Rightarrow>
               uncharge_block ip (ext2_free_block D block
                 (fold (\<lambda>i s. if get32 buf (4 * i) \<noteq> 0
                              then ext2_free_ind_blocks D ip level (get32 buf (4 * i)) s else s)
                    [0..<per_block s] s)))"

text \<open>The loops that free the entries from \<open>lo\<close> on of a buffered pointer block.\<close>

definition free_entries :: "'d driver \<Rightarrow> nat \<Rightarrow> nat \<Rightarrow> byte list \<Rightarrow> 'd ext2 \<Rightarrow> byte list \<times> 'd ext2" where
  "free_entries D ip lo buf s =
     fold (\<lambda>i (buf, s). if get32 buf (4 * i) \<noteq> 0
                        then (put32 buf (4 * i) 0,
                              uncharge_block ip (ext2_free_block D (get32 buf (4 * i)) s))
                        else (buf, s)) [lo..<per_block s] (buf, s)"

definition truncate_direct :: "'d driver \<Rightarrow> nat \<Rightarrow> nat \<Rightarrow> nat \<Rightarrow> 'd ext2 \<Rightarrow> 'd ext2" where
  "truncate_direct D ip new_blocks old_blocks s =
     fold (\<lambda>i s. if i_block (v_ei (vin s ip)) i \<noteq> 0
                 then upd_ei ip (set_i_block i 0)
                        (uncharge_block ip (ext2_free_block D (i_block (v_ei (vin s ip)) i) s))
                 else s) [new_blocks..<min EXT2_NDIR_BLOCKS old_blocks] s"

definition truncate_ind :: "'d driver \<Rightarrow> nat \<Rightarrow> nat \<Rightarrow> 'd ext2 \<Rightarrow> bool \<times> 'd ext2" where
  "truncate_ind D ip new_blocks s =
     (let ind_block = i_block (v_ei (vin s ip)) EXT2_IND_BLOCK
      in if ind_block = 0 then (True, s)
         else if new_blocks \<le> EXT2_NDIR_BLOCKS
         then (True, upd_ei ip (set_i_block EXT2_IND_BLOCK 0) (ext2_free_ind_blocks D ip 1 ind_block s))
         else case ext2_read_block D s ind_block of
                None \<Rightarrow> (False, s)
              | Some buf \<Rightarrow>
                  let (buf, s) = free_entries D ip (new_blocks - EXT2_NDIR_BLOCKS) buf s
                  in (True, snd (ext2_write_block D s ind_block buf)))"

text \<open>One round of the loop over the doubly indirect block; \<open>dind_start\<close> is the first logical block
  behind the new size, counted from the first doubly indirect one.\<close>

definition truncate_dind_entry ::
  "'d driver \<Rightarrow> nat \<Rightarrow> nat \<Rightarrow> nat \<Rightarrow> byte list \<Rightarrow> 'd ext2 \<Rightarrow> byte list option \<times> 'd ext2" where
  "truncate_dind_entry D ip dind_start i buf s =
     (if get32 buf (4 * i) = 0 then (Some buf, s)
      else if i = dind_start div per_block s
      then case ext2_read_block D s (get32 buf (4 * i)) of
             None \<Rightarrow> (None, s)
           | Some sub_buf \<Rightarrow>
               let (sub_buf, s) = free_entries D ip (dind_start mod per_block s) sub_buf s
               in (Some buf, snd (ext2_write_block D s (get32 buf (4 * i)) sub_buf))
      else (Some (put32 buf (4 * i) 0), ext2_free_ind_blocks D ip 1 (get32 buf (4 * i)) s))"

fun truncate_dind_from ::
  "'d driver \<Rightarrow> nat \<Rightarrow> nat \<Rightarrow> nat list \<Rightarrow> byte list \<Rightarrow> 'd ext2 \<Rightarrow> byte list option \<times> 'd ext2" where
  "truncate_dind_from D ip dind_start [] buf s = (Some buf, s)"
| "truncate_dind_from D ip dind_start (i # ks) buf s =
     (case truncate_dind_entry D ip dind_start i buf s of
        (None, s) \<Rightarrow> (None, s)
      | (Some buf, s) \<Rightarrow> truncate_dind_from D ip dind_start ks buf s)"

definition truncate_dind :: "'d driver \<Rightarrow> nat \<Rightarrow> nat \<Rightarrow> 'd ext2 \<Rightarrow> bool \<times> 'd ext2" where
  "truncate_dind D ip new_blocks s =
     (let dind_block = i_block (v_ei (vin s ip)) EXT2_DIND_BLOCK
      in if dind_block = 0 then (True, s)
         else if new_blocks \<le> ind_limit s
         then (True, upd_ei ip (set_i_block EXT2_DIND_BLOCK 0) (ext2_free_ind_blocks D ip 2 dind_block s))
         else case ext2_read_block D s dind_block of
                None \<Rightarrow> (False, s)
              | Some buf \<Rightarrow>
                  let start = new_blocks - ind_limit s
                  in case truncate_dind_from D ip start [start div per_block s..<per_block s] buf s of
                       (None, s) \<Rightarrow> (False, s)
                     | (Some buf, s) \<Rightarrow> (True, snd (ext2_write_block D s dind_block buf)))"

definition blocks_for :: "'d ext2 \<Rightarrow> nat \<Rightarrow> nat" where
  "blocks_for s n = u32 ((n + fs_block_size s - 1) div fs_block_size s)"

definition ext2_truncate_blocks :: "'d driver \<Rightarrow> nat \<Rightarrow> nat \<Rightarrow> 'd ext2 \<Rightarrow> int \<times> 'd ext2" where
  "ext2_truncate_blocks D ip new_size s =
     (let new_blocks = blocks_for s new_size;
          old_blocks = blocks_for s (v_size (vin s ip));
          s = truncate_direct D ip new_blocks old_blocks s;
          (ok, s) = truncate_ind D ip new_blocks s
      in if \<not> ok then (-1, s)
         else let (ok, s) = truncate_dind D ip new_blocks s
              in (if ok then 0 else -1, s))"

end
