(* ===== verification/Ext2Tree.thy ===== *)
theory Ext2Tree
  imports Ext2Map
begin

text \<open>
  The block map of an ext2 inode as a tree.  The nodes of the tree are the pointer blocks (\<open>Ind\<close>,
  \<open>Dind\<close>, \<open>Sub j\<close>, the \<open>j\<close>-th indirect block below the doubly indirect one) and the data blocks
  (\<open>Data lb\<close>); \<open>node s ip t\<close> is the disk block at a node, 0 where there is none.  \<open>file_inv\<close> says that
  the blocks of the tree are allocated, outside the metadata and pairwise different.  The lemmas show
  that \<open>ext2_bmap\<close> reads this tree and that \<open>ext2_bmap_alloc\<close> only adds blocks that were free before.
\<close>

section \<open>Disk inodes\<close>

lemma length_set_i [simp]:
  "length (set_i_mode v e) = length e" "length (set_i_size v e) = length e" "length (set_i_atime v e) = length e"
  "length (set_i_ctime v e) = length e" "length (set_i_mtime v e) = length e"
  "length (set_i_links_count v e) = length e" "length (set_i_blocks v e) = length e"
  "length (set_i_block k v e) = length e"
  by (simp_all add: set_i_mode_def set_i_size_def set_i_atime_def set_i_ctime_def set_i_mtime_def
      set_i_links_count_def set_i_blocks_def set_i_block_def)

lemma i_block_other [simp]:
  "i_block (set_i_mode v e) k = i_block e k" "i_block (set_i_size v e) k = i_block e k"
  "i_block (set_i_atime v e) k = i_block e k" "i_block (set_i_ctime v e) k = i_block e k"
  "i_block (set_i_mtime v e) k = i_block e k" "i_block (set_i_links_count v e) k = i_block e k"
  "i_block (set_i_blocks v e) k = i_block e k"
  by (simp_all add: i_block_def set_i_mode_def set_i_size_def set_i_atime_def set_i_ctime_def set_i_mtime_def
      set_i_links_count_def set_i_blocks_def overlay)

lemma i_block_set_i_block:
  assumes "128 \<le> length e" "k < 15" "k' < 15"
  shows "i_block (set_i_block k v e) k' = (if k' = k then u32 v else i_block e k')"
proof (cases "k' = k")
  case False
  then have "40 + 4 * k' + 4 \<le> 40 + 4 * k \<or> 40 + 4 * k + 4 \<le> 40 + 4 * k'" by linarith
  then show ?thesis using False by (simp add: i_block_def set_i_block_def get32_put32_other)
qed (use assms in \<open>simp add: i_block_def set_i_block_def overlay\<close>)

lemma get32_replicate: "4 * i + 4 \<le> n \<Longrightarrow> get32 (replicate n 0) (4 * i) = 0"
  by (simp add: get32_def)

lemma get32_put32_entry:
  assumes "4 * i + 4 \<le> length b" "4 * j + 4 \<le> length b"
  shows "get32 (put32 b (4 * i) v) (4 * j) = (if j = i then u32 v else get32 b (4 * j))"
proof (cases "j = i")
  case False
  then have "4 * j + 4 \<le> 4 * i \<or> 4 * i + 4 \<le> 4 * j" by linarith
  then show ?thesis using False by (simp add: get32_put32_other)
qed (use assms in \<open>simp add: overlay\<close>)

section \<open>Nodes\<close>

datatype tnode = Ind | Dind | Sub nat | Data nat

definition is_pointer :: "tnode \<Rightarrow> bool" where
  "is_pointer t \<longleftrightarrow> (case t of Data _ \<Rightarrow> False | _ \<Rightarrow> True)"

text \<open>The node behind pointer \<open>k\<close> of the inode.\<close>

definition root :: "nat \<Rightarrow> tnode" where
  "root k = (if k < 12 then Data k else if k = 12 then Ind else Dind)"

context ext2_volume
begin

definition pb :: nat where "pb = bs div 4"

text \<open>The node behind entry \<open>i\<close> of the pointer block at \<open>t\<close>.\<close>

definition child :: "tnode \<Rightarrow> nat \<Rightarrow> tnode" where
  "child t i = (case t of Ind \<Rightarrow> Data (12 + i) | Dind \<Rightarrow> Sub i | Sub j \<Rightarrow> Data (12 + pb + j * pb + i) | Data lb \<Rightarrow> Data lb)"

definition valid :: "tnode \<Rightarrow> bool" where
  "valid t \<longleftrightarrow> (case t of Ind \<Rightarrow> True | Dind \<Rightarrow> True | Sub j \<Rightarrow> j < pb | Data lb \<Rightarrow> lb < 12 + pb + pb * pb)"

definition ptr :: "'d ext2 \<Rightarrow> nat \<Rightarrow> nat \<Rightarrow> nat" where
  "ptr s b i = (if b = 0 then 0 else get32 (blk_at s b) (4 * i))"

definition node :: "'d ext2 \<Rightarrow> nat \<Rightarrow> tnode \<Rightarrow> nat" where
  "node s ip t =
     (let ei = v_ei (vin s ip)
      in case t of
           Ind \<Rightarrow> i_block ei 12
         | Dind \<Rightarrow> i_block ei 13
         | Sub j \<Rightarrow> ptr s (i_block ei 13) j
         | Data lb \<Rightarrow>
             if lb < 12 then i_block ei lb
             else if lb < 12 + pb then ptr s (i_block ei 12) (lb - 12)
             else ptr s (ptr s (i_block ei 13) ((lb - (12 + pb)) div pb)) ((lb - (12 + pb)) mod pb))"

lemma pb4: "4 * pb = bs"
  using bs_sectors by (auto simp: pb_def)

lemma pb_pos: "0 < pb"
  using pb4 bs_pos by linarith

lemma node_root: "k < 14 \<Longrightarrow> node s ip (root k) = i_block (v_ei (vin s ip)) k"
proof -
  assume "k < 14"
  then consider "k < 12" | "k = 12" | "k = 13" by linarith
  then show ?thesis by cases (simp_all add: node_def root_def)
qed

lemma node_child: "is_pointer t \<Longrightarrow> i < pb \<Longrightarrow> node s ip (child t i) = ptr s (node s ip t) i"
  by (cases t) (auto simp: node_def child_def is_pointer_def Let_def)

lemma child_Dind: "child Dind i = Sub i" by (simp add: child_def)

lemma valid_cases:
  assumes "valid t"
  obtains (Root) k where "k < 14" "t = root k"
  | (Child) P i where "is_pointer P" "valid P" "i < pb" "t = child P i" "P = Ind \<or> P = Dind \<or> (\<exists>j<pb. P = Sub j)"
proof (cases t)
  case Ind
  then show ?thesis using Root [of 12] by (simp add: root_def)
next
  case Dind
  then show ?thesis using Root [of 13] by (simp add: root_def)
next
  case (Sub j)
  then show ?thesis using assms Child [of Dind j] by (simp add: child_def valid_def is_pointer_def)
next
  case (Data lb)
  consider "lb < 12" | "12 \<le> lb" "lb < 12 + pb" | "12 + pb \<le> lb" by linarith
  then show ?thesis
  proof cases
    case 1
    then show ?thesis using Root [of lb] Data by (simp add: root_def)
  next
    case 2
    then show ?thesis using Child [of Ind "lb - 12"] Data by (simp add: child_def valid_def is_pointer_def)
  next
    case 3
    let ?o = "lb - (12 + pb)"
    have "?o < pb * pb" using assms Data 3 by (simp add: valid_def)
    then have "?o div pb < pb" by (simp add: less_mult_imp_div_less)
    moreover have "12 + pb + ?o div pb * pb + ?o mod pb = lb" using 3 by simp
    ultimately show ?thesis using Child [of "Sub (?o div pb)" "?o mod pb"] Data pb_pos
      by (simp add: child_def valid_def is_pointer_def)
  qed
qed

lemma child_inj:
  assumes "is_pointer P" "is_pointer Q" "i < pb" "j < pb" "child P i = child Q j"
  shows "P = Q" "i = j"
proof -
  have "a = b \<and> i = j" if "a * pb + i = b * pb + j" for a b
  proof -
    have "(a * pb + i) div pb = (b * pb + j) div pb" using that by simp
    then have "a = b" using assms(3,4) by simp
    with that show ?thesis by simp
  qed
  with assms show "P = Q" "i = j"
    by (auto simp: child_def is_pointer_def split: tnode.splits)
qed

lemma child_not_root: "is_pointer P \<Longrightarrow> i < pb \<Longrightarrow> k < 14 \<Longrightarrow> child P i \<noteq> root k"
  by (auto simp: child_def is_pointer_def root_def split: tnode.splits)

lemma valid_child: "is_pointer P \<Longrightarrow> valid P \<Longrightarrow> i < pb \<Longrightarrow> valid (child P i)"
proof (cases P)
  case (Sub j)
  assume "valid P" "i < pb"
  then have "(j + 1) * pb \<le> pb * pb" using Sub by (intro mult_right_mono) (auto simp: valid_def)
  then show ?thesis using Sub \<open>i < pb\<close> by (simp add: child_def valid_def)
qed (auto simp: child_def valid_def is_pointer_def)

lemma root_inj: "k < 14 \<Longrightarrow> l < 14 \<Longrightarrow> root k = root l \<longleftrightarrow> k = l"
  by (auto simp: root_def split: if_splits)

section \<open>The invariant of a file\<close>

definition file_inv :: "nat set \<Rightarrow> 'd ext2 \<Rightarrow> nat \<Rightarrow> bool" where
  "file_inv meta s ip \<longleftrightarrow>
     alloc_inv meta s \<and> 128 \<le> length (v_ei (vin s ip)) \<and>
     (\<forall>t. valid t \<and> node s ip t \<noteq> 0 \<longrightarrow> node s ip t < nblk \<and> node s ip t \<notin> meta \<and> \<not> is_free s (node s ip t)) \<and>
     (\<forall>t u. valid t \<and> valid u \<and> node s ip t \<noteq> 0 \<and> node s ip t = node s ip u \<longrightarrow> t = u)"

lemma file_inv_node:
  assumes "file_inv meta s ip" "valid t" "node s ip t \<noteq> 0"
  shows "node s ip t < nblk" "node s ip t \<notin> meta" "\<not> is_free s (node s ip t)"
  using assms by (auto simp: file_inv_def)

lemma file_inv_vol: "file_inv meta s ip \<Longrightarrow> on_vol s"
  by (simp add: file_inv_def alloc_inv_def)

lemma per_block_pb: "on_vol s \<Longrightarrow> per_block s = pb"
  by (simp add: per_block_def pb_def on_vol_def)

lemma dind_limit_le: "on_vol s \<Longrightarrow> dind_limit s \<le> 12 + pb + pb * pb"
  unfolding dind_limit_def u32_def EXT2_NDIR_BLOCKS_def per_block_pb
  by (intro order.trans [OF mod_less_eq_dividend] add_left_mono mod_less_eq_dividend) (simp add: per_block_pb)

lemma valid_data: "on_vol s \<Longrightarrow> lb < dind_limit s \<Longrightarrow> valid (Data lb)"
  using dind_limit_le [of s] by (simp add: valid_def)

text \<open>\<open>ext2_bmap\<close> reads the tree.\<close>

lemma bmap_node:
  assumes inv: "file_inv meta s ip" and lb: "lb < dind_limit s"
  shows "ext2_bmap D s ip lb = node s ip (Data lb)"
proof -
  have vol: "on_vol s" by (rule file_inv_vol [OF inv])
  note rd = read_block [OF vol]
  have nd: "node s ip t < nblk" if "valid t" "node s ip t \<noteq> 0" for t using file_inv_node [OF inv that] by simp
  have ind: "i_block (v_ei (vin s ip)) 12 = node s ip Ind" and dind: "i_block (v_ei (vin s ip)) 13 = node s ip Dind"
    by (simp_all add: node_def)
  have il: "ind_limit s = 12 + pb" using vol by (simp add: ind_limit_def EXT2_NDIR_BLOCKS_def per_block_pb)
  let ?o = "lb - (12 + pb)"
  have sub: "node s ip (Sub (?o div pb)) = ptr s (node s ip Dind) (?o div pb)" by (simp add: node_def)
  have "?o div pb < pb" if "12 + pb \<le> lb"
    using that valid_data [OF vol lb] by (intro less_mult_imp_div_less) (simp add: valid_def)
  then have v: "valid (Sub (?o div pb))" if "12 + pb \<le> lb" using that by (simp add: valid_def)
  have vi: "valid Ind" "valid Dind" by (simp_all add: valid_def)
  consider "lb < 12" | "12 \<le> lb" "lb < 12 + pb" | "12 + pb \<le> lb" by linarith
  then show ?thesis
  proof cases
    case 1
    then show ?thesis by (simp add: ext2_bmap_def node_def EXT2_NDIR_BLOCKS_def)
  next
    case 2
    then show ?thesis using nd [OF vi(1)] rd [of "node s ip Ind"]
      by (auto simp: ext2_bmap_def il EXT2_NDIR_BLOCKS_def EXT2_IND_BLOCK_def ind)
        (auto simp: node_def ptr_def)
  next
    case 3
    have "node s ip (Data lb) = ptr s (node s ip (Sub (?o div pb))) (?o mod pb)"
      using 3 by (simp add: node_def)
    then show ?thesis using 3 lb nd [OF vi(2)] nd [OF v [OF 3]] rd [of "node s ip Dind"] rd [of "node s ip (Sub (?o div pb))"]
      by (auto simp: ext2_bmap_def il EXT2_NDIR_BLOCKS_def EXT2_DIND_BLOCK_def dind per_block_pb [OF vol] Let_def
          sub ptr_def)
  qed
qed

section \<open>Adding a block to the tree\<close>

text \<open>\<open>others_same s s' X\<close>: outside \<open>X\<close>, the disk is the same.\<close>

lemma ptr_same: "b = 0 \<or> blk_at s' b = blk_at s b \<Longrightarrow> ptr s' b i = ptr s b i"
  by (auto simp: ptr_def)

lemma ptr_zero: "blk_at s b = replicate bs 0 \<Longrightarrow> i < pb \<Longrightarrow> ptr s b i = 0"
  using pb4 get32_replicate [of i bs] by (simp add: ptr_def)

text \<open>A new block at pointer \<open>k0\<close> of the inode, emptied if it is a block of pointers.\<close>

lemma node_attach_root:
  assumes inv: "file_inv meta s ip" and k0: "k0 < 14" "node s ip (root k0) = 0"
    and nb: "\<And>t. valid t \<Longrightarrow> node s ip t \<noteq> nb"
    and ei: "\<And>k. k < 14 \<Longrightarrow> i_block (v_ei (vin s' ip)) k = (if k = k0 then nb else i_block (v_ei (vin s ip)) k)"
    and blk: "\<And>b. b \<notin> meta \<Longrightarrow> b \<noteq> nb \<Longrightarrow> blk_at s' b = blk_at s b"
    and zero: "12 \<le> k0 \<Longrightarrow> blk_at s' nb = replicate bs 0"
    and t: "valid t"
  shows "node s' ip t = (if t = root k0 then nb else node s ip t)"
proof -
  have root': "node s' ip (root k) = (if root k = root k0 then nb else node s ip (root k))" if "k < 14" for k
    using that k0 by (simp add: node_root ei root_inj)
  have step: "node s' ip (child P i) = node s ip (child P i)"
    if P: "is_pointer P" "valid P" "i < pb" and IH: "node s' ip P = (if P = root k0 then nb else node s ip P)" for P i
  proof (cases "P = root k0")
    case True
    then have "12 \<le> k0" using P(1) by (auto simp: is_pointer_def root_def split: if_splits)
    then have "ptr s' nb i = 0" using ptr_zero [OF zero P(3)] by simp
    then show ?thesis using True IH k0(2) P by (simp add: node_child ptr_def)
  next
    case False
    then have "node s ip P = 0 \<or> blk_at s' (node s ip P) = blk_at s (node s ip P)"
      using file_inv_node(2) [OF inv P(2)] nb [OF P(2)] blk by auto
    then show ?thesis using False IH P ptr_same by (simp add: node_child)
  qed
  have roots: "Ind = root 12" "Dind = root 13" by (simp_all add: root_def)
  from t show ?thesis
  proof (cases rule: valid_cases)
    case (Root k)
    then show ?thesis using root' by simp
  next
    case (Child P i)
    have "node s' ip P = (if P = root k0 then nb else node s ip P)"
    proof (cases "\<exists>j<pb. P = Sub j")
      case True
      then obtain j where j: "j < pb" "P = child Dind j" by (auto simp: child_def)
      have "node s' ip (child Dind j) = node s ip (child Dind j)"
        using step [of Dind j] root' [of 13] roots j(1) by (simp add: is_pointer_def valid_def)
      moreover have "P \<noteq> root k0" using j child_not_root [of Dind j k0] k0 by (simp add: is_pointer_def)
      ultimately show ?thesis using j by simp
    next
      case False
      then show ?thesis using Child(5) root' [of 12] root' [of 13] roots by auto
    qed
    from step [OF Child(1-3) this] show ?thesis using Child child_not_root [OF Child(1,3) k0(1)] by simp
  qed
qed

text \<open>A new block at entry \<open>i0\<close> of the pointer block at \<open>P0\<close>.\<close>

lemma node_attach_entry:
  assumes inv: "file_inv meta s ip" and P0: "is_pointer P0" "valid P0" "i0 < pb" "node s ip P0 \<noteq> 0"
    and none: "node s ip (child P0 i0) = 0" and small: "nb < 4294967296"
    and nb: "\<And>t. valid t \<Longrightarrow> node s ip t \<noteq> nb"
    and ei: "\<And>k. k < 14 \<Longrightarrow> i_block (v_ei (vin s' ip)) k = i_block (v_ei (vin s ip)) k"
    and put: "blk_at s' (node s ip P0) = put32 (blk_at s (node s ip P0)) (4 * i0) nb"
    and blk: "\<And>b. b \<notin> meta \<Longrightarrow> b \<noteq> nb \<Longrightarrow> b \<noteq> node s ip P0 \<Longrightarrow> blk_at s' b = blk_at s b"
    and zero: "P0 = Dind \<Longrightarrow> blk_at s' nb = replicate bs 0"
    and t: "valid t"
  shows "node s' ip t = (if t = child P0 i0 then nb else node s ip t)"
proof -
  have vol: "on_vol s" by (rule file_inv_vol [OF inv])
  have len: "length (blk_at s (node s ip P0)) = bs"
    using length_blk [OF vol] file_inv_node(1) [OF inv P0(2,4)] by simp
  have root': "node s' ip (root k) = node s ip (root k)" if "k < 14" for k
    using that by (simp add: node_root ei)
  have step: "node s' ip (child P i) = (if child P i = child P0 i0 then nb else node s ip (child P i))"
    if P: "is_pointer P" "valid P" "i < pb" and same: "node s' ip P = node s ip P" for P i
  proof (cases "P = P0")
    case True
    have "ptr s' (node s ip P0) i = (if i = i0 then nb else ptr s (node s ip P0) i)"
      using put len P(3) P0(3,4) pb4 small by (simp add: ptr_def get32_put32_entry width)
    then show ?thesis using True same P P0 child_inj [of P P0 i i0] by (auto simp: node_child)
  next
    case False
    then have "child P i \<noteq> child P0 i0" using child_inj [of P P0 i i0] P P0 by auto
    moreover have "node s ip P = 0 \<or> blk_at s' (node s ip P) = blk_at s (node s ip P)"
    proof (cases "node s ip P = 0")
      case nz: False
      have "node s ip P \<noteq> node s ip P0" using inv nz False P(2) P0(2) by (auto simp: file_inv_def)
      then show ?thesis using nz file_inv_node(2) [OF inv P(2)] nb [OF P(2)] blk by auto
    qed simp
    ultimately show ?thesis using same P ptr_same by (simp add: node_child)
  qed
  have roots: "Ind = root 12" "Dind = root 13" by (simp_all add: root_def)
  from t show ?thesis
  proof (cases rule: valid_cases)
    case (Root k)
    then show ?thesis using root' child_not_root [OF P0(1,3)] by (metis (full_types))
  next
    case (Child P i)
    show ?thesis
    proof (cases "\<exists>j<pb. P = Sub j")
      case True
      then obtain j where j: "j < pb" "P = child Dind j" by (auto simp: child_def)
      have sub: "node s' ip P = (if P = child P0 i0 then nb else node s ip P)"
        using step [of Dind j] root' [of 13] roots j by (simp add: is_pointer_def valid_def)
      show ?thesis
      proof (cases "P = child P0 i0")
        case True
        then have "child Dind j = child P0 i0" using j(2) by simp
        then have eq: "Dind = P0" "j = i0"
          using child_inj [of Dind P0 j i0] j(1) P0(1,3) by (simp_all add: is_pointer_def)
        then have "node s' ip (child P i) = 0"
          using sub True Child ptr_zero [OF zero] by (simp add: node_child)
        moreover have "node s ip (child P i) = 0" using True none Child by (simp add: node_child ptr_def)
        moreover have "child P i \<noteq> child P0 i0"
          using child_inj [of P P0 i i0] Child P0 eq True j by (auto simp: child_def)
        ultimately show ?thesis using Child by simp
      next
        case False
        then show ?thesis using step [OF Child(1-3)] sub Child by simp
      qed
    next
      case False
      then have "node s' ip P = node s ip P" using Child(5) root' [of 12] root' [of 13] roots by auto
      from step [OF Child(1-3) this] show ?thesis using Child by simp
    qed
  qed
qed

section \<open>Writes outside the metadata\<close>

lemma mem_frame [simp]:
  "alloc_inv meta (s\<lparr>vin := v, ticks := t\<rparr>) = alloc_inv meta s" "is_free (s\<lparr>vin := v, ticks := t\<rparr>) = is_free s"
  "blk_at (s\<lparr>vin := v, ticks := t\<rparr>) = blk_at s" "geometry (s\<lparr>vin := v, ticks := t\<rparr>) = geometry s"
  "on_vol (s\<lparr>vin := v, ticks := t\<rparr>) = on_vol s"
proof -
  let ?t = "s\<lparr>vin := v, ticks := t\<rparr>"
  have f: "bits ?t = bits s" "bmblk ?t = bmblk s" "blkno ?t = blkno s"
    by (simp_all add: bits_def bmblk_def blkno_def fun_eq_iff)
  show vol: "on_vol ?t = on_vol s" by (simp add: on_vol_def es_block_size_def)
  show blk: "blk_at ?t = blk_at s" by (simp add: blk_at_def fun_eq_iff)
  have fa: "free_at ?t = free_at s" by (simp add: free_at_def f fun_eq_iff)
  show "is_free ?t = is_free s" by (simp add: is_free_def fa f fun_eq_iff)
  show "alloc_inv meta ?t = alloc_inv meta s" by (simp add: alloc_inv_def group_inv_def f fa vol blk)
  show "geometry ?t = geometry s" by (simp add: geometry_def)
qed

lemma upd_ei_frame [simp]:
  "alloc_inv meta (upd_ei ip f s) = alloc_inv meta s" "is_free (upd_ei ip f s) = is_free s"
  "blk_at (upd_ei ip f s) = blk_at s" "geometry (upd_ei ip f s) = geometry s" "on_vol (upd_ei ip f s) = on_vol s"
proof -
  have "upd_ei ip f s = s\<lparr>vin := (vin s)(ip := (vin s ip)\<lparr>v_ei := f (v_ei (vin s ip))\<rparr>), ticks := ticks s\<rparr>"
    by (simp add: upd_ei_def)
  then show "alloc_inv meta (upd_ei ip f s) = alloc_inv meta s" "is_free (upd_ei ip f s) = is_free s"
    "blk_at (upd_ei ip f s) = blk_at s" "geometry (upd_ei ip f s) = geometry s" "on_vol (upd_ei ip f s) = on_vol s"
    by (simp_all only: mem_frame)
qed

lemma write_other:
  assumes inv: "alloc_inv meta s" and b: "b < nblk" "\<And>g. g < group_count s \<Longrightarrow> bmblk s g \<noteq> b" and len: "length buf = bs"
  obtains s' where "ext2_write_block D s b buf = (True, s')" "alloc_inv meta s'" "geometry s' = geometry s"
    "is_free s' = is_free s" "same_mem s s'" "es s' = es s" "\<And>x. blk_at s' x = (if x = b then buf else blk_at s x)"
proof -
  have vol: "on_vol s" using inv by (simp add: alloc_inv_def)
  obtain h where h: "ext2_write_block D s b buf = (True, s\<lparr>dev := h\<rparr>)" "on_vol (s\<lparr>dev := h\<rparr>)"
    "\<And>b'. blk_at (s\<lparr>dev := h\<rparr>) b' = (if b' = b then buf else blk_at s b')"
    using write_block [OF vol b(1) len] by blast
  let ?t = "s\<lparr>dev := h\<rparr>"
  have f: "bits ?t = bits s" "bmblk ?t = bmblk s" "blkno ?t = blkno s" by (simp_all add: bits_def bmblk_def blkno_def fun_eq_iff)
  have fa: "free_at ?t = free_at s" by (simp add: free_at_def f fun_eq_iff)
  have fr: "is_free ?t = is_free s" by (simp add: is_free_def fa f fun_eq_iff)
  have "group_inv meta ?t g = group_inv meta s g" if "g < group_count s" for g
    using b(2) [OF that] by (auto simp: group_inv_def f h(3))
  then have "alloc_inv meta ?t" using inv h(2) by (auto simp: alloc_inv_def fa f)
  from that [OF h(1) this _ fr _ _ h(3)] show ?thesis by (simp add: geometry_def same_mem_def)
qed

lemma write_data:
  assumes inv: "alloc_inv meta s" and b: "b < nblk" "b \<notin> meta" and len: "length buf = bs"
  obtains s' where "ext2_write_block D s b buf = (True, s')" "alloc_inv meta s'" "geometry s' = geometry s"
    "is_free s' = is_free s" "same_mem s s'" "es s' = es s" "\<And>x. blk_at s' x = (if x = b then buf else blk_at s x)"
proof -
  have "bmblk s g \<noteq> b" if "g < group_count s" for g using inv b(2) that by (auto simp: alloc_inv_def group_inv_def)
  from write_other [OF inv b(1) this len] that show ?thesis by metis
qed

section \<open>Growth of a file\<close>

definition ptrs :: "'d ext2 \<Rightarrow> nat \<Rightarrow> nat set" where
  "ptrs s ip = {b. b \<noteq> 0 \<and> (\<exists>t. valid t \<and> is_pointer t \<and> node s ip t = b)}"

text \<open>Only the disk inode of \<open>ip\<close> differs.\<close>

definition vframe :: "nat \<Rightarrow> 'd ext2 \<Rightarrow> 'd ext2 \<Rightarrow> bool" where
  "vframe ip s s' \<longleftrightarrow>
     (\<forall>q. q \<noteq> ip \<longrightarrow> vin s' q = vin s q) \<and> (\<forall>e. (vin s' ip)\<lparr>v_ei := e\<rparr> = (vin s ip)\<lparr>v_ei := e\<rparr>) \<and>
     length (v_ei (vin s' ip)) = length (v_ei (vin s ip)) \<and> nvin s' = nvin s \<and> clk s' = clk s \<and> ticks s' = ticks s"

text \<open>From \<open>s\<close> to \<open>s'\<close> the file has got new blocks at nodes of \<open>T\<close>, all of them free before;
  every block that is not free any more is at such a node, and blocks that are neither metadata nor pointer blocks of
  the file keep their content, the new data blocks included: they are not emptied.\<close>

definition grows :: "nat set \<Rightarrow> nat \<Rightarrow> tnode set \<Rightarrow> 'd ext2 \<Rightarrow> 'd ext2 \<Rightarrow> bool" where
  "grows meta ip T s s' \<longleftrightarrow>
     file_inv meta s' ip \<and> geometry s' = geometry s \<and> vframe ip s s' \<and> (\<forall>x. is_free s' x \<longrightarrow> is_free s x) \<and>
     (\<forall>t. valid t \<longrightarrow> node s' ip t = node s ip t \<or> t \<in> T \<and> node s ip t = 0 \<and> is_free s (node s' ip t)) \<and>
     (\<forall>x. is_free s x \<and> \<not> is_free s' x \<longrightarrow> (\<exists>t\<in>T. valid t \<and> node s' ip t = x)) \<and>
     (\<forall>x. x \<notin> meta \<and> x \<notin> ptrs s' ip \<longrightarrow> blk_at s' x = blk_at s x)"

lemma growsI:
  assumes "file_inv meta s' ip" "geometry s' = geometry s" "vframe ip s s'" "\<And>x. is_free s' x \<Longrightarrow> is_free s x"
    "\<And>t. valid t \<Longrightarrow> node s' ip t = node s ip t \<or> t \<in> T \<and> node s ip t = 0 \<and> is_free s (node s' ip t)"
    "\<And>x. is_free s x \<Longrightarrow> \<not> is_free s' x \<Longrightarrow> \<exists>t\<in>T. valid t \<and> node s' ip t = x"
    "\<And>x. x \<notin> meta \<Longrightarrow> x \<notin> ptrs s' ip \<Longrightarrow> blk_at s' x = blk_at s x"
  shows "grows meta ip T s s'"
  unfolding grows_def using assms by simp

lemma growsD:
  assumes "grows meta ip T s s'"
  shows "file_inv meta s' ip" "geometry s' = geometry s" "vframe ip s s'" "is_free s' x \<Longrightarrow> is_free s x"
    "valid t \<Longrightarrow> node s' ip t = node s ip t \<or> t \<in> T \<and> node s ip t = 0 \<and> is_free s (node s' ip t)"
    "is_free s x \<Longrightarrow> \<not> is_free s' x \<Longrightarrow> \<exists>t\<in>T. valid t \<and> node s' ip t = x"
    "x \<notin> meta \<Longrightarrow> \<not> is_free s x \<Longrightarrow> x \<notin> ptrs s ip \<Longrightarrow> blk_at s' x = blk_at s x"
    "x \<notin> meta \<Longrightarrow> x \<notin> ptrs s' ip \<Longrightarrow> blk_at s' x = blk_at s x"
proof -
  note g = assms [unfolded grows_def]
  show "file_inv meta s' ip" "geometry s' = geometry s" "vframe ip s s'" "is_free s' x \<Longrightarrow> is_free s x"
    "is_free s x \<Longrightarrow> \<not> is_free s' x \<Longrightarrow> \<exists>t\<in>T. valid t \<and> node s' ip t = x" using g by simp_all
  show n: "node s' ip t = node s ip t \<or> t \<in> T \<and> node s ip t = 0 \<and> is_free s (node s' ip t)" if "valid t" for t
    using g that by simp
  show k: "x \<notin> meta \<Longrightarrow> x \<notin> ptrs s' ip \<Longrightarrow> blk_at s' x = blk_at s x" using g by simp
  show "x \<notin> meta \<Longrightarrow> \<not> is_free s x \<Longrightarrow> x \<notin> ptrs s ip \<Longrightarrow> blk_at s' x = blk_at s x"
    using k n unfolding ptrs_def mem_Collect_eq by metis
qed

lemma vframe_refl [simp]: "vframe ip s s" by (simp add: vframe_def)

lemma vframe_trans: "vframe ip a b \<Longrightarrow> vframe ip b c \<Longrightarrow> vframe ip a c"
  by (auto simp: vframe_def)

lemma vframe_mem: "same_mem s s' \<Longrightarrow> vframe ip s s'"
  by (simp add: same_mem_def vframe_def)

lemma vframe_upd_ei: "length (f (v_ei (vin s ip))) = length (v_ei (vin s ip)) \<Longrightarrow> vframe ip s (upd_ei ip f s)"
  by (simp add: vframe_def upd_ei_def)

lemma grows_refl: "file_inv meta s ip \<Longrightarrow> grows meta ip T s s"
  by (simp add: grows_def)

lemma zero_not_free: "alloc_inv meta s \<Longrightarrow> \<not> is_free s 0"
  by (fastforce simp: alloc_inv_def is_free_def)

lemma ptrs_grow: "grows meta ip T a b \<Longrightarrow> x \<in> ptrs b ip \<Longrightarrow> x \<in> ptrs a ip \<or> is_free a x"
  unfolding ptrs_def mem_Collect_eq by (metis growsD(5))

lemma ptrs_mono: "grows meta ip T a b \<Longrightarrow> ptrs a ip \<subseteq> ptrs b ip"
  unfolding ptrs_def using growsD(5) by (smt (verit) mem_Collect_eq subsetI)

lemma grows_trans:
  assumes inv: "file_inv meta a ip" and ab: "grows meta ip T a b" and bc: "grows meta ip T b c"
  shows "grows meta ip T a c"
proof (rule growsI)
  have nf: "\<not> is_free a 0" using inv zero_not_free unfolding file_inv_def by blast
  show "file_inv meta c ip" "geometry c = geometry a" using growsD(1,2) [OF bc] growsD(2) [OF ab] by simp_all
  show "vframe ip a c" by (rule vframe_trans [OF growsD(3) [OF ab] growsD(3) [OF bc]])
  show "is_free a x" if "is_free c x" for x by (rule growsD(4) [OF ab growsD(4) [OF bc that]])
  show "node c ip t = node a ip t \<or> t \<in> T \<and> node a ip t = 0 \<and> is_free a (node c ip t)" if "valid t" for t
    using growsD(5) [OF ab that] growsD(5) [OF bc that] growsD(4) [OF ab, of "node c ip t"] nf by auto
  show "\<exists>t\<in>T. valid t \<and> node c ip t = x" if x: "is_free a x" "\<not> is_free c x" for x
  proof (cases "is_free b x")
    case True
    then show ?thesis by (rule growsD(6) [OF bc _ x(2)])
  next
    case False
    then obtain t where t: "t \<in> T" "valid t" "node b ip t = x" using growsD(6) [OF ab x(1)] by blast
    then have "node c ip t = x" using growsD(5) [OF bc t(2)] nf x(1) by auto
    then show ?thesis using t by blast
  qed
  show "blk_at c x = blk_at a x" if x: "x \<notin> meta" "x \<notin> ptrs c ip" for x
    using growsD(8) [OF bc x] growsD(8) [OF ab x(1)] ptrs_mono [OF bc] x(2) by auto
qed

lemma grows_mono:
  assumes "grows meta ip T s s'" "T \<subseteq> T'"
  shows "grows meta ip T' s s'"
proof (rule growsI [OF growsD(1-3) [OF assms(1)]])
  show "node s' ip t = node s ip t \<or> t \<in> T' \<and> node s ip t = 0 \<and> is_free s (node s' ip t)" if "valid t" for t
    using growsD(5) [OF assms(1) that] assms(2) by blast
  show "\<exists>t\<in>T'. valid t \<and> node s' ip t = x" if "is_free s x" "\<not> is_free s' x" for x
    using growsD(6) [OF assms(1) that] assms(2) by blast
qed (use growsD(4,8) [OF assms(1)] in auto)

lemma node_same:
  assumes ei: "\<And>k. k < 14 \<Longrightarrow> i_block (v_ei (vin s' ip)) k = i_block (v_ei (vin s ip)) k"
    and blk: "\<And>b. b \<in> ptrs s ip \<Longrightarrow> blk_at s' b = blk_at s b" and t: "valid t"
  shows "node s' ip t = node s ip t"
proof -
  have root': "node s' ip (root k) = node s ip (root k)" if "k < 14" for k using that by (simp add: node_root ei)
  have step: "node s' ip (child P i) = node s ip (child P i)"
    if "is_pointer P" "valid P" "i < pb" "node s' ip P = node s ip P" for P i
  proof -
    have "node s ip P = 0 \<or> node s ip P \<in> ptrs s ip" using that by (auto simp: ptrs_def)
    then have "node s ip P = 0 \<or> blk_at s' (node s ip P) = blk_at s (node s ip P)" using blk by blast
    from ptr_same [OF this] that show ?thesis by (simp add: node_child)
  qed
  have roots: "node s' ip Ind = node s ip Ind" "node s' ip Dind = node s ip Dind"
    using root' [of 12] root' [of 13] by (simp_all add: root_def)
  from t show ?thesis
  proof (cases rule: valid_cases)
    case (Child P i)
    have "node s' ip (Sub j) = node s ip (Sub j)" if "j < pb" for j
      using step [of Dind j] roots that by (simp add: child_def is_pointer_def valid_def)
    then have "node s' ip P = node s ip P" using Child(5) roots by blast
    from step [OF Child(1-3) this] show ?thesis using Child(4) by simp
  qed (use root' in simp)
qed

text \<open>Closing the argument for one new block.\<close>

lemma grows_attach:
  assumes inv: "file_inv meta s ip" and t0: "valid t0" "node s ip t0 = 0"
    and nb: "0 < nb" "nb < nblk" "nb \<notin> meta" "is_free s nb"
    and s': "alloc_inv meta s'" "geometry s' = geometry s" "vframe ip s s'"
    and fr: "\<And>x. is_free s' x \<longleftrightarrow> is_free s x \<and> x \<noteq> nb"
    and nodes: "\<And>t. valid t \<Longrightarrow> node s' ip t = (if t = t0 then nb else node s ip t)"
    and blk: "\<And>x. x \<notin> meta \<Longrightarrow> x \<noteq> nb \<or> \<not> is_pointer t0 \<Longrightarrow> x \<notin> ptrs s ip \<Longrightarrow> blk_at s' x = blk_at s x"
  shows "grows meta ip {t0} s s'"
proof -
  have ne: "node s ip t \<noteq> nb" if "valid t" for t
    using file_inv_node(3) [OF inv that] nb(1,4) by auto
  have "node s' ip t < nblk \<and> node s' ip t \<notin> meta \<and> \<not> is_free s' (node s' ip t)"
    if "valid t" "node s' ip t \<noteq> 0" for t
    using that nodes [OF that(1)] file_inv_node [OF inv that(1)] nb fr by (auto split: if_splits)
  moreover have "t = u" if "valid t" "valid u" "node s' ip t \<noteq> 0" "node s' ip t = node s' ip u" for t u
    using that nodes [OF that(1)] nodes [OF that(2)] ne inv unfolding file_inv_def by (metis (full_types))
  moreover have "128 \<le> length (v_ei (vin s' ip))" using inv s'(3) by (simp add: file_inv_def vframe_def)
  ultimately have fi: "file_inv meta s' ip" using s'(1) unfolding file_inv_def by blast
  show ?thesis
  proof (rule growsI [OF fi s'(2,3)])
    show "is_free s x" if "is_free s' x" for x using that fr by simp
    show "node s' ip t = node s ip t \<or> t \<in> {t0} \<and> node s ip t = 0 \<and> is_free s (node s' ip t)" if "valid t" for t
      using nodes [OF that] t0(2) nb(4) by simp
    show "\<exists>u\<in>{t0}. valid u \<and> node s' ip u = x" if "is_free s x" "\<not> is_free s' x" for x
      using that fr [of x] nodes [OF t0(1)] t0(1) by simp
    show "blk_at s' x = blk_at s x" if x: "x \<notin> meta" "x \<notin> ptrs s' ip" for x
    proof (rule blk [OF x(1)])
      have p: "node s' ip t \<noteq> x \<or> x = 0" if "valid t" "is_pointer t" for t
        using x(2) that unfolding ptrs_def by blast
      then show "x \<noteq> nb \<or> \<not> is_pointer t0" using p [OF t0(1)] nodes [OF t0(1)] nb(1) by auto
      show "x \<notin> ptrs s ip" using p nodes t0(2) by (fastforce simp: ptrs_def split: if_splits)
    qed
  qed
qed

section \<open>Allocation in the tree\<close>

lemma charge_block_ok:
  assumes inv: "file_inv meta s ip" and fr: "is_free s b0"
  obtains nb s1 where "charge_block D ip s = (nb, s1)" "0 < nb" "nb < nblk" "nb \<notin> meta" "is_free s nb"
    "alloc_inv meta s1" "geometry s1 = geometry s" "vframe ip s s1" "\<And>x. is_free s1 x \<longleftrightarrow> is_free s x \<and> x \<noteq> nb"
    "\<And>x. x \<notin> meta \<Longrightarrow> blk_at s1 x = blk_at s x"
    "\<And>k. i_block (v_ei (vin s1 ip)) k = i_block (v_ei (vin s ip)) k"
proof -
  have ai: "alloc_inv meta s" using inv by (simp add: file_inv_def)
  obtain nb s1 where a: "ext2_alloc_block D s = (nb, s1)" "is_free s nb" "0 < nb" "nb < nblk" "nb \<notin> meta" "alloc_inv meta s1"
    "geometry s1 = geometry s" "same_mem s s1" "\<And>x. is_free s1 x \<longleftrightarrow> is_free s x \<and> x \<noteq> nb"
    "\<And>x. x \<notin> meta \<Longrightarrow> blk_at s1 x = blk_at s x" using alloc_block_ok [OF ai fr] by metis
  let ?f = "\<lambda>ei. set_i_blocks (u32 (i_blocks ei + blocks_delta s1)) ei"
  have c: "charge_block D ip s = (nb, upd_ei ip ?f s1)" by (simp add: charge_block_def a(1))
  have v: "vframe ip s (upd_ei ip ?f s1)"
    using vframe_trans [OF vframe_mem [OF a(8)] vframe_upd_ei] by simp
  have e: "i_block (v_ei (vin (upd_ei ip ?f s1) ip)) k = i_block (v_ei (vin s ip)) k" for k
    using a(8) by (simp add: upd_ei_def same_mem_def)
  show ?thesis
    using that [of nb "upd_ei ip ?f s1"] c a v e by simp
qed

lemma charge_block_full:
  assumes inv: "file_inv meta s ip" and full: "\<And>b. \<not> is_free s b"
  obtains s1 where "charge_block D ip s = (NEG1, s1)" "grows meta ip T s s1" "\<And>b. \<not> is_free s1 b"
proof -
  have ai: "alloc_inv meta s" using inv by (simp add: file_inv_def)
  let ?f = "\<lambda>ei. set_i_blocks (u32 (i_blocks ei + blocks_delta s)) ei"
  let ?s = "upd_ei ip ?f s"
  have c: "charge_block D ip s = (NEG1, ?s)"
    by (simp add: charge_block_def alloc_block_full [OF ai full])
  have n: "node ?s ip t = node s ip t" if "valid t" for t
    by (rule node_same [OF _ _ that]) (simp add: upd_ei_def, simp)
  have "file_inv meta ?s ip" using inv n by (auto simp: file_inv_def) (simp add: upd_ei_def)
  then have "grows meta ip T s ?s" using n by (simp add: grows_def vframe_upd_ei)
  then show ?thesis using that c full by simp
qed

lemma fresh_ne: "file_inv meta s ip \<Longrightarrow> is_free s nb \<Longrightarrow> 0 < nb \<Longrightarrow> valid t \<Longrightarrow> node s ip t \<noteq> nb"
  using file_inv_node(3) by fastforce

lemma valid_root: "k < 14 \<Longrightarrow> valid (root k)"
  using pb_pos by (auto simp: valid_def root_def)

text \<open>A new block at a pointer of the inode; \<open>z\<close> says whether it is emptied.\<close>

lemma attach_root:
  assumes inv: "file_inv meta s ip" and fr: "is_free s b0" and k: "k < 14" "node s ip (root k) = 0"
  obtains nb s1 s2 where "charge_block D ip s = (nb, s1)" "nb \<noteq> NEG1" "0 < nb"
    "(if 12 \<le> k then ext2_set_block_all_zero D nb (upd_ei ip (set_i_block k nb) s1)
      else upd_ei ip (set_i_block k nb) s1) = s2"
    "grows meta ip {root k} s s2" "node s2 ip (root k) = nb"
proof -
  obtain nb s1 where c: "charge_block D ip s = (nb, s1)" "0 < nb" "nb < nblk" "nb \<notin> meta" "is_free s nb"
    "alloc_inv meta s1" "geometry s1 = geometry s" "vframe ip s s1" "\<And>x. is_free s1 x \<longleftrightarrow> is_free s x \<and> x \<noteq> nb"
    "\<And>x. x \<notin> meta \<Longrightarrow> blk_at s1 x = blk_at s x"
    "\<And>k. i_block (v_ei (vin s1 ip)) k = i_block (v_ei (vin s ip)) k"
    using charge_block_ok [OF inv fr] by metis
  let ?u = "upd_ei ip (set_i_block k nb) s1"
  have neg: "nb \<noteq> NEG1" using nblk_small [OF c(3)] by simp
  have u32: "u32 nb = nb" using nblk_small [OF c(3)] by (simp add: NEG1_def width)
  have ai: "alloc_inv meta ?u" using c(6) by simp
  have bsz: "fs_block_size ?u = bs" using ai by (simp add: alloc_inv_def on_vol_def)
  have len: "128 \<le> length (v_ei (vin s1 ip))" using inv c(8) by (simp add: file_inv_def vframe_def)
  obtain z where z: "ext2_write_block D ?u nb (replicate bs 0) = (True, z)" "alloc_inv meta z" "geometry z = geometry ?u"
    "is_free z = is_free ?u" "same_mem ?u z" "\<And>x. blk_at z x = (if x = nb then replicate bs 0 else blk_at ?u x)"
    using write_data [OF ai c(3,4), of "replicate bs 0"] by (metis length_replicate)
  define s2 where "s2 = (if 12 \<le> k then z else ?u)"
  have run: "(if 12 \<le> k then ext2_set_block_all_zero D nb ?u else ?u) = s2"
    by (simp add: s2_def ext2_set_block_all_zero_def bsz z(1))
  have mem: "vin s2 = vin ?u" using z(5) by (simp add: s2_def same_mem_def)
  have vf: "vframe ip s s2"
  proof -
    have "vframe ip s1 ?u" by (rule vframe_upd_ei) simp
    then have "vframe ip s ?u" by (rule vframe_trans [OF c(8)])
    then show ?thesis using vframe_trans [OF _ vframe_mem [OF z(5)]] by (simp add: s2_def)
  qed
  have s2: "alloc_inv meta s2" "geometry s2 = geometry s" using z ai c(7) by (auto simp: s2_def)
  have fr2: "is_free s2 x \<longleftrightarrow> is_free s x \<and> x \<noteq> nb" for x using z(4) c(9) by (simp add: s2_def)
  have ptr: "is_pointer (root k) \<longleftrightarrow> 12 \<le> k" using k(1) by (auto simp: root_def is_pointer_def)
  have blk3: "blk_at s2 x = blk_at s x" if "x \<notin> meta" "x \<noteq> nb \<or> \<not> is_pointer (root k)" for x
    using that z(6) c(10) ptr by (auto simp: s2_def)
  then have blk2: "blk_at s2 x = blk_at s x" if "x \<notin> meta" "x \<noteq> nb" for x using that by blast
  have ei2: "i_block (v_ei (vin s2 ip)) l = (if l = k then nb else i_block (v_ei (vin s ip)) l)" if "l < 14" for l
    using that k(1) len c(11) by (simp add: mem upd_ei_def i_block_set_i_block u32)
  have zero: "blk_at s2 nb = replicate bs 0" if "12 \<le> k" using that z(6) by (simp add: s2_def)
  have nodes: "node s2 ip t = (if t = root k then nb else node s ip t)" if "valid t" for t
    by (rule node_attach_root [OF inv k fresh_ne [OF inv c(5,2)] ei2 blk2 zero that])
  have "grows meta ip {root k} s s2"
    by (rule grows_attach [OF inv valid_root [OF k(1)] k(2) c(2-5) s2 vf fr2 nodes blk3])
  then show ?thesis using that [OF c(1) neg c(2) run] nodes [OF valid_root [OF k(1)]] by simp
qed

lemma attach_entry:
  assumes inv: "file_inv meta s ip" and fr: "is_free s b0"
    and P: "is_pointer P" "valid P" "i < pb" "node s ip P \<noteq> 0" "node s ip (child P i) = 0"
  obtains nb s1 s2 where "charge_block D ip s = (nb, s1)" "nb \<noteq> NEG1" "0 < nb"
    "snd (ext2_write_block D (if P = Dind then ext2_set_block_all_zero D nb s1 else s1) (node s ip P)
       (put32 (blk_at s (node s ip P)) (4 * i) nb)) = s2"
    "grows meta ip {child P i} s s2" "node s2 ip (child P i) = nb"
proof -
  obtain nb s1 where c: "charge_block D ip s = (nb, s1)" "0 < nb" "nb < nblk" "nb \<notin> meta" "is_free s nb"
    "alloc_inv meta s1" "geometry s1 = geometry s" "vframe ip s s1" "\<And>x. is_free s1 x \<longleftrightarrow> is_free s x \<and> x \<noteq> nb"
    "\<And>x. x \<notin> meta \<Longrightarrow> blk_at s1 x = blk_at s x"
    "\<And>k. i_block (v_ei (vin s1 ip)) k = i_block (v_ei (vin s ip)) k"
    using charge_block_ok [OF inv fr] by metis
  let ?B = "node s ip P" and ?buf = "put32 (blk_at s (node s ip P)) (4 * i) nb"
  have neg: "nb \<noteq> NEG1" and u32: "nb < 4294967296" using nblk_small [OF c(3)] by (simp_all add: NEG1_def)
  have B: "?B < nblk" "?B \<notin> meta" "?B \<noteq> nb"
    using file_inv_node [OF inv P(2,4)] fresh_ne [OF inv c(5,2) P(2)] by auto
  have vol: "on_vol s" by (rule file_inv_vol [OF inv])
  have len: "length ?buf = bs" using length_blk [OF vol B(1)] by simp
  obtain z where z: "ext2_write_block D s1 nb (replicate bs 0) = (True, z)" "alloc_inv meta z" "geometry z = geometry s1"
    "is_free z = is_free s1" "same_mem s1 z" "\<And>x. blk_at z x = (if x = nb then replicate bs 0 else blk_at s1 x)"
    using write_data [OF c(6,3,4), of "replicate bs 0"] by (metis length_replicate)
  define y where "y = (if P = Dind then z else s1)"
  have bsz: "fs_block_size s1 = bs" using c(6) by (simp add: alloc_inv_def on_vol_def)
  have y: "(if P = Dind then ext2_set_block_all_zero D nb s1 else s1) = y"
    by (simp add: y_def ext2_set_block_all_zero_def bsz z(1))
  have yinv: "alloc_inv meta y" using z c(6) by (simp add: y_def)
  obtain s2 where s2: "ext2_write_block D y ?B ?buf = (True, s2)" "alloc_inv meta s2" "geometry s2 = geometry y"
    "is_free s2 = is_free y" "same_mem y s2" "\<And>x. blk_at s2 x = (if x = ?B then ?buf else blk_at y x)"
    using write_data [OF yinv B(1,2) len] by metis
  have mem: "same_mem s1 s2" using z(5) s2(5) by (simp add: y_def same_mem_def split: if_splits)
  have vf: "vframe ip s s2" using vframe_trans [OF c(8) vframe_mem [OF mem]] .
  have geo: "geometry s2 = geometry s" using s2(3) z(3) c(7) by (simp add: y_def split: if_splits)
  have fr2: "is_free s2 x \<longleftrightarrow> is_free s x \<and> x \<noteq> nb" for x using z(4) s2(4) c(9) by (simp add: y_def split: if_splits)
  have ptr: "is_pointer (child P i) \<longleftrightarrow> P = Dind" using P(1) by (cases P) (auto simp: child_def is_pointer_def)
  have blk3: "blk_at s2 x = blk_at s x" if "x \<notin> meta" "x \<noteq> nb \<or> \<not> is_pointer (child P i)" "x \<noteq> ?B" for x
    using that z(6) s2(6) c(10) ptr by (auto simp: y_def split: if_splits)
  then have blk2: "blk_at s2 x = blk_at s x" if "x \<notin> meta" "x \<noteq> nb" "x \<noteq> ?B" for x using that by blast
  have ei2: "i_block (v_ei (vin s2 ip)) l = i_block (v_ei (vin s ip)) l" for l
    using mem c(11) by (simp add: same_mem_def)
  have zero: "blk_at s2 nb = replicate bs 0" if "P = Dind" using that z(6) s2(6) B(3) by (simp add: y_def)
  have put: "blk_at s2 ?B = ?buf" using s2(6) [of ?B] by simp
  have nodes: "node s2 ip t = (if t = child P i then nb else node s ip t)" if "valid t" for t
    by (rule node_attach_entry [OF inv P u32 fresh_ne [OF inv c(5,2)] ei2 put blk2 zero that])
  have ch: "valid (child P i)" by (rule valid_child [OF P(1-3)])
  have "?B \<in> ptrs s ip" using P by (auto simp: ptrs_def)
  then have "grows meta ip {child P i} s s2"
    using grows_attach [OF inv ch P(5) c(2-5) s2(2) geo vf fr2 nodes] blk3 by blast
  then show ?thesis using that [OF c(1) neg c(2)] y s2(1) nodes [OF ch] by simp
qed

lemma ensure_root_ok:
  assumes inv: "file_inv meta s ip" and k: "12 \<le> k" "k < 14"
  obtains ok' d s' where "ensure_root D ip k s = (ok', d, s')" "grows meta ip {root k} s s'"
    "ok' \<Longrightarrow> node s' ip (root k) \<noteq> 0" "\<And>b. \<not> ok' \<Longrightarrow> \<not> is_free s' b"
proof -
  have e: "i_block (v_ei (vin s ip)) k = node s ip (root k)" using k by (simp add: node_root)
  consider (has) "node s ip (root k) \<noteq> 0" | (new) b where "node s ip (root k) = 0" "is_free s b"
    | (full) "node s ip (root k) = 0" "\<forall>b. \<not> is_free s b" by blast
  then show ?thesis
  proof cases
    case has
    then show ?thesis using that [of True False s] grows_refl [OF inv] by (simp add: ensure_root_def e)
  next
    case (new b)
    then obtain nb s1 s2 where a: "charge_block D ip s = (nb, s1)" "nb \<noteq> NEG1" "0 < nb"
      "ext2_set_block_all_zero D nb (upd_ei ip (set_i_block k nb) s1) = s2"
      "grows meta ip {root k} s s2" "node s2 ip (root k) = nb"
      using attach_root [OF inv new(2) k(2) new(1)] k(1) by (metis (full_types))
    then show ?thesis using that [of True True s2] new(1) by (simp add: ensure_root_def e)
  next
    case full
    then obtain s1 where "charge_block D ip s = (NEG1, s1)" "grows meta ip {root k} s s1" "\<And>b. \<not> is_free s1 b"
      using charge_block_full [OF inv] by metis
    then show ?thesis using that [of False True s1] full(1) by (simp add: ensure_root_def e)
  qed
qed

lemma ensure_entry_ok:
  assumes inv: "file_inv meta s ip" and P: "is_pointer P" "valid P" "i < pb" "node s ip P \<noteq> 0"
    and z: "z \<longleftrightarrow> P = Dind"
  obtains r d s' where "ensure_entry D ip (node s ip P) i z s = (r, d, s')" "grows meta ip {child P i} s s'"
    "\<And>b. r = Some b \<Longrightarrow> b = node s' ip (child P i) \<and> b \<noteq> 0" "\<And>b. r = None \<Longrightarrow> \<not> is_free s' b"
proof -
  have vol: "on_vol s" by (rule file_inv_vol [OF inv])
  have rd: "ext2_read_block D s (node s ip P) = Some (blk_at s (node s ip P))"
    using read_block [OF vol] file_inv_node(1) [OF inv P(2,4)] by simp
  have e: "get32 (blk_at s (node s ip P)) (4 * i) = node s ip (child P i)" using P by (simp add: node_child ptr_def)
  consider (has) "node s ip (child P i) \<noteq> 0" | (new) b where "node s ip (child P i) = 0" "is_free s b"
    | (full) "node s ip (child P i) = 0" "\<forall>b. \<not> is_free s b" by blast
  then show ?thesis
  proof cases
    case has
    then show ?thesis using that [of "Some (node s ip (child P i))" False s] grows_refl [OF inv]
      by (simp add: ensure_entry_def rd e)
  next
    case (new b)
    then obtain nb s1 s2 where a: "charge_block D ip s = (nb, s1)" "nb \<noteq> NEG1" "0 < nb"
      "snd (ext2_write_block D (if P = Dind then ext2_set_block_all_zero D nb s1 else s1) (node s ip P)
         (put32 (blk_at s (node s ip P)) (4 * i) nb)) = s2"
      "grows meta ip {child P i} s s2" "node s2 ip (child P i) = nb"
      using attach_entry [OF inv new(2) P new(1)] by metis
    have "ensure_entry D ip (node s ip P) i z s = (Some nb, True, s2)"
      unfolding a(4) [symmetric] z using a(1,2) new(1) by (simp add: ensure_entry_def rd e)
    then show ?thesis using that [of "Some nb" True s2] a by simp
  next
    case full
    then obtain s1 where "charge_block D ip s = (NEG1, s1)" "grows meta ip {child P i} s s1" "\<And>b. \<not> is_free s1 b"
      using charge_block_full [OF inv] by metis
    then show ?thesis using that [of None True s1] full(1) by (simp add: ensure_entry_def rd e)
  qed
qed

text \<open>The nodes that \<open>ext2_bmap_alloc\<close> may fill for a logical block.\<close>

definition path :: "nat \<Rightarrow> tnode set" where
  "path lb = {Ind, Dind, Sub ((lb - (12 + pb)) div pb), Data lb}"

lemma data_child:
  "12 \<le> lb \<Longrightarrow> child Ind (lb - 12) = Data lb"
  "12 + pb \<le> lb \<Longrightarrow> child (Sub ((lb - (12 + pb)) div pb)) ((lb - (12 + pb)) mod pb) = Data lb"
  by (simp_all add: child_def)

lemma grows_file_inv: "grows meta ip T s s' \<Longrightarrow> file_inv meta s' ip" by (simp add: grows_def)

lemma grows_per_block: "file_inv meta s ip \<Longrightarrow> per_block s = pb"
  by (simp add: per_block_pb file_inv_vol)

lemma bmap_alloc_ok:
  assumes inv: "file_inv meta s ip" and lb: "lb < dind_limit s"
  obtains r d s' where "ext2_bmap_alloc D ip lb s = (r, d, s')" "grows meta ip (path lb) s s'"
    "r = NEG1 \<and> (\<forall>b. \<not> is_free s' b) \<or> r = node s' ip (Data lb) \<and> r \<noteq> 0 \<and> r \<noteq> NEG1"
proof -
  have vol: "on_vol s" by (rule file_inv_vol [OF inv])
  have v: "valid (Data lb)" by (rule valid_data [OF vol lb])
  have neg: "node s' ip (Data lb) \<noteq> NEG1" if "file_inv meta s' ip" for s'
    using file_inv_node(1) [OF that v] nblk_small [of "node s' ip (Data lb)"] by (auto simp: NEG1_def)
  have il: "ind_limit s = 12 + pb" using vol by (simp add: ind_limit_def EXT2_NDIR_BLOCKS_def per_block_pb)
  note defs = ext2_bmap_alloc_def il EXT2_NDIR_BLOCKS_def EXT2_IND_BLOCK_def EXT2_DIND_BLOCK_def
  have ei: "i_block (v_ei (vin x ip)) 12 = node x ip Ind" "i_block (v_ei (vin x ip)) 13 = node x ip Dind" for x
    by (simp_all add: node_def)
  have roots: "root 12 = Ind" "root 13 = Dind" by (simp_all add: root_def)
  let ?o = "lb - (12 + pb)"
  consider (direct) "lb < 12" | (ind) "12 \<le> lb" "lb < 12 + pb" | (dind) "12 + pb \<le> lb" by linarith
  then show ?thesis
  proof cases
    case direct
    then have rt: "root lb = Data lb" "i_block (v_ei (vin s ip)) lb = node s ip (Data lb)" by (simp_all add: root_def node_def)
    consider (has) "node s ip (Data lb) \<noteq> 0" | (new) b where "node s ip (Data lb) = 0" "is_free s b"
      | (full) "node s ip (Data lb) = 0" "\<forall>b. \<not> is_free s b" by blast
    then show ?thesis
    proof cases
      case has
      then show ?thesis using that [of "node s ip (Data lb)" False s] grows_refl [OF inv] neg [OF inv] direct rt
        by (simp add: defs)
    next
      case (new b)
      obtain nb s1 s2 where a: "charge_block D ip s = (nb, s1)" "nb \<noteq> NEG1" "0 < nb"
        "upd_ei ip (set_i_block lb nb) s1 = s2" "grows meta ip {Data lb} s s2" "node s2 ip (Data lb) = nb"
        by (rule attach_root [OF inv new(2), of lb, unfolded rt(1)]) (use direct new(1) in auto)
      then show ?thesis using that [of nb True s2] direct rt new(1) grows_mono [OF a(5), of "path lb"]
        by (simp add: defs path_def)
    next
      case full
      then obtain s1 where "charge_block D ip s = (NEG1, s1)" "grows meta ip (path lb) s s1" "\<And>b. \<not> is_free s1 b"
        using charge_block_full [OF inv] by metis
      then show ?thesis using that [of NEG1 True s1] direct rt full(1) by (simp add: defs)
    qed
  next
    case ind
    obtain ok' d1 s1 where r: "ensure_root D ip 12 s = (ok', d1, s1)" "grows meta ip {Ind} s s1"
      "ok' \<Longrightarrow> node s1 ip Ind \<noteq> 0" "\<And>b. \<not> ok' \<Longrightarrow> \<not> is_free s1 b"
      by (rule ensure_root_ok [OF inv, of 12, unfolded roots]) auto
    have g1: "grows meta ip (path lb) s s1" using grows_mono [OF r(2)] by (simp add: path_def)
    show ?thesis
    proof (cases ok')
      case False
      then show ?thesis using that [of NEG1 d1 s1] g1 r ind by (simp add: defs)
    next
      case True
      have inv1: "file_inv meta s1 ip" by (rule grows_file_inv [OF g1])
      obtain x d2 s2 where e: "ensure_entry D ip (node s1 ip Ind) (lb - 12) False s1 = (x, d2, s2)"
        "grows meta ip {Data lb} s1 s2" "\<And>b. x = Some b \<Longrightarrow> b = node s2 ip (Data lb) \<and> b \<noteq> 0"
        "\<And>b. x = None \<Longrightarrow> \<not> is_free s2 b"
        by (rule ensure_entry_ok [OF inv1, of Ind "lb - 12" False, unfolded data_child(1) [OF ind(1)]])
          (use ind r(3) [OF True] in \<open>simp_all add: is_pointer_def valid_def\<close>)
      have g: "grows meta ip (path lb) s s2"
        using grows_trans [OF inv g1 grows_mono [OF e(2)]] by (simp add: path_def)
      have run: "ext2_bmap_alloc D ip lb s = (case x of None \<Rightarrow> NEG1 | Some b \<Rightarrow> b, d1 \<or> d2, s2)"
        using ind r(1) True e(1) by (simp add: defs ei)
      show ?thesis using that [OF run g] e(3,4) neg [OF grows_file_inv [OF g]] by (cases x) auto
    qed
  next
    case dind
    have ob: "?o div pb < pb" using v dind by (intro less_mult_imp_div_less) (simp add: valid_def)
    have om: "?o mod pb < pb" using pb_pos by simp
    obtain ok' d1 s1 where r: "ensure_root D ip 13 s = (ok', d1, s1)" "grows meta ip {Dind} s s1"
      "ok' \<Longrightarrow> node s1 ip Dind \<noteq> 0" "\<And>b. \<not> ok' \<Longrightarrow> \<not> is_free s1 b"
      by (rule ensure_root_ok [OF inv, of 13, unfolded roots]) auto
    have g1: "grows meta ip (path lb) s s1" using grows_mono [OF r(2)] by (simp add: path_def)
    show ?thesis
    proof (cases ok')
      case False
      then show ?thesis using that [of NEG1 d1 s1] g1 r dind lb by (simp add: defs)
    next
      case True
      have inv1: "file_inv meta s1 ip" by (rule grows_file_inv [OF g1])
      have p1: "per_block s1 = pb" by (rule grows_per_block [OF inv1])
      obtain x d2 s2 where e: "ensure_entry D ip (node s1 ip Dind) (?o div pb) True s1 = (x, d2, s2)"
        "grows meta ip {Sub (?o div pb)} s1 s2" "\<And>b. x = Some b \<Longrightarrow> b = node s2 ip (Sub (?o div pb)) \<and> b \<noteq> 0"
        "\<And>b. x = None \<Longrightarrow> \<not> is_free s2 b"
        by (rule ensure_entry_ok [OF inv1, of Dind "?o div pb" True, unfolded child_Dind])
          (use ob r(3) [OF True] in \<open>simp_all add: is_pointer_def valid_def\<close>)
      have g2: "grows meta ip (path lb) s s2"
        using grows_trans [OF inv g1 grows_mono [OF e(2)]] by (simp add: path_def)
      show ?thesis
      proof (cases x)
        case None
        then show ?thesis using that [of NEG1 "d1 \<or> d2" s2] g2 r(1) True e(1,4) dind lb by (simp add: defs ei p1)
      next
        case (Some ib)
        have inv2: "file_inv meta s2 ip" by (rule grows_file_inv [OF g2])
        have ib: "ib = node s2 ip (Sub (?o div pb))" "node s2 ip (Sub (?o div pb)) \<noteq> 0" using e(3) Some by auto
        have p2: "per_block s2 = pb" by (rule grows_per_block [OF inv2])
        obtain y d3 s3 where f: "ensure_entry D ip ib (?o mod pb) False s2 = (y, d3, s3)"
          "grows meta ip {Data lb} s2 s3" "\<And>b. y = Some b \<Longrightarrow> b = node s3 ip (Data lb) \<and> b \<noteq> 0"
          "\<And>b. y = None \<Longrightarrow> \<not> is_free s3 b"
          by (rule ensure_entry_ok [OF inv2, of "Sub (?o div pb)" "?o mod pb" False, unfolded data_child(2) [OF dind] ib(1) [symmetric]])
            (use ob om ib in \<open>simp_all add: is_pointer_def valid_def\<close>)
        have g: "grows meta ip (path lb) s s3"
          using grows_trans [OF inv g2 grows_mono [OF f(2)]] by (simp add: path_def)
        have run: "ext2_bmap_alloc D ip lb s = (case y of None \<Rightarrow> NEG1 | Some b \<Rightarrow> b, d1 \<or> d2 \<or> d3, s3)"
          using dind lb r(1) True e(1) Some f(1) by (simp add: defs ei p1 p2)
        show ?thesis using that [OF run g] f(3,4) neg [OF grows_file_inv [OF g]] by (cases y) auto
      qed
    qed
  qed
qed

end

end
