(* ===== verification/Ext2File.thy ===== *)
theory Ext2File
  imports Ext2Tree
begin

text \<open>
  Regular files of ext2, \<open>src/fs/ext2.c\<close>: \<open>ext2_read\<close>, \<open>ext2_write\<close>, \<open>ext2_setattr\<close> and
  \<open>ext2_delete\<close>.  File positions are non-negative (\<open>sys_lseek\<close> admits no other); sums that C forms in
  64 bits are reduced with \<open>u64\<close>.
\<close>

section \<open>Reading\<close>

text \<open>The loop of \<open>ext2_read\<close>: the result is the error flag, the bytes copied to the user and the final
  position.\<close>

function read_loop :: "'d driver \<Rightarrow> 'd ext2 \<Rightarrow> nat \<Rightarrow> nat \<Rightarrow> nat \<Rightarrow> byte list \<Rightarrow> (bool \<times> byte list \<times> nat) option" where
  "read_loop D s ip pos count acc =
     (if count = 0 then Some (True, acc, pos)
      else if fs_block_size s = 0 then None
      else
        let offset = pos mod fs_block_size s;
            to_read = min (fs_block_size s - offset) count;
            phys_block = ext2_bmap D s ip (u32 (pos div fs_block_size s))
        in if phys_block = NEG1 then Some (False, acc, pos)
           else case (if phys_block = 0 then Some (replicate (fs_block_size s) 0)
                      else ext2_read_block D s phys_block) of
                  None \<Rightarrow> Some (False, acc, pos)
                | Some block_buf \<Rightarrow>
                    read_loop D s ip (pos + to_read) (count - to_read) (acc @ slice block_buf offset to_read))"
  by pat_completeness auto
termination
  by (relation "measure (\<lambda>(D, s, ip, pos, count, acc). count)") (auto simp: min_def)

declare read_loop.simps [simp del]

text \<open>Result: return value, data, new position.\<close>

definition ext2_read :: "'d driver \<Rightarrow> 'd ext2 \<Rightarrow> nat \<Rightarrow> nat \<Rightarrow> nat \<Rightarrow> (int \<times> byte list \<times> nat) option" where
  "ext2_read D s ip len pos =
     (if pos \<ge> v_size (vin s ip) then Some (0, [], pos)
      else
        let count = (if u64 (pos + len) > v_size (vin s ip) then v_size (vin s ip) - pos else len)
        in do { (ok, data, pos) \<leftarrow> read_loop D s ip pos count [];
                Some (if ok then int (length data) else -1, data, pos) })"

section \<open>Writing\<close>

text \<open>The loop of \<open>ext2_write\<close>: error flag, bytes written, position, the dirty flag and the state.  A
  block that is overwritten completely is not read first, so what its fresh buffer held before does not
  matter.\<close>

function write_loop ::
  "'d driver \<Rightarrow> nat \<Rightarrow> byte list \<Rightarrow> nat \<Rightarrow> nat \<Rightarrow> nat \<Rightarrow> bool \<Rightarrow> 'd ext2 \<Rightarrow>
     (bool \<times> nat \<times> nat \<times> bool \<times> 'd ext2) option" where
  "write_loop D ip buf pos count ret dirty s =
     (if count = 0 then Some (True, ret, pos, dirty, s)
      else if fs_block_size s = 0 then None
      else
        let offset = pos mod fs_block_size s;
            to_write = min (fs_block_size s - offset) count
        in case ext2_bmap_alloc D ip (u32 (pos div fs_block_size s)) s of
             (phys_block, d, s1) \<Rightarrow>
               if phys_block = NEG1 then Some (False, ret, pos, dirty \<or> d, s1)
               else case (if to_write \<noteq> fs_block_size s then ext2_read_block D s1 phys_block
                          else Some (replicate (fs_block_size s) 0)) of
                      None \<Rightarrow> Some (False, ret, pos, dirty \<or> d, s1)
                    | Some block_buf \<Rightarrow>
                        case ext2_write_block D s1 phys_block (blit block_buf offset (take to_write buf)) of
                          (False, s2) \<Rightarrow> Some (False, ret, pos, dirty \<or> d, s2)
                        | (True, s2) \<Rightarrow>
                            write_loop D ip (drop to_write buf) (pos + to_write) (count - to_write)
                              (ret + to_write) (dirty \<or> d) s2)"
  by pat_completeness auto
termination
  by (relation "measure (\<lambda>(D, ip, buf, pos, count, ret, dirty, s). count)") (auto simp: min_def)

declare write_loop.simps [simp del]

definition upd_size :: "nat \<Rightarrow> nat \<Rightarrow> 'd ext2 \<Rightarrow> 'd ext2" where
  "upd_size ip n s = s\<lparr>vin := (vin s)(ip := (vin s ip)\<lparr>v_size := n\<rparr>)\<rparr>"

text \<open>Result: return value, new position, state.  An error in the loop gives \<open>ret = -1\<close>; the inode is
  then updated only if a block was allocated.\<close>

definition ext2_write ::
  "'d driver \<Rightarrow> nat \<Rightarrow> byte list \<Rightarrow> nat \<Rightarrow> nat \<Rightarrow> 'd ext2 \<Rightarrow> (int \<times> nat \<times> 'd ext2) option" where
  "ext2_write D ip buf len ppos s =
     do { (ok, n, pos, dirty, s) \<leftarrow> write_loop D ip buf ppos len 0 False s;
          let ret = (if ok then int n else -1);
          (ret, s) \<leftarrow>
            (if ret > 0 \<or> dirty
             then do { let s = (if pos > v_size (vin s ip) then upd_size ip pos s else s);
                       let (t, s) = get_time s;
                       let s = upd_ei ip (\<lambda>ei. set_i_ctime t (set_i_mtime t (set_i_size (v_size (vin s ip)) ei))) s;
                       (r, s) \<leftarrow> ext2_write_inode D (v_ino (vin s ip)) (v_ei (vin s ip)) s;
                       Some (if r < 0 then -1 else ret, s) }
             else Some (ret, s));
          Some (ret, if ret > 0 then pos else ppos, s) }"

section \<open>Changing the size\<close>

definition ATTR_SIZE :: nat where "ATTR_SIZE = 1"

definition ext2_setattr :: "'d driver \<Rightarrow> nat \<Rightarrow> nat \<Rightarrow> nat \<Rightarrow> 'd ext2 \<Rightarrow> (int \<times> 'd ext2) option" where
  "ext2_setattr D ip ia_valid new_size s =
     (if and ia_valid ATTR_SIZE = 0 then Some (0, s)
      else if new_size = v_size (vin s ip) then Some (0, s)
      else
        let (r, s) = (if new_size < v_size (vin s ip) then ext2_truncate_blocks D ip new_size s else (0, s))
        in if r < 0 then Some (-1, s)
           else do { let s = upd_size ip new_size s;
                     let (t, s) = get_time s;
                     let s = upd_ei ip (\<lambda>ei. set_i_ctime t (set_i_mtime t (set_i_size new_size ei))) s;
                     (_, s) \<leftarrow> ext2_write_inode D (v_ino (vin s ip)) (v_ei (vin s ip)) s;
                     Some (0, s) })"

section \<open>Deleting\<close>

text \<open>Freeing the data blocks of a pointer block, then the block.\<close>

definition delete_ind :: "'d driver \<Rightarrow> nat \<Rightarrow> 'd ext2 \<Rightarrow> 'd ext2" where
  "delete_ind D block s =
     (let s = (case ext2_read_block D s block of
                 None \<Rightarrow> s
               | Some buf \<Rightarrow>
                   fold (\<lambda>i s. if get32 buf (4 * i) \<noteq> 0 then ext2_free_block D (get32 buf (4 * i)) s else s)
                     [0..<per_block s] s)
      in ext2_free_block D block s)"

definition delete_dind :: "'d driver \<Rightarrow> nat \<Rightarrow> 'd ext2 \<Rightarrow> 'd ext2" where
  "delete_dind D block s =
     (let s = (case ext2_read_block D s block of
                 None \<Rightarrow> s
               | Some buf \<Rightarrow>
                   fold (\<lambda>i s. if get32 buf (4 * i) \<noteq> 0 then delete_ind D (get32 buf (4 * i)) s else s)
                     [0..<per_block s] s)
      in ext2_free_block D block s)"

text \<open>\<open>ext2_delete\<close> of the inode \<open>ip\<close>, which frees its storage when no link is left.\<close>

definition ext2_delete :: "'d driver \<Rightarrow> nat \<Rightarrow> 'd ext2 \<Rightarrow> (int \<times> 'd ext2) option" where
  "ext2_delete D ip s =
     (if v_link_count (vin s ip) = 0
      then
        let ei = v_ei (vin s ip);
            s = fold (\<lambda>i s. if i_block ei i \<noteq> 0 then ext2_free_block D (i_block ei i) s else s)
                  [0..<EXT2_NDIR_BLOCKS] s;
            s = (if i_block ei EXT2_IND_BLOCK \<noteq> 0 then delete_ind D (i_block ei EXT2_IND_BLOCK) s else s);
            s = (if i_block ei EXT2_DIND_BLOCK \<noteq> 0 then delete_dind D (i_block ei EXT2_DIND_BLOCK) s else s);
            s = upd_ei ip (\<lambda>_. replicate inode_sizeof 0) s
        in do { (_, s) \<leftarrow> ext2_write_inode D (v_ino (vin s ip)) (v_ei (vin s ip)) s;
                Some (0, ext2_free_inode D (v_ino (vin s ip)) s) }
      else Some (0, s))"

definition ext2_open :: int where "ext2_open = 0"
definition ext2_release :: int where "ext2_release = 0"
definition ext2_fsync :: int where "ext2_fsync = 0"

end
