(* ===== verification/Ext2Dir.thy ===== *)
theory Ext2Dir
  imports Ext2File
begin

text \<open>
  Directories of ext2, \<open>src/fs/ext2.c\<close>: the chain of entries in a directory block, lookup, insertion and
  removal of entries, and the operations on names: create, mkdir, unlink, rmdir, rename, readdir.

  The loops over the entries of a block advance by \<open>rec_len\<close>; they read an entry only inside the block
  (outside, the value is \<open>None\<close>), and an entry of length 0 that does not end the search makes them run
  forever, also \<open>None\<close>.  Names are byte lists without NUL.
\<close>

section \<open>Directory entries\<close>

definition de_inode :: "byte list \<Rightarrow> nat \<Rightarrow> nat" where "de_inode b o' = get32 b o'"
definition de_rec_len :: "byte list \<Rightarrow> nat \<Rightarrow> nat" where "de_rec_len b o' = get16 b (o' + 4)"
definition de_name_len :: "byte list \<Rightarrow> nat \<Rightarrow> nat" where "de_name_len b o' = unat (b ! (o' + 6))"
definition de_file_type :: "byte list \<Rightarrow> nat \<Rightarrow> byte" where "de_file_type b o' = b ! (o' + 7)"
definition de_name :: "byte list \<Rightarrow> nat \<Rightarrow> byte list" where "de_name b o' = slice b (o' + 8) (de_name_len b o')"

definition DE_HEADER :: nat where "DE_HEADER = 8"
definition EXT2_FT_REG_FILE :: byte where "EXT2_FT_REG_FILE = 1"
definition EXT2_FT_DIR :: byte where "EXT2_FT_DIR = 2"

definition EXT2_DIR_REC_LEN :: "nat \<Rightarrow> nat" where
  "EXT2_DIR_REC_LEN name_len = (let len = u16 (DE_HEADER + u16 name_len) in and (u16 (len + 3)) 0xFFFC)"

text \<open>Filling in an entry: inode number, name length, type and name; \<open>rec_len\<close> apart.\<close>

definition set_de :: "nat \<Rightarrow> nat \<Rightarrow> byte list \<Rightarrow> byte \<Rightarrow> byte list \<Rightarrow> byte list" where
  "set_de o' ino name ft b =
     blit ((put32 b o' ino)[o' + 6 := word_of_nat (length name), o' + 7 := ft]) (o' + 8) name"

section \<open>Scanning a block\<close>

text \<open>The inner loop of \<open>ext2_lookup\<close>: the inode number of the entry with the given name.\<close>

function dir_find :: "byte list \<Rightarrow> byte list \<Rightarrow> nat \<Rightarrow> nat option option" where
  "dir_find name b pos =
     (if pos < length b then
        if pos + DE_HEADER > length b then None
        else if de_inode b pos \<noteq> 0 \<and> de_name_len b pos = length name \<and> pos + 8 + length name > length b then None
        else if de_inode b pos \<noteq> 0 \<and> de_name_len b pos = length name \<and> de_name b pos = name
        then Some (Some (de_inode b pos))
        else if de_rec_len b pos = 0 then None
        else dir_find name b (pos + de_rec_len b pos)
      else Some None)"
  by pat_completeness auto
termination by (relation "measure (\<lambda>(name, b, pos). length b - pos)") auto

declare dir_find.simps [simp del]

definition sint16 :: "int \<Rightarrow> int" where
  "sint16 x = (x + 2 ^ 15) mod 2 ^ 16 - 2 ^ 15"

text \<open>The inner loop of \<open>ext2_dir_add_entry\<close>: the new content of the block, or \<open>Some None\<close> when no
  entry has room.  The free space is computed in 16-bit signed integers.\<close>

definition de_min_len :: "byte list \<Rightarrow> nat \<Rightarrow> nat" where
  "de_min_len b o' = EXT2_DIR_REC_LEN (de_name_len b o')"

definition de_free_space :: "byte list \<Rightarrow> nat \<Rightarrow> int" where
  "de_free_space b o' = sint16 (sx16 (de_rec_len b o') - int (de_min_len b o'))"

function dir_insert :: "byte list \<Rightarrow> nat \<Rightarrow> byte \<Rightarrow> byte list \<Rightarrow> nat \<Rightarrow> byte list option option" where
  "dir_insert name ino ft b offset =
     (let rec_len = EXT2_DIR_REC_LEN (length name)
      in if offset < length b then
           if offset + DE_HEADER > length b then None
           else if de_inode b offset = 0 \<and> de_rec_len b offset \<ge> rec_len
           then if offset + 8 + length name \<le> length b then Some (Some (set_de offset ino name ft b)) else None
           else if de_inode b offset \<noteq> 0 \<and> de_free_space b offset \<ge> sx16 rec_len
           then let new = offset + de_min_len b offset
                in if new + 8 + length name \<le> length b
                   then Some (Some (put16
                          (set_de new ino name ft (put16 b (new + 4) (nat (de_free_space b offset mod 2 ^ 16))))
                          (offset + 4) (de_min_len b offset)))
                   else None
           else if de_rec_len b offset = 0 then None
           else dir_insert name ino ft b (offset + de_rec_len b offset)
         else Some None)"
  by pat_completeness auto
termination by (relation "measure (\<lambda>(name, ino, ft, b, offset). length b - offset)") auto

declare dir_insert.simps [simp del]

text \<open>The inner loop of \<open>ext2_dir_remove_entry\<close>; \<open>prev\<close> is the offset of the entry before.\<close>

definition dir_erase :: "byte list \<Rightarrow> nat option \<Rightarrow> nat \<Rightarrow> byte list option" where
  "dir_erase b prev offset =
     (let b = (put32 b offset 0)[offset + 6 := 0];
          target = (case prev of Some p \<Rightarrow> p | None \<Rightarrow> offset);
          b = (case prev of
                 Some p \<Rightarrow> put16 b (p + 4) (u16 (de_rec_len b p + de_rec_len b offset))
               | None \<Rightarrow> b);
          next_off = offset + de_rec_len b offset
      in if next_off < length b
         then if next_off + DE_HEADER > length b then None
              else if de_inode b next_off = 0
              then Some (put16 b (target + 4) (u16 (de_rec_len b target + de_rec_len b next_off)))
              else Some b
         else Some b)"

function dir_delete :: "nat \<Rightarrow> byte list \<Rightarrow> nat option \<Rightarrow> nat \<Rightarrow> byte list option option" where
  "dir_delete ino b prev offset =
     (if offset < length b then
        if offset + DE_HEADER > length b then None
        else if de_inode b offset = ino then map_option Some (dir_erase b prev offset)
        else if de_rec_len b offset = 0 then None
        else dir_delete ino b (Some offset) (offset + de_rec_len b offset)
      else Some None)"
  by pat_completeness auto
termination by (relation "measure (\<lambda>(ino, b, prev, offset). length b - offset)") auto

declare dir_delete.simps [simp del]

text \<open>The test of \<open>ext2_rmdir\<close>: only \<open>.\<close> and \<open>..\<close> are left.\<close>

definition is_dot :: "byte list \<Rightarrow> nat \<Rightarrow> bool" where
  "is_dot b o' \<longleftrightarrow> de_name_len b o' = 1 \<and> b ! (o' + 8) = 46"

definition is_dotdot :: "byte list \<Rightarrow> nat \<Rightarrow> bool" where
  "is_dotdot b o' \<longleftrightarrow> de_name_len b o' = 2 \<and> b ! (o' + 8) = 46 \<and> b ! (o' + 9) = 46"

text \<open>The comparison reads a name character behind the block.\<close>

definition dot_outside :: "byte list \<Rightarrow> nat \<Rightarrow> bool" where
  "dot_outside b o' \<longleftrightarrow>
     (de_name_len b o' = 1 \<or> de_name_len b o' = 2) \<and> o' + 9 > length b \<or>
     de_name_len b o' = 2 \<and> b ! (o' + 8) = 46 \<and> o' + 10 > length b"

function dir_only_dots :: "byte list \<Rightarrow> nat \<Rightarrow> bool option" where
  "dir_only_dots b offset =
     (if offset < length b then
        if offset + DE_HEADER > length b then None
        else if de_inode b offset \<noteq> 0 \<and> dot_outside b offset then None
        else if de_inode b offset \<noteq> 0 \<and> \<not> is_dot b offset \<and> \<not> is_dotdot b offset then Some False
        else if de_rec_len b offset = 0 then None
        else dir_only_dots b (offset + de_rec_len b offset)
      else Some True)"
  by pat_completeness auto
termination by (relation "measure (\<lambda>(b, offset). length b - offset)") auto

declare dir_only_dots.simps [simp del]

text \<open>The inner loop of \<open>ext2_readdir\<close>: the offset of the \<open>target\<close>-th used entry, or the number of used
  entries passed.\<close>

function dir_nth :: "byte list \<Rightarrow> nat \<Rightarrow> nat \<Rightarrow> nat \<Rightarrow> (nat + nat) option" where
  "dir_nth b target cur offset =
     (if offset < length b then
        if offset + DE_HEADER > length b then None
        else if de_inode b offset \<noteq> 0 \<and> cur = target then Some (Inl offset)
        else if de_rec_len b offset = 0 then None
        else dir_nth b target (if de_inode b offset \<noteq> 0 then cur + 1 else cur) (offset + de_rec_len b offset)
      else Some (Inr cur))"
  by pat_completeness auto
termination by (relation "measure (\<lambda>(b, target, cur, offset). length b - offset)") auto

declare dir_nth.simps [simp del]

section \<open>Entries of a directory\<close>

text \<open>The loop over the blocks of a directory, shared by all scans: blocks that are not mapped are
  skipped, a block that cannot be read ends the operation with -1, and \<open>f\<close> decides at each block
  whether the scan ends there.  \<open>Inl e\<close> is the end with result \<open>e\<close>, \<open>Inr a\<close> goes on with \<open>a\<close>.\<close>

function dir_blocks ::
  "'d driver \<Rightarrow> 'd ext2 \<Rightarrow> nat \<Rightarrow> (nat \<Rightarrow> byte list \<Rightarrow> 'a \<Rightarrow> ('e + 'a) option) \<Rightarrow> 'e \<Rightarrow> nat \<Rightarrow> nat \<Rightarrow> 'a \<Rightarrow> ('e + 'a) option" where
  "dir_blocks D s ip f fail blk blocks a =
     (if blk < blocks then
        let phys = ext2_bmap D s ip blk
        in if phys = 0 then dir_blocks D s ip f fail (blk + 1) blocks a
           else case ext2_read_block D s phys of
                  None \<Rightarrow> Some (Inl fail)
                | Some b \<Rightarrow>
                    (case f phys b a of
                       None \<Rightarrow> None
                     | Some (Inl e) \<Rightarrow> Some (Inl e)
                     | Some (Inr a') \<Rightarrow> dir_blocks D s ip f fail (blk + 1) blocks a')
      else Some (Inr a))"
  by pat_completeness auto
termination by (relation "measure (\<lambda>(D, s, ip, f, fail, blk, blocks, a). blocks - blk)") auto

declare dir_blocks.simps [simp del]

definition dir_block_count :: "'d ext2 \<Rightarrow> nat \<Rightarrow> nat" where
  "dir_block_count s ip = blocks_for s (v_size (vin s ip))"

text \<open>\<open>ext2_lookup\<close>: return value, the inode stored in the dentry, state.\<close>

definition ext2_lookup :: "'d driver \<Rightarrow> nat \<Rightarrow> byte list \<Rightarrow> 'd ext2 \<Rightarrow> (int \<times> nat option \<times> 'd ext2) option" where
  "ext2_lookup D dir name s =
     do { r \<leftarrow> dir_blocks D s dir
                (\<lambda>_ b a. map_option (\<lambda>r. case r of None \<Rightarrow> Inr a | Some ino \<Rightarrow> Inl (Some ino)) (dir_find name b 0))
                None 0 (dir_block_count s dir) ();
          case r of
            Inl (Some ino) \<Rightarrow>
              do { (child, s) \<leftarrow> ext2_iget D ino s;
                   Some (case child of None \<Rightarrow> (-1, None, s) | Some ip \<Rightarrow> (0, Some ip, s)) }
          | _ \<Rightarrow> Some (-1, None, s) }"

text \<open>\<open>ext2_dir_add_entry\<close>: the first entry with room takes the name, otherwise a new block does.\<close>

definition ext2_dir_add_entry ::
  "'d driver \<Rightarrow> nat \<Rightarrow> byte list \<Rightarrow> nat \<Rightarrow> byte \<Rightarrow> 'd ext2 \<Rightarrow> (int \<times> 'd ext2) option" where
  "ext2_dir_add_entry D dir name ino ft s =
     do { r \<leftarrow> dir_blocks D s dir
                (\<lambda>phys b a. map_option (\<lambda>r. case r of None \<Rightarrow> Inr a | Some b' \<Rightarrow> Inl (Some (phys, b')))
                              (dir_insert name ino ft b 0))
                None 0 (dir_block_count s dir) ();
          case r of
            Inl None \<Rightarrow> Some (-1, s)
          | Inl (Some (phys, b')) \<Rightarrow>
              (case ext2_write_block D s phys b' of (True, s) \<Rightarrow> Some (0, s) | (False, s) \<Rightarrow> Some (-1, s))
          | Inr _ \<Rightarrow>
              let (phys, _, s1) = ext2_bmap_alloc D dir (dir_block_count s dir) s
              in if phys = NEG1 then Some (-1, s1)
                 else if 8 + length name > fs_block_size s1 then None
                 else
                   let b = set_de 0 ino name ft (put16 (replicate (fs_block_size s1) 0) 4 (u16 (fs_block_size s1)))
                   in case ext2_write_block D s1 phys b of
                        (False, s2) \<Rightarrow> Some (-1, s2)
                      | (True, s2) \<Rightarrow>
                          do { let s3 = upd_size dir (u64 (v_size (vin s2 dir) + fs_block_size s2)) s2;
                               let s4 = upd_ei dir (set_i_size (v_size (vin s3 dir))) s3;
                               (_, s5) \<leftarrow> ext2_write_inode D (v_ino (vin s4 dir)) (v_ei (vin s4 dir)) s4;
                               Some (0, s5) } }"

definition ext2_dir_remove_entry :: "'d driver \<Rightarrow> nat \<Rightarrow> nat \<Rightarrow> 'd ext2 \<Rightarrow> (int \<times> 'd ext2) option" where
  "ext2_dir_remove_entry D dir ino s =
     do { r \<leftarrow> dir_blocks D s dir
                (\<lambda>phys b a. map_option (\<lambda>r. case r of None \<Rightarrow> Inr a | Some b' \<Rightarrow> Inl (Some (phys, b')))
                              (dir_delete ino b None 0))
                None 0 (dir_block_count s dir) ();
          case r of
            Inl (Some (phys, b')) \<Rightarrow>
              (case ext2_write_block D s phys b' of (True, s) \<Rightarrow> Some (0, s) | (False, s) \<Rightarrow> Some (-1, s))
          | _ \<Rightarrow> Some (-1, s) }"

section \<open>Operations on names\<close>

text \<open>The fresh disk inode of \<open>ext2_create\<close> and \<open>ext2_mkdir\<close>.\<close>

definition fresh_ei :: "nat \<Rightarrow> nat \<Rightarrow> nat \<Rightarrow> byte list" where
  "fresh_ei mode links t =
     set_i_links_count links (set_i_atime t (set_i_ctime t (set_i_mtime t (set_i_mode mode (replicate inode_sizeof 0)))))"

definition touch_dir :: "'d driver \<Rightarrow> nat \<Rightarrow> (nat \<Rightarrow> byte list \<Rightarrow> byte list) \<Rightarrow> 'd ext2 \<Rightarrow> (int \<times> 'd ext2) option" where
  "touch_dir D dir f s =
     do { let (t, s) = get_time s;
          let s = upd_ei dir (f t) s;
          ext2_write_inode D (v_ino (vin s dir)) (v_ei (vin s dir)) s }"

text \<open>\<open>ext2_create\<close>: return value, the inode stored in the dentry, state.\<close>

definition ext2_create :: "'d driver \<Rightarrow> nat \<Rightarrow> byte list \<Rightarrow> nat \<Rightarrow> 'd ext2 \<Rightarrow> (int \<times> nat option \<times> 'd ext2) option" where
  "ext2_create D dir name mode s =
     (let (ino, s) = ext2_alloc_inode D s
      in if ino = NEG1 then Some (-1, None, s)
         else do { let (t, s) = get_time s;
                   (r, s) \<leftarrow> ext2_write_inode D ino (fresh_ei (or mode S_IFREG) 1 t) s;
                   if r < 0 then Some (-1, None, ext2_free_inode D ino s)
                   else do { (r, s) \<leftarrow> ext2_dir_add_entry D dir name ino EXT2_FT_REG_FILE s;
                             if r < 0 then Some (-1, None, ext2_free_inode D ino s)
                             else do { (child, s) \<leftarrow> ext2_iget D ino s;
                                       case child of
                                         None \<Rightarrow> Some (-1, None, ext2_free_inode D ino s)
                                       | Some ip \<Rightarrow>
                                           do { (_, s) \<leftarrow> touch_dir D dir set_i_mtime s;
                                                Some (0, Some ip, s) } } } })"

text \<open>The first block of a new directory.\<close>

definition dot_block :: "nat \<Rightarrow> nat \<Rightarrow> nat \<Rightarrow> byte list" where
  "dot_block bs ino parent =
     set_de 12 parent [46, 46] EXT2_FT_DIR
       (put16 (set_de 0 ino [46] EXT2_FT_DIR (put16 (replicate bs 0) 4 12)) 16 (u16 (bs - 12)))"

text \<open>The error exits of \<open>ext2_mkdir\<close>: the block goes back to the bitmap, the in-memory inode is dropped
  with its operations removed, so that \<open>inode_put\<close> does not delete it on the disk, and the inode number
  is freed.\<close>

definition mkdir_undo :: "'d driver \<Rightarrow> nat option \<Rightarrow> nat \<Rightarrow> 'd ext2 \<Rightarrow> (int \<times> nat option \<times> 'd ext2) option" where
  "mkdir_undo D phys ino s =
     (let s = (case phys of None \<Rightarrow> s | Some b \<Rightarrow> ext2_free_block D b s)
      in Some (-1, None, ext2_free_inode D ino s))"

definition ext2_mkdir :: "'d driver \<Rightarrow> nat \<Rightarrow> byte list \<Rightarrow> nat \<Rightarrow> 'd ext2 \<Rightarrow> (int \<times> nat option \<times> 'd ext2) option" where
  "ext2_mkdir D dir name mode s =
     (let (ino, s) = ext2_alloc_inode D s
      in if ino = NEG1 then Some (-1, None, s)
         else
           let (t, s) = get_time s;
               (ip, s) = ext2_create_VFS_inode (fresh_ei (or mode S_IFDIR) 2 t) ino s;
               (phys, _, s) = ext2_bmap_alloc D ip 0 s
           in if phys = NEG1 then mkdir_undo D None ino s
              else
                let (ok, s) = ext2_write_block D s phys (dot_block (fs_block_size s) ino (v_ino (vin s dir)))
                in if \<not> ok then mkdir_undo D (Some phys) ino s
                   else do { let s = upd_size ip (fs_block_size s) s;
                             let s = upd_ei ip (\<lambda>ei. set_i_blocks (fs_block_size s div 512) (set_i_size (fs_block_size s) ei)) s;
                             (r, s) \<leftarrow> ext2_write_inode D ino (v_ei (vin s ip)) s;
                             if r < 0 then mkdir_undo D (Some phys) ino s
                             else do { (r, s) \<leftarrow> ext2_dir_add_entry D dir name ino EXT2_FT_DIR s;
                                       if r < 0 then mkdir_undo D (Some phys) ino s
                                       else do { (_, s) \<leftarrow> touch_dir D dir
                                                   (\<lambda>t ei. set_i_links_count (u16 (i_links_count ei + 1))
                                                             (set_i_ctime t (set_i_mtime t ei))) s;
                                                 let s = upd_gd (sub32 ino 1 div s_inodes_per_group (es s))
                                                   (\<lambda>d. d\<lparr>bg_used_dirs_count := u16 (bg_used_dirs_count d + 1)\<rparr>) s;
                                                 Some (0, Some ip, s) } } })"

definition ext2_unlink :: "'d driver \<Rightarrow> nat \<Rightarrow> nat \<Rightarrow> 'd ext2 \<Rightarrow> (int \<times> 'd ext2) option" where
  "ext2_unlink D dir ip s =
     (if S_ISDIR (v_mode (vin s ip)) then Some (-1, s)
      else do { (r, s) \<leftarrow> ext2_dir_remove_entry D dir (v_ino (vin s ip)) s;
                if r < 0 then Some (-1, s)
                else do { let s = upd_ei ip (\<lambda>ei. set_i_links_count (sub16 (i_links_count ei) 1) ei) s;
                          (r, s) \<leftarrow> ext2_write_inode D (v_ino (vin s ip)) (v_ei (vin s ip)) s;
                          if r < 0 then Some (-1, s)
                          else do { (_, s) \<leftarrow> touch_dir D dir set_i_mtime s; Some (0, s) } } })"

definition ext2_rmdir :: "'d driver \<Rightarrow> nat \<Rightarrow> nat \<Rightarrow> 'd ext2 \<Rightarrow> (int \<times> 'd ext2) option" where
  "ext2_rmdir D dir ip s =
     (if \<not> S_ISDIR (v_mode (vin s ip)) then Some (-1, s)
      else do { r \<leftarrow> dir_blocks D s ip
                      (\<lambda>_ b a. map_option (\<lambda>e. if e then Inr a else Inl ()) (dir_only_dots b 0))
                      () 0 (dir_block_count s ip) ();
                case r of
                  Inl _ \<Rightarrow> Some (-1, s)
                | Inr _ \<Rightarrow>
                    do { (r, s) \<leftarrow> ext2_dir_remove_entry D dir (v_ino (vin s ip)) s;
                         if r < 0 then Some (-1, s)
                         else do { let s = upd_ei ip (\<lambda>ei. set_i_links_count (sub16 (i_links_count ei) 1) ei) s;
                                   (r, s) \<leftarrow> ext2_write_inode D (v_ino (vin s ip)) (v_ei (vin s ip)) s;
                                   if r < 0 then Some (-1, s)
                                   else do { (_, s) \<leftarrow> touch_dir D dir
                                               (\<lambda>t ei. set_i_links_count (sub16 (i_links_count ei) 1)
                                                         (set_i_ctime t (set_i_mtime t ei))) s;
                                             Some (0, upd_gd (sub32 (v_ino (vin s ip)) 1 div s_inodes_per_group (es s))
                                               (\<lambda>d. d\<lparr>bg_used_dirs_count := sub16 (bg_used_dirs_count d) 1\<rparr>) s) } } } })"

text \<open>The last step of \<open>ext2_rename\<close>: the \<open>..\<close> entry of a moved directory.\<close>

definition retarget_dotdot :: "'d driver \<Rightarrow> nat \<Rightarrow> nat \<Rightarrow> 'd ext2 \<Rightarrow> 'd ext2 option" where
  "retarget_dotdot D ip parent s =
     (let phys = ext2_bmap D s ip 0
      in if phys = 0 then Some s
         else case ext2_read_block D s phys of
                None \<Rightarrow> Some s
              | Some b \<Rightarrow>
                  let o' = de_rec_len b 0
                  in if o' + DE_HEADER > length b \<or> dot_outside b o' then None
                     else if is_dotdot b o' then Some (snd (ext2_write_block D s phys (put32 b o' parent)))
                     else Some s)"

text \<open>\<open>ext2_rename\<close> of \<open>ip\<close> from the name \<open>old_name\<close> in \<open>old_dir\<close> to \<open>new_name\<close> in \<open>new_dir\<close>; the
  two directories may be the same inode.\<close>

definition ext2_rename ::
  "'d driver \<Rightarrow> nat \<Rightarrow> byte list \<Rightarrow> nat \<Rightarrow> nat \<Rightarrow> byte list \<Rightarrow> 'd ext2 \<Rightarrow> (int \<times> 'd ext2) option" where
  "ext2_rename D old_dir old_name ip new_dir new_name s =
     (let ino = v_ino (vin s ip);
          isdir = S_ISDIR (v_mode (vin s ip));
          ft = (if isdir then EXT2_FT_DIR else EXT2_FT_REG_FILE)
      in do { (r, s) \<leftarrow> ext2_dir_remove_entry D old_dir ino s;
              if r < 0 then Some (r, s)
              else do { (r, s) \<leftarrow> ext2_dir_add_entry D new_dir new_name ino ft s;
                        if r < 0
                        then do { (_, s) \<leftarrow> ext2_dir_add_entry D old_dir old_name ino ft s; Some (r, s) }
                        else do { let s = (if isdir \<and> old_dir \<noteq> new_dir
                                           then upd_ei new_dir (\<lambda>ei. set_i_links_count (u16 (i_links_count ei + 1)) ei)
                                                  (upd_ei old_dir (\<lambda>ei. set_i_links_count (sub16 (i_links_count ei) 1) ei) s)
                                           else s);
                                  let (t, s) = get_time s;
                                  let s = upd_ei new_dir (\<lambda>ei. set_i_ctime t (set_i_mtime t ei))
                                            (upd_ei old_dir (\<lambda>ei. set_i_ctime t (set_i_mtime t ei)) s);
                                  (_, s) \<leftarrow> ext2_write_inode D (v_ino (vin s old_dir)) (v_ei (vin s old_dir)) s;
                                  (_, s) \<leftarrow> ext2_write_inode D (v_ino (vin s new_dir)) (v_ei (vin s new_dir)) s;
                                  s \<leftarrow> (if isdir \<and> old_dir \<noteq> new_dir
                                        then retarget_dotdot D ip (v_ino (vin s new_dir)) s else Some s);
                                  Some (0, s) } } })"

text \<open>\<open>ext2_readdir\<close> of the entry with index \<open>pos\<close>: return value, the entry (inode number, type, name)
  and the new position.\<close>

definition dirent_sizeof :: nat where "dirent_sizeof = 16"

definition DT_of :: "byte \<Rightarrow> nat" where
  "DT_of ft =
     (if ft = 1 then 1 else if ft = 2 then 2 else if ft = 3 then 3 else if ft = 4 then 4 else if ft = 5 then 5
      else if ft = 6 then 6 else if ft = 7 then 7 else 0)"

definition ext2_readdir ::
  "'d driver \<Rightarrow> 'd ext2 \<Rightarrow> nat \<Rightarrow> nat \<Rightarrow> nat \<Rightarrow> (int \<times> (nat \<times> nat \<times> byte list) option \<times> nat) option" where
  "ext2_readdir D s ip pos count =
     do { r \<leftarrow> dir_blocks D s ip
                (\<lambda>_ b cur. map_option (\<lambda>r. case r of Inl off \<Rightarrow> Inl (Some (b, off)) | Inr cur' \<Rightarrow> Inr cur')
                             (dir_nth b (u32 pos) cur 0))
                None 0 (dir_block_count s ip) 0;
          case r of
            Inl (Some (b, off)) \<Rightarrow>
              if u16 (dirent_sizeof + de_name_len b off + 1) > count then Some (-1, None, pos)
              else if off + 8 + de_name_len b off > length b then None
              else Some (0, Some (de_inode b off, DT_of (de_file_type b off), de_name b off), u32 (u32 pos + 1))
          | _ \<Rightarrow> Some (-1, None, pos) }"

end
