(* ===== verification/Ext2Rw.thy ===== *)
theory Ext2Rw
  imports Ext2File
begin

text \<open>
  Reading and writing regular files of ext2: \<open>file_byte s ip q\<close> is byte \<open>q\<close> of the file, 0 in a hole.
  \<open>ext2_read\<close> returns these bytes; \<open>ext2_write\<close> stores the bytes it is given, brings the inode up to date in
  memory and on the disk, and changes no other block that is in use.
\<close>

context ext2_volume
begin

definition file_byte :: "'d ext2 \<Rightarrow> nat \<Rightarrow> nat \<Rightarrow> byte" where
  "file_byte s ip q =
     (let b = node s ip (Data (q div bs)) in if b = 0 then 0 else blk_at s b ! (q mod bs))"

section \<open>Reading\<close>

lemma block_pos:
  assumes "k < bs - q mod bs"
  shows "(q + k) div bs = q div bs" "(q + k) mod bs = q mod bs + k"
proof -
  have lt: "q mod bs + k < bs" using assms by simp
  have e: "q + k = (q mod bs + k) + q div bs * bs" by simp
  have "((q mod bs + k) + x * bs) div bs = x" "((q mod bs + k) + x * bs) mod bs = q mod bs + k" for x
    using lt by simp_all
  from this [of "q div bs"] show "(q + k) div bs = q div bs" "(q + k) mod bs = q mod bs + k"
    unfolding e [symmetric] .
qed

lemma lim_u32: "dind_limit s \<le> 4294967295"
proof -
  have "dind_limit s < 4294967296" by (simp add: dind_limit_def)
  then show ?thesis by simp
qed

text \<open>A piece of a file inside one block.\<close>

definition block_of :: "'d ext2 \<Rightarrow> nat \<Rightarrow> nat \<Rightarrow> byte list" where
  "block_of s ip lb = (let b = node s ip (Data lb) in if b = 0 then replicate bs 0 else blk_at s b)"

lemma length_block_of: "file_inv meta s ip \<Longrightarrow> valid (Data lb) \<Longrightarrow> length (block_of s ip lb) = bs"
  using length_blk file_inv_vol file_inv_node(1) by (simp add: block_of_def Let_def)

lemma file_byte_block: "file_byte s ip q = block_of s ip (q div bs) ! (q mod bs)"
  using bs_pos by (simp add: file_byte_def block_of_def Let_def)

lemma slice_file:
  assumes "file_inv meta s ip" "valid (Data (q div bs))" "n \<le> bs - q mod bs"
  shows "slice (block_of s ip (q div bs)) (q mod bs) n = map (file_byte s ip) [q..<q + n]"
proof (rule nth_equalityI)
  have le: "q mod bs + n \<le> length (block_of s ip (q div bs))"
    using length_block_of [OF assms(1,2)] assms(3) bs_pos mod_less_divisor [of bs q] by linarith
  then show len: "length (slice (block_of s ip (q div bs)) (q mod bs) n) = length (map (file_byte s ip) [q..<q + n])"
    by simp
  fix k
  assume "k < length (slice (block_of s ip (q div bs)) (q mod bs) n)"
  then have k: "k < n" using le by simp
  then have "k < bs - q mod bs" using assms(3) by simp
  from block_pos [OF this] show "slice (block_of s ip (q div bs)) (q mod bs) n ! k = map (file_byte s ip) [q..<q + n] ! k"
    using k le by (simp add: file_byte_block)
qed

lemma read_loop_ok:
  assumes "file_inv meta s ip" "pos + count \<le> dind_limit s * bs"
  shows "read_loop D s ip pos count acc = Some (True, acc @ map (file_byte s ip) [pos..<pos + count], pos + count)"
  using assms(2)
proof (induction count arbitrary: pos acc rule: less_induct)
  case (less count)
  have fb: "fs_block_size s = bs" using file_inv_vol [OF assms(1)] by (simp add: on_vol_def)
  show ?case
  proof (cases "count = 0")
    case True
    then show ?thesis by (subst read_loop.simps) simp
  next
    case False
    let ?n = "min (bs - pos mod bs) count" and ?lb = "pos div bs"
    have n: "0 < ?n" "?n \<le> count" "?n \<le> bs - pos mod bs" using False bs_pos by simp_all
    have "pos < dind_limit s * bs" using less.prems False by simp
    then have lb: "?lb < dind_limit s" by (simp add: less_mult_imp_div_less)
    then have u: "u32 ?lb = ?lb" using lim_u32 [of s] by (intro u32_id) simp
    have v: "valid (Data ?lb)" by (rule valid_data [OF file_inv_vol [OF assms(1)] lb])
    note nd = file_inv_node(1) [OF assms(1) v]
    have bm: "ext2_bmap D s ip ?lb = node s ip (Data ?lb)" by (rule bmap_node [OF assms(1) lb])
    have ne: "node s ip (Data ?lb) \<noteq> NEG1" using nd nblk_small by (fastforce simp: NEG1_def)
    have rd: "(if node s ip (Data ?lb) = 0 then Some (replicate bs 0) else ext2_read_block D s (node s ip (Data ?lb))) =
        Some (block_of s ip ?lb)"
      using read_block [OF file_inv_vol [OF assms(1)] nd] by (simp add: block_of_def Let_def)
    have step: "read_loop D s ip pos count acc =
        read_loop D s ip (pos + ?n) (count - ?n) (acc @ slice (block_of s ip ?lb) (pos mod bs) ?n)"
      using False bs_pos ne rd by (subst read_loop.simps, cases "node s ip (Data ?lb) = 0") (simp_all add: fb u bm Let_def)
    have "read_loop D s ip (pos + ?n) (count - ?n) (acc @ slice (block_of s ip ?lb) (pos mod bs) ?n) =
        Some (True, (acc @ slice (block_of s ip ?lb) (pos mod bs) ?n) @ map (file_byte s ip) [pos + ?n..<pos + count], pos + count)"
      using less.IH [of "count - ?n" "pos + ?n"] n less.prems by simp
    moreover have "[pos..<pos + count] = [pos..<pos + ?n] @ [pos + ?n..<pos + count]"
      using n(2) upt_add_eq_append [of pos "pos + ?n" "count - ?n"] by simp
    ultimately show ?thesis using step slice_file [OF assms(1) v n(3)] by simp
  qed
qed

lemma read_ok:
  assumes "file_inv meta s ip" "v_size (vin s ip) \<le> dind_limit s * bs" "pos + len < 18446744073709551616"
  shows "ext2_read D s ip len pos =
    (let stop = min (pos + len) (v_size (vin s ip))
     in if pos < v_size (vin s ip) then Some (int (stop - pos), map (file_byte s ip) [pos..<stop], stop) else Some (0, [], pos))"
proof (cases "pos < v_size (vin s ip)")
  case True
  define count where "count = (if pos + len > v_size (vin s ip) then v_size (vin s ip) - pos else len)"
  have st: "pos + count = min (pos + len) (v_size (vin s ip))" using True by (simp add: count_def)
  have "pos + count \<le> dind_limit s * bs" using assms(2) st by linarith
  from read_loop_ok [OF assms(1) this, of "[]"] show ?thesis
    using True assms(3) by (simp add: ext2_read_def count_def [symmetric] Let_def width st [symmetric])
qed (simp add: ext2_read_def Let_def)

section \<open>Writing\<close>

text \<open>The byte \<open>q\<close> of the file if the blocks that it has in \<open>s'\<close> had the content they have in \<open>s\<close>: where \<open>s'\<close> has a
  new block, this is what was on the disk there.\<close>

definition earlier_byte :: "'d ext2 \<Rightarrow> 'd ext2 \<Rightarrow> nat \<Rightarrow> nat \<Rightarrow> byte" where
  "earlier_byte s s' ip q =
     (let b = node s' ip (Data (q div bs)) in if b = 0 then 0 else blk_at s b ! (q mod bs))"

text \<open>From \<open>s\<close> to \<open>s'\<close> the bytes \<open>d\<close> were stored at position \<open>pos\<close>, allocating blocks of the file at logical
  blocks of \<open>B\<close> only.\<close>

definition stored :: "nat set \<Rightarrow> nat \<Rightarrow> nat \<Rightarrow> byte list \<Rightarrow> nat set \<Rightarrow> 'd ext2 \<Rightarrow> 'd ext2 \<Rightarrow> bool" where
  "stored meta ip pos d B s s' \<longleftrightarrow>
     file_inv meta s' ip \<and> geometry s' = geometry s \<and> vframe ip s s' \<and> (\<forall>x. is_free s' x \<longrightarrow> is_free s x) \<and>
     (\<forall>t. valid t \<longrightarrow> node s' ip t = node s ip t \<or> node s ip t = 0 \<and> is_free s (node s' ip t)) \<and>
     (\<forall>lb. valid (Data lb) \<and> lb \<notin> B \<longrightarrow> node s' ip (Data lb) = node s ip (Data lb)) \<and>
     (\<forall>q. pos \<le> q \<and> q < pos + length d \<longrightarrow> node s' ip (Data (q div bs)) \<noteq> 0 \<and> file_byte s' ip q = d ! (q - pos)) \<and>
     (\<forall>q. valid (Data (q div bs)) \<and> \<not> (pos \<le> q \<and> q < pos + length d) \<longrightarrow> file_byte s' ip q = earlier_byte s s' ip q) \<and>
     (\<forall>x. x \<notin> meta \<and> x \<noteq> 0 \<and> (\<forall>t. valid t \<longrightarrow> node s' ip t \<noteq> x) \<longrightarrow> blk_at s' x = blk_at s x) \<and>
     (\<forall>x. is_free s x \<and> \<not> is_free s' x \<longrightarrow> (\<exists>lb\<in>B. \<exists>t\<in>path lb. valid t \<and> node s' ip t = x))"

lemma storedI:
  assumes "file_inv meta s' ip" "geometry s' = geometry s" "vframe ip s s'" "\<And>x. is_free s' x \<Longrightarrow> is_free s x"
    "\<And>t. valid t \<Longrightarrow> node s' ip t = node s ip t \<or> node s ip t = 0 \<and> is_free s (node s' ip t)"
    "\<And>lb. valid (Data lb) \<Longrightarrow> lb \<notin> B \<Longrightarrow> node s' ip (Data lb) = node s ip (Data lb)"
    "\<And>q. pos \<le> q \<Longrightarrow> q < pos + length d \<Longrightarrow> node s' ip (Data (q div bs)) \<noteq> 0"
    "\<And>q. pos \<le> q \<Longrightarrow> q < pos + length d \<Longrightarrow> file_byte s' ip q = d ! (q - pos)"
    "\<And>q. valid (Data (q div bs)) \<Longrightarrow> \<not> (pos \<le> q \<and> q < pos + length d) \<Longrightarrow> file_byte s' ip q = earlier_byte s s' ip q"
    "\<And>x. x \<notin> meta \<Longrightarrow> x \<noteq> 0 \<Longrightarrow> \<forall>t. valid t \<longrightarrow> node s' ip t \<noteq> x \<Longrightarrow> blk_at s' x = blk_at s x"
    "\<And>x. is_free s x \<Longrightarrow> \<not> is_free s' x \<Longrightarrow> \<exists>lb\<in>B. \<exists>t\<in>path lb. valid t \<and> node s' ip t = x"
  shows "stored meta ip pos d B s s'"
  unfolding stored_def using assms by simp

lemma storedD:
  assumes "stored meta ip pos d B s s'"
  shows "file_inv meta s' ip" "geometry s' = geometry s" "vframe ip s s'" "is_free s' x \<Longrightarrow> is_free s x"
    "valid t \<Longrightarrow> node s' ip t = node s ip t \<or> node s ip t = 0 \<and> is_free s (node s' ip t)"
    "valid (Data lb) \<Longrightarrow> lb \<notin> B \<Longrightarrow> node s' ip (Data lb) = node s ip (Data lb)"
    "pos \<le> q \<Longrightarrow> q < pos + length d \<Longrightarrow> node s' ip (Data (q div bs)) \<noteq> 0"
    "pos \<le> q \<Longrightarrow> q < pos + length d \<Longrightarrow> file_byte s' ip q = d ! (q - pos)"
    "valid (Data (q div bs)) \<Longrightarrow> \<not> (pos \<le> q \<and> q < pos + length d) \<Longrightarrow> file_byte s' ip q = earlier_byte s s' ip q"
    "x \<notin> meta \<Longrightarrow> x \<noteq> 0 \<Longrightarrow> \<forall>t. valid t \<longrightarrow> node s' ip t \<noteq> x \<Longrightarrow> blk_at s' x = blk_at s x"
    "is_free s x \<Longrightarrow> \<not> is_free s' x \<Longrightarrow> \<exists>lb\<in>B. \<exists>t\<in>path lb. valid t \<and> node s' ip t = x"
  using assms unfolding stored_def by simp_all

text \<open>What follows for bytes in blocks that were there before, and for blocks of other files.\<close>

lemma stored_byte:
  assumes st: "stored meta ip pos d B s s'" and q: "valid (Data (q div bs))" "\<not> (pos \<le> q \<and> q < pos + length d)"
    and n: "node s ip (Data (q div bs)) \<noteq> 0 \<or> q div bs \<notin> B"
  shows "file_byte s' ip q = file_byte s ip q"
proof -
  have "node s' ip (Data (q div bs)) = node s ip (Data (q div bs))" using storedD(5,6) [OF st q(1)] n by blast
  then show ?thesis using storedD(9) [OF st q] by (simp add: earlier_byte_def file_byte_def)
qed

lemma stored_block:
  assumes "stored meta ip pos d B s s'" "x \<notin> meta" "x \<noteq> 0" "\<not> is_free s x" "\<forall>t. valid t \<longrightarrow> node s ip t \<noteq> x"
  shows "blk_at s' x = blk_at s x"
  using storedD(5,10) [OF assms(1)] assms(2-5) by metis

lemma not_free_0: "file_inv meta s ip \<Longrightarrow> \<not> is_free s 0"
  using zero_not_free by (auto simp: file_inv_def)

lemma file_inv_inj: "file_inv meta s ip \<Longrightarrow> valid t \<Longrightarrow> valid u \<Longrightarrow> node s ip t \<noteq> 0 \<Longrightarrow> node s ip t = node s ip u \<Longrightarrow> t = u"
  unfolding file_inv_def by blast

lemma data_no_pointer:
  assumes inv: "file_inv meta s ip" and v: "valid (Data lb)" and nz: "node s ip (Data lb) \<noteq> 0"
  shows "node s ip (Data lb) \<notin> ptrs s ip"
proof
  assume "node s ip (Data lb) \<in> ptrs s ip"
  then obtain u where u: "valid u" "is_pointer u" "node s ip u = node s ip (Data lb)" by (auto simp: ptrs_def)
  then have "u = Data lb" using file_inv_inj [OF inv u(1) v] nz by simp
  then show False using u(2) by (simp add: is_pointer_def)
qed

lemma stored_nil:
  assumes g: "grows meta ip T s s1" and inv: "file_inv meta s ip" and T: "T \<subseteq> (\<Union>lb\<in>B. path lb)"
  shows "stored meta ip pos [] B s s1"
proof (rule storedI)
  have inv1: "file_inv meta s1 ip" by (rule growsD(1) [OF g])
  have "Data lb \<in> path l \<Longrightarrow> lb = l" for lb l by (simp add: path_def)
  then have T': "Data lb \<notin> T" if "lb \<notin> B" for lb using T that by blast
  show "file_byte s1 ip q = earlier_byte s s1 ip q" if "valid (Data (q div bs))" for q
    using growsD(8) [OF g file_inv_node(2) [OF inv1 that] data_no_pointer [OF inv1 that]]
    by (simp add: file_byte_def earlier_byte_def Let_def)
  show "node s1 ip (Data lb) = node s ip (Data lb)" if "valid (Data lb)" "lb \<notin> B" for lb
    using growsD(5) [OF g that(1)] T' [OF that(2)] by blast
  show "blk_at s1 x = blk_at s x" if "x \<notin> meta" "\<forall>t. valid t \<longrightarrow> node s1 ip t \<noteq> x" for x
    using growsD(8) [OF g that(1)] that(2) by (auto simp: ptrs_def)
  show "file_inv meta s1 ip" "geometry s1 = geometry s" "vframe ip s s1" "is_free s1 x \<Longrightarrow> is_free s x" for x
    using growsD(1-4) [OF g] by blast+
  show "node s1 ip t = node s ip t \<or> node s ip t = 0 \<and> is_free s (node s1 ip t)" if "valid t" for t
    using growsD(5) [OF g that] by blast
  show "\<exists>lb\<in>B. \<exists>t\<in>path lb. valid t \<and> node s1 ip t = x" if "is_free s x" "\<not> is_free s1 x" for x
    using growsD(6) [OF g that] T by blast
qed simp_all

text \<open>Overwriting a mapped data block.\<close>

lemma write_mapped:
  assumes inv: "file_inv meta s ip" and v: "valid (Data lb)" and nz: "node s ip (Data lb) \<noteq> 0" and len: "length buf = bs"
  obtains s' where "ext2_write_block D s (node s ip (Data lb)) buf = (True, s')" "file_inv meta s' ip" "geometry s' = geometry s"
    "vframe ip s s'" "is_free s' = is_free s" "\<And>t. valid t \<Longrightarrow> node s' ip t = node s ip t"
    "\<And>l. valid (Data l) \<Longrightarrow> block_of s' ip l = (if l = lb then buf else block_of s ip l)"
    "\<And>x. x \<noteq> node s ip (Data lb) \<Longrightarrow> blk_at s' x = blk_at s x"
proof -
  let ?b = "node s ip (Data lb)"
  have ai: "alloc_inv meta s" using inv by (simp add: file_inv_def)
  obtain s' where w: "ext2_write_block D s ?b buf = (True, s')" "alloc_inv meta s'" "geometry s' = geometry s"
    "is_free s' = is_free s" "same_mem s s'" "es s' = es s" "\<And>x. blk_at s' x = (if x = ?b then buf else blk_at s x)"
    using write_data [OF ai file_inv_node(1,2) [OF inv v nz] len] by metis
  have inj: "t = u" if "valid t" "valid u" "node s ip t \<noteq> 0" "node s ip t = node s ip u" for t u
    by (rule file_inv_inj [OF inv that])
  have nodes: "node s' ip t = node s ip t" if t: "valid t" for t
  proof (rule node_same [OF _ _ t])
    show "i_block (v_ei (vin s' ip)) k = i_block (v_ei (vin s ip)) k" for k using w(5) by (simp add: same_mem_def)
    show "blk_at s' b = blk_at s b" if b: "b \<in> ptrs s ip" for b
    proof -
      obtain u where "valid u" "is_pointer u" "node s ip u = b" "b \<noteq> 0" using b by (auto simp: ptrs_def)
      then have "b \<noteq> ?b" using inj [of u "Data lb"] v by (auto simp: is_pointer_def)
      then show ?thesis by (simp add: w(7))
    qed
  qed
  have blk: "block_of s' ip l = (if l = lb then buf else block_of s ip l)" if l: "valid (Data l)" for l
  proof -
    have "node s ip (Data l) = ?b \<longleftrightarrow> l = lb" using inj [OF v l nz] by (metis tnode.inject(2))
    then show ?thesis using nodes [OF l] nz by (auto simp: block_of_def Let_def w(7))
  qed
  have "file_inv meta s' ip"
    using inv w(2,4,5) nodes by (simp add: file_inv_def same_mem_def cong: conj_cong)
  from that [OF w(1) this w(3) vframe_mem [OF w(5)] w(4) nodes blk] show ?thesis by (simp add: w(7))
qed

lemma nth_split: "pos \<le> q \<Longrightarrow> (d1 @ d2) ! (q - pos) = (if q < pos + length d1 then d1 ! (q - pos) else d2 ! (q - (pos + length d1)))"
proof -
  assume "pos \<le> q"
  then have "q - pos < length d1 \<longleftrightarrow> q < pos + length d1" by linarith
  then show ?thesis by (simp add: nth_append)
qed

lemma earlier_trans:
  assumes a: "stored meta ip pos d1 B s s1" and b: "stored meta ip pos' d2 B s1 s2"
    and q: "valid (Data (q div bs))" "\<not> (pos \<le> q \<and> q < pos + length d1)"
  shows "earlier_byte s1 s2 ip q = earlier_byte s s2 ip q"
proof -
  let ?b = "node s2 ip (Data (q div bs))"
  have inv1: "file_inv meta s1 ip" by (rule storedD(1) [OF a])
  consider (none) "?b = 0" | (there) "?b \<noteq> 0" "node s1 ip (Data (q div bs)) = ?b" | (new) "?b \<noteq> 0" "is_free s1 ?b"
    using storedD(5) [OF b q(1)] by metis
  then show ?thesis
  proof cases
    case none
    then show ?thesis by (simp add: earlier_byte_def)
  next
    case there
    then show ?thesis using storedD(9) [OF a q] by (simp add: file_byte_def earlier_byte_def Let_def)
  next
    case new
    have "\<forall>t. valid t \<longrightarrow> node s1 ip t \<noteq> ?b" using file_inv_node(3) [OF inv1] new by metis
    from storedD(10) [OF a file_inv_node(2) [OF storedD(1) [OF b] q(1) new(1)] new(1) this] show ?thesis
      by (simp add: earlier_byte_def Let_def)
  qed
qed

lemma stored_trans:
  assumes a: "stored meta ip pos d1 B s s1" and b: "stored meta ip (pos + length d1) d2 B s1 s2"
    and inv: "file_inv meta s ip" and v: "\<And>q. pos \<le> q \<Longrightarrow> q < pos + length d1 \<Longrightarrow> valid (Data (q div bs))"
  shows "stored meta ip pos (d1 @ d2) B s s2"
proof (rule storedI)
  note A = storedD [OF a] and C = storedD [OF b]
  have z: "\<not> is_free s 0" by (rule not_free_0 [OF inv])
  show "file_inv meta s2 ip" by (rule C(1))
  show "geometry s2 = geometry s" using A(2) C(2) by simp
  show "vframe ip s s2" by (rule vframe_trans [OF A(3) C(3)])
  show "is_free s2 x \<Longrightarrow> is_free s x" for x using A(4) C(4) by blast
  show "node s2 ip t = node s ip t \<or> node s ip t = 0 \<and> is_free s (node s2 ip t)" if "valid t" for t
    using A(4) A(5) [OF that] C(5) [OF that] z by metis
  show "node s2 ip (Data lb) = node s ip (Data lb)" if "valid (Data lb)" "lb \<notin> B" for lb
    using A(6) [OF that] C(6) [OF that] by simp
  have in1: "node s2 ip (Data (q div bs)) \<noteq> 0 \<and> file_byte s2 ip q = d1 ! (q - pos)"
    if q: "pos \<le> q" "q < pos + length d1" for q
  proof -
    have "node s2 ip (Data (q div bs)) = node s1 ip (Data (q div bs))" using C(5) [OF v [OF q]] A(7) [OF q] by blast
    moreover have "file_byte s2 ip q = file_byte s1 ip q" using stored_byte [OF b v [OF q]] A(7) [OF q] q(2) by simp
    ultimately show ?thesis using A(7,8) [OF q] by simp
  qed
  show "node s2 ip (Data (q div bs)) \<noteq> 0" if "pos \<le> q" "q < pos + length (d1 @ d2)" for q
    using in1 [of q] C(7) [of q] that by (cases "q < pos + length d1") simp_all
  show "file_byte s2 ip q = (d1 @ d2) ! (q - pos)" if "pos \<le> q" "q < pos + length (d1 @ d2)" for q
    using in1 [of q] C(8) [of q] that by (cases "q < pos + length d1") (simp_all add: nth_split)
  show "file_byte s2 ip q = earlier_byte s s2 ip q"
    if q: "valid (Data (q div bs))" "\<not> (pos \<le> q \<and> q < pos + length (d1 @ d2))" for q
  proof -
    have q': "\<not> (pos + length d1 \<le> q \<and> q < pos + length d1 + length d2)" "\<not> (pos \<le> q \<and> q < pos + length d1)"
      using q(2) by auto
    show ?thesis unfolding C(9) [OF q(1) q'(1)] by (rule earlier_trans [OF a b q(1) q'(2)])
  qed
  show "blk_at s2 x = blk_at s x" if x: "x \<notin> meta" "x \<noteq> 0" "\<forall>t. valid t \<longrightarrow> node s2 ip t \<noteq> x" for x
  proof -
    have "\<forall>t. valid t \<longrightarrow> node s1 ip t \<noteq> x" using C(5) x(2,3) by metis
    then show ?thesis using A(10) [OF x(1,2)] C(10) [OF x] by simp
  qed
  show "\<exists>lb\<in>B. \<exists>t\<in>path lb. valid t \<and> node s2 ip t = x" if x: "is_free s x" "\<not> is_free s2 x" for x
  proof (cases "is_free s1 x")
    case True
    then show ?thesis by (rule C(11) [OF _ x(2)])
  next
    case False
    then obtain lb t where t: "lb \<in> B" "t \<in> path lb" "valid t" "node s1 ip t = x" using A(11) [OF x(1)] by blast
    then have "node s2 ip t = x" using C(5) [OF t(3)] z x(1) by auto
    then show ?thesis using t by blast
  qed
qed

text \<open>One round of the loop: allocate, read if needed, overwrite the piece.\<close>

lemma blit_block:
  assumes "file_inv meta s ip" "valid (Data (pos div bs))" "length d \<le> bs - pos mod bs" "length buf = bs"
    and "q div bs = pos div bs"
  shows "blit buf (pos mod bs) d ! (q mod bs) = (if pos \<le> q \<and> q < pos + length d then d ! (q - pos) else buf ! (q mod bs))"
proof -
  have le: "pos mod bs + length d \<le> length buf" using assms(3,4) bs_pos mod_less_divisor [of bs pos] by linarith
  have e: "q = pos div bs * bs + q mod bs" "pos = pos div bs * bs + pos mod bs"
    using assms(5) by (metis div_mult_mod_eq) simp
  have lt: "q mod bs < length buf" using bs_pos assms(4) by simp
  have "pos mod bs \<le> q mod bs \<and> q mod bs < pos mod bs + length d \<longleftrightarrow> pos \<le> q \<and> q < pos + length d"
    and "q mod bs - pos mod bs = q - pos" using e by linarith+
  then show ?thesis using nth_blit [OF le] lt by simp
qed

lemma write_piece:
  assumes inv: "file_inv meta s ip" and lb: "pos div bs < dind_limit s" and d: "0 < length d" "length d \<le> bs - pos mod bs"
  obtains (full) dd s1 where "ext2_bmap_alloc D ip (pos div bs) s = (NEG1, dd, s1)" "\<forall>b. \<not> is_free s1 b"
    "stored meta ip pos [] {pos div bs} s s1"
  | (ok) b dd s1 buf s2 where "ext2_bmap_alloc D ip (pos div bs) s = (b, dd, s1)" "b \<noteq> NEG1"
    "(if length d \<noteq> bs then ext2_read_block D s1 b else Some (replicate bs 0)) = Some buf"
    "ext2_write_block D s1 b (blit buf (pos mod bs) d) = (True, s2)" "stored meta ip pos d {pos div bs} s s2"
proof -
  let ?lb = "pos div bs"
  have v: "valid (Data ?lb)" by (rule valid_data [OF file_inv_vol [OF inv] lb])
  obtain r dd s1 where b: "ext2_bmap_alloc D ip ?lb s = (r, dd, s1)" "grows meta ip (path ?lb) s s1"
    "r = NEG1 \<and> (\<forall>b. \<not> is_free s1 b) \<or> r = node s1 ip (Data ?lb) \<and> r \<noteq> 0 \<and> r \<noteq> NEG1"
    by (rule bmap_alloc_ok [OF inv lb])
  have T: "path ?lb \<subseteq> (\<Union>l\<in>{?lb}. path l)" by simp
  have st0: "stored meta ip pos [] {?lb} s s1" by (rule stored_nil [OF b(2) inv T])
  show ?thesis
  proof (cases "r = NEG1")
    case True
    then show ?thesis using full b st0 by blast
  next
    case False
    then have r: "r = node s1 ip (Data ?lb)" "r \<noteq> 0" using b(3) by auto
    have inv1: "file_inv meta s1 ip" by (rule grows_file_inv [OF b(2)])
    define buf where "buf = (if length d \<noteq> bs then blk_at s1 r else replicate bs 0)"
    have nb: "r < nblk" using file_inv_node(1) [OF inv1 v] r by simp
    have rd: "(if length d \<noteq> bs then ext2_read_block D s1 r else Some (replicate bs 0)) = Some buf"
      using read_block [OF file_inv_vol [OF inv1] nb] by (simp add: buf_def)
    have lbuf: "length buf = bs" using length_blk [OF file_inv_vol [OF inv1] nb] by (simp add: buf_def)
    have bo1: "block_of s1 ip ?lb = blk_at s1 r" using r by (simp add: block_of_def Let_def)
    let ?new = "blit buf (pos mod bs) d"
    have "pos mod bs + length d \<le> bs" using d(2) bs_pos mod_less_divisor [of bs pos] by linarith
    then have ln: "length ?new = bs" using lbuf by simp
    obtain s2 where w: "ext2_write_block D s1 r ?new = (True, s2)" "file_inv meta s2 ip" "geometry s2 = geometry s1"
      "vframe ip s1 s2" "is_free s2 = is_free s1" "\<And>t. valid t \<Longrightarrow> node s2 ip t = node s1 ip t"
      "\<And>l. valid (Data l) \<Longrightarrow> block_of s2 ip l = (if l = ?lb then ?new else block_of s1 ip l)"
      "\<And>x. x \<noteq> r \<Longrightarrow> blk_at s2 x = blk_at s1 x"
      using write_mapped [OF inv1 v _ ln] r by metis
    have whole: "pos \<le> q \<and> q < pos + length d" if "length d = bs" "q div bs = ?lb" for q
    proof -
      have "pos mod bs = 0" using d(2) that(1) bs_pos by simp
      then have "pos = ?lb * bs" by (metis add.right_neutral div_mult_mod_eq)
      moreover have "q = ?lb * bs + q mod bs" using that(2) by (metis div_mult_mod_eq)
      ultimately show ?thesis using that(1) bs_pos mod_less_divisor [of bs q] by linarith
    qed
    have byte: "file_byte s2 ip q = (if pos \<le> q \<and> q < pos + length d then d ! (q - pos) else file_byte s1 ip q)"
      if q: "valid (Data (q div bs))" for q
    proof (cases "q div bs = ?lb")
      case True
      have "buf ! (q mod bs) = file_byte s1 ip q" if "\<not> (pos \<le> q \<and> q < pos + length d)"
        using that whole [OF _ True] bo1 True by (auto simp: buf_def file_byte_block)
      then show ?thesis
        using w(7) [OF q] True blit_block [OF inv1 v d(2) lbuf True] by (simp add: file_byte_block)
    next
      case False
      have "\<not> (pos \<le> q \<and> q < pos + length d)"
      proof
        assume c: "pos \<le> q \<and> q < pos + length d"
        then have "q - pos < bs - pos mod bs" using d(2) by linarith
        from block_pos(1) [OF this] c False show False by simp
      qed
      then show ?thesis using w(7) [OF q] False by (auto simp: file_byte_block)
    qed
    have inb: "valid (Data (q div bs)) \<and> q div bs = ?lb" if c: "pos \<le> q" "q < pos + length d" for q
    proof -
      have "q - pos < bs - pos mod bs" using d(2) c by linarith
      from block_pos(1) [OF this] c v show ?thesis by simp
    qed
    have "stored meta ip pos d {?lb} s1 s2"
    proof (rule storedI [OF w(2-4)])
      show "blk_at s2 x = blk_at s1 x" if "\<forall>t. valid t \<longrightarrow> node s2 ip t \<noteq> x" for x
      proof -
        have "x \<noteq> r" using that v r(1) w(6) [OF v] by metis
        then show ?thesis by (rule w(8))
      qed
      show "node s2 ip (Data (q div bs)) \<noteq> 0" if "pos \<le> q" "q < pos + length d" for q using inb [OF that] w(6) [OF v] r by simp
      show "file_byte s2 ip q = d ! (q - pos)" if "pos \<le> q" "q < pos + length d" for q using byte [OF conjunct1 [OF inb [OF that]]] that by simp
    qed (use w(5,6) byte in \<open>auto simp: earlier_byte_def file_byte_def\<close>)
    then have "stored meta ip pos ([] @ d) {?lb} s s2"
      by (intro stored_trans [OF st0 _ inv]) simp_all
    then show ?thesis using ok [OF b(1) False rd w(1)] by simp
  qed
qed

lemma stored_mono: "stored meta ip pos d B s s' \<Longrightarrow> B \<subseteq> B' \<Longrightarrow> stored meta ip pos d B' s s'"
  by (rule storedI) (blast dest: storedD)+

lemma stored_limit: "stored meta ip pos d B s s' \<Longrightarrow> file_inv meta s ip \<Longrightarrow> dind_limit s' = dind_limit s"
  using storedD(1) per_block_pb file_inv_vol by (metis dind_limit_def)

text \<open>Past the doubly indirect blocks nothing is allocated.  For a power of two as block size the limits are in order
  even where \<open>per_block * per_block\<close> wraps.\<close>

lemma bmap_alloc_past: "ind_limit s \<le> dind_limit s \<Longrightarrow> dind_limit s \<le> lb \<Longrightarrow> ext2_bmap_alloc D ip lb s = (NEG1, False, s)"
  by (simp add: ext2_bmap_alloc_def ind_limit_def)

lemma limits_ordered:
  assumes "on_vol s" "bs = 2 ^ k"
  shows "ind_limit s \<le> dind_limit s"
proof -
  have "12 + pb < 4294967296" using bs_small by (simp add: pb_def)
  have pk: "pb = 2 ^ (k - 2)" if "2 \<le> k"
    unfolding pb_def using that assms(2) power_diff [of "2 :: nat" 2 k] by simp
  have "u32 (pb * pb) = 0 \<or> u32 (pb * pb) = pb * pb \<and> pb < 65536"
  proof (cases "pb < 65536")
    case True
    then have "pb * pb < 65536 * 65536" by (intro mult_strict_mono) simp_all
    with True show ?thesis by (simp add: u32_def)
  next
    case False
    then have "65536 \<le> bs" unfolding pb_def by simp
    then have "2 \<le> k" using assms(2) by (cases "k < 2") (auto simp: less_2_cases_iff)
    from pk [OF this] False have "(2 :: nat) ^ 16 \<le> 2 ^ (k - 2)" by simp
    then have "16 \<le> k - 2" by (simp only: power_increasing_iff)
    then have "(2 :: nat) ^ 32 dvd 2 ^ (k - 2 + (k - 2))" by (intro le_imp_power_dvd) simp
    then show ?thesis using pk [OF \<open>2 \<le> k\<close>] by (simp add: power_add u32_def mod_eq_0_iff_dvd)
  qed
  moreover have "pb * pb \<le> 65535 * 65535" if "pb < 65536" using that by (intro mult_le_mono) simp_all
  ultimately have "u32 (12 + pb + u32 (pb * pb)) = 12 + pb + u32 (pb * pb)"
    using \<open>12 + pb < 4294967296\<close> by (auto simp: u32_def)
  then show ?thesis using assms(1) by (simp add: ind_limit_def dind_limit_def per_block_pb EXT2_NDIR_BLOCKS_def)
qed

text \<open>The whole loop: it stores everything, or stops after a prefix on a full volume or at the limit of a file.\<close>

definition blocks_of :: "nat \<Rightarrow> nat \<Rightarrow> nat set" where
  "blocks_of pos n = (\<lambda>q. q div bs) ` {pos..<pos + n}"

lemma write_loop_ok:
  assumes "file_inv meta s ip" "pos + length buf \<le> 4294967296 * bs" "blocks_of pos (length buf) \<subseteq> B" "ind_limit s \<le> dind_limit s"
  shows "\<exists>ok' n dirty' s'. write_loop D ip buf pos (length buf) ret dirty s = Some (ok', ret + n, pos + n, dirty', s') \<and>
    n \<le> length buf \<and> (ok' \<longrightarrow> n = length buf) \<and> (\<not> ok' \<longrightarrow> (\<forall>b. \<not> is_free s' b) \<or> dind_limit s * bs < pos + length buf) \<and>
    (dind_limit s * bs < pos + n \<longrightarrow> n = 0 \<and> dirty' = dirty) \<and> stored meta ip pos (take n buf) B s s'"
  using assms
proof (induction "length buf" arbitrary: buf pos ret dirty s rule: less_induct)
  case less
  have fb: "fs_block_size s = bs" using file_inv_vol [OF less.prems(1)] by (simp add: on_vol_def)
  have nil: "stored meta ip pos [] B s s" by (rule stored_nil [OF grows_refl [OF less.prems(1), of "{}"] less.prems(1)]) simp
  show ?case
  proof (cases "length buf = 0")
    case True
    then show ?thesis using nil
      by (subst write_loop.simps) (intro exI [of _ True] exI [of _ 0] exI [of _ dirty] exI [of _ s], simp)
  next
    case False
    let ?n = "min (bs - pos mod bs) (length buf)" and ?lb = "pos div bs"
    let ?d = "take ?n buf"
    have n: "0 < ?n" "?n \<le> length buf" "length ?d = ?n" using False bs_pos by simp_all
    have "pos < 4294967296 * bs" using less.prems(2) False by linarith
    then have u: "u32 ?lb = ?lb" by (intro u32_id) (simp add: less_mult_imp_div_less)
    have inB: "{?lb} \<subseteq> B" using less.prems(3) False by (auto simp: blocks_of_def)
    show ?thesis
    proof (cases "?lb < dind_limit s")
      case past: False
      then have "write_loop D ip buf pos (length buf) ret dirty s = Some (False, ret, pos, dirty, s)"
        using False bs_pos bmap_alloc_past [OF less.prems(4), of ?lb] by (subst write_loop.simps) (simp add: fb u Let_def)
      moreover have "dind_limit s * bs < pos + length buf"
      proof -
        have "dind_limit s * bs \<le> ?lb * bs" using past by (intro mult_le_mono1) simp
        also have "\<dots> \<le> pos" by (simp add: div_times_less_eq_dividend)
        finally show ?thesis using False by linarith
      qed
      ultimately show ?thesis using nil
        by (intro exI [of _ False] exI [of _ 0] exI [of _ dirty] exI [of _ s]) simp
    next
      case lb: True
      have "(?lb + 1) * bs \<le> dind_limit s * bs" using lb by (intro mult_le_mono1) simp
      moreover have "pos + (bs - pos mod bs) = (?lb + 1) * bs"
        using mod_less_divisor [OF bs_pos, of pos] div_mult_mod_eq [of pos bs] unfolding add_mult_distrib by linarith
      ultimately have lim: "pos + ?n \<le> dind_limit s * bs" by linarith
      show ?thesis
      proof (rule write_piece [OF less.prems(1) lb, of ?d])
        show "0 < length ?d" "length ?d \<le> bs - pos mod bs" using n by simp_all
      next
        fix dd s1
        assume f: "ext2_bmap_alloc D ip ?lb s = (NEG1, dd, s1)" "\<forall>b. \<not> is_free s1 b" "stored meta ip pos [] {?lb} s s1"
        have "write_loop D ip buf pos (length buf) ret dirty s = Some (False, ret, pos, dirty \<or> dd, s1)"
          using False bs_pos f(1) by (subst write_loop.simps) (simp add: fb u Let_def)
        then show ?thesis using f(2) stored_mono [OF f(3) inB] lim
          by (intro exI [of _ False] exI [of _ 0] exI [of _ "dirty \<or> dd"] exI [of _ s1]) simp
      next
        fix b dd s1 bb s2
        assume w: "ext2_bmap_alloc D ip ?lb s = (b, dd, s1)" "b \<noteq> NEG1"
          "(if length ?d \<noteq> bs then ext2_read_block D s1 b else Some (replicate bs 0)) = Some bb"
          "ext2_write_block D s1 b (blit bb (pos mod bs) ?d) = (True, s2)" "stored meta ip pos ?d {?lb} s s2"
        have step: "write_loop D ip buf pos (length buf) ret dirty s =
            write_loop D ip (drop ?n buf) (pos + ?n) (length (drop ?n buf)) (ret + ?n) (dirty \<or> dd) s2"
          using False bs_pos w(1,2,4) w(3) [unfolded n(3)] by (subst write_loop.simps) (simp only: fb u Let_def w prod.case if_False option.case bool.case length_drop simp_thms less_not_refl split: if_split, simp)
        have inv2: "file_inv meta s2 ip" by (rule storedD(1) [OF w(5)])
        have ll: "dind_limit s2 = dind_limit s" by (rule stored_limit [OF w(5) less.prems(1)])
        have il: "ind_limit s2 \<le> dind_limit s2"
          using less.prems(4) ll file_inv_vol [OF inv2] file_inv_vol [OF less.prems(1)] by (simp add: ind_limit_def per_block_pb)
        have up: "(pos + ?n) + length (drop ?n buf) \<le> 4294967296 * bs" using less.prems(2) n(2) by simp
        have sub: "blocks_of (pos + ?n) (length (drop ?n buf)) \<subseteq> B"
          using less.prems(3) n(2) by (auto simp: blocks_of_def)
        have "length (drop ?n buf) < length buf" using n by simp
        from less.hyps [OF this inv2 up sub il] obtain ok' m dirty' s' where
          r: "write_loop D ip (drop ?n buf) (pos + ?n) (length (drop ?n buf)) (ret + ?n) (dirty \<or> dd) s2 = Some (ok', ret + ?n + m, pos + ?n + m, dirty', s')"
            "m \<le> length (drop ?n buf)" "ok' \<longrightarrow> m = length (drop ?n buf)"
            "\<not> ok' \<longrightarrow> (\<forall>b. \<not> is_free s' b) \<or> dind_limit s2 * bs < pos + ?n + length (drop ?n buf)"
            "dind_limit s2 * bs < pos + ?n + m \<longrightarrow> m = 0"
            "stored meta ip (pos + ?n) (take m (drop ?n buf)) B s2 s'"
          by blast
        have v: "valid (Data (q div bs))" if "pos \<le> q" "q < pos + length ?d" for q
        proof -
          have "q < dind_limit s * bs" using that n(3) lim by linarith
          then show ?thesis by (intro valid_data [OF file_inv_vol [OF less.prems(1)]]) (simp add: less_mult_imp_div_less)
        qed
        have "stored meta ip pos (?d @ take m (drop ?n buf)) B s s'"
          using stored_trans [OF stored_mono [OF w(5) inB] _ less.prems(1) v] r(6) n(3) by simp
        moreover have "?d @ take m (drop ?n buf) = take (?n + m) buf" by (rule take_add [symmetric])
        moreover have "pos + (?n + m) \<le> dind_limit s * bs"
          using r(5) lim ll by (cases "m = 0") (simp_all add: add.assoc)
        moreover have "\<not> ok' \<longrightarrow> (\<forall>b. \<not> is_free s' b) \<or> dind_limit s * bs < pos + length buf" using r(4) ll n(2) by simp
        ultimately show ?thesis using step r(1-3) n(2)
          by (intro exI [of _ ok'] exI [of _ "?n + m"] exI [of _ dirty'] exI [of _ s']) (simp add: add.assoc)
      qed
    qed
  qed
qed

section \<open>The inode\<close>

definition inode_grp :: "'d ext2 \<Rightarrow> nat \<Rightarrow> nat" where
  "inode_grp s ino = sub32 ino 1 div s_inodes_per_group (es s)"

definition inode_blk :: "'d ext2 \<Rightarrow> nat \<Rightarrow> nat" where
  "inode_blk s ino = u32 (bg_inode_table (group_descs s ! inode_grp s ino) +
     sub32 ino 1 mod s_inodes_per_group (es s) div (fs_block_size s div fs_inode_size s))"

definition inode_off :: "'d ext2 \<Rightarrow> nat \<Rightarrow> nat" where
  "inode_off s ino = sub32 ino 1 mod s_inodes_per_group (es s) mod (fs_block_size s div fs_inode_size s) * fs_inode_size s"

text \<open>The slot of inode \<open>ino\<close> lies in an inode table among the metadata, outside the block bitmaps.\<close>

definition inode_slot :: "nat set \<Rightarrow> 'd ext2 \<Rightarrow> nat \<Rightarrow> bool" where
  "inode_slot meta s ino \<longleftrightarrow>
     s_inodes_per_group (es s) \<noteq> 0 \<and> 128 \<le> fs_inode_size s \<and> fs_inode_size s \<le> bs \<and> inode_grp s ino < group_count s \<and>
     inode_blk s ino \<in> meta \<and> (\<forall>g<group_count s. bmblk s g \<noteq> inode_blk s ino)"

lemma inode_slot_geometry:
  assumes g: "geometry s' = geometry s" and inv: "alloc_inv meta s" and sl: "inode_slot meta s ino"
  shows "inode_slot meta s' ino" "inode_blk s' ino = inode_blk s ino" "inode_off s' ino = inode_off s ino"
proof -
  have f: "s_inodes_per_group (es s') = s_inodes_per_group (es s)" "fs_inode_size s' = fs_inode_size s"
    "fs_block_size s' = fs_block_size s" "group_count s' = group_count s" using g by (auto simp: geometry_def)
  have e: "inode_grp s' ino = inode_grp s ino" by (simp add: inode_grp_def f)
  have len: "group_count s = length (group_descs s)" using inv by (simp add: alloc_inv_def)
  show b: "inode_blk s' ino = inode_blk s ino" using geometry_bmblk(3) [OF g, of "inode_grp s ino"] sl len
    by (simp add: inode_blk_def e f inode_slot_def)
  show "inode_off s' ino = inode_off s ino" by (simp add: inode_off_def f)
  show "inode_slot meta s' ino" using sl geometry_bmblk(2) [OF g] len by (simp add: inode_slot_def e f b)
qed

lemma write_inode_ok:
  assumes inv: "alloc_inv meta s" and sl: "inode_slot meta s ino" and len: "length ei = 128"
  obtains s' where "ext2_write_inode D ino ei s = Some (0, s')" "alloc_inv meta s'" "geometry s' = geometry s"
    "is_free s' = is_free s" "same_mem s s'" "slice (blk_at s' (inode_blk s ino)) (inode_off s ino) 128 = ei"
    "\<And>x. x \<notin> meta \<Longrightarrow> blk_at s' x = blk_at s x"
proof -
  have vol: "on_vol s" and gc: "group_count s = length (group_descs s)" and mb: "meta \<subseteq> {..<nblk}"
    using inv by (auto simp: alloc_inv_def)
  have fb: "fs_block_size s = bs" using vol by (simp add: on_vol_def)
  note S = sl [unfolded inode_slot_def]
  let ?ipb = "bs div fs_inode_size s"
  have ipb: "0 < ?ipb" using S by (simp add: div_greater_zero_iff)
  have nb: "inode_blk s ino < nblk" using S mb by auto
  have "inode_off s ino + fs_inode_size s \<le> ?ipb * fs_inode_size s"
    using mult_le_mono1 [of "Suc (sub32 ino 1 mod s_inodes_per_group (es s) mod ?ipb)" ?ipb "fs_inode_size s"] ipb
    by (simp add: inode_off_def fb Suc_leI)
  then have fit: "inode_off s ino + 128 \<le> bs" using S by (meson add_le_mono1 div_times_less_eq_dividend le_trans nat_add_left_cancel_le)
  have lb: "length (blk_at s (inode_blk s ino)) = bs" by (rule length_blk [OF vol nb])
  let ?new = "blit (blk_at s (inode_blk s ino)) (inode_off s ino) ei"
  have ln: "length ?new = bs" using lb fit len by simp
  have nbm: "\<And>g. g < group_count s \<Longrightarrow> bmblk s g \<noteq> inode_blk s ino" using S by blast
  obtain s' where w: "ext2_write_block D s (inode_blk s ino) ?new = (True, s')" "alloc_inv meta s'" "geometry s' = geometry s"
    "is_free s' = is_free s" "same_mem s s'" "es s' = es s" "\<And>x. blk_at s' x = (if x = inode_blk s ino then ?new else blk_at s x)"
    using write_other [OF inv nb nbm ln] by metis
  have "ext2_write_inode D ino ei s = Some (0, s')"
    using S gc ipb read_block [OF vol nb] w(1) fit len lb
    by (simp add: ext2_write_inode_def Let_def fb inode_blk_def inode_off_def inode_grp_def)
  moreover have "slice ?new (inode_off s ino) 128 = ei" using lb fit len by (simp add: overlay)
  moreover have "blk_at s' x = blk_at s x" if "x \<notin> meta" for x using S that w(7) by auto
  ultimately show ?thesis using that [of s'] w(2-5,7) by simp
qed

text \<open>The update of the inode in memory before it is written.\<close>

definition touch :: "nat \<Rightarrow> nat \<Rightarrow> 'd ext2 \<Rightarrow> 'd ext2" where
  "touch ip pos s =
     (let s = (if pos > v_size (vin s ip) then upd_size ip pos s else s); (t, s) = get_time s
      in upd_ei ip (\<lambda>ei. set_i_ctime t (set_i_mtime t (set_i_size (v_size (vin s ip)) ei))) s)"

text \<open>A disk inode with size \<open>n\<close> and the change and modification times \<open>t\<close>.\<close>

definition stamped :: "nat \<Rightarrow> nat \<Rightarrow> byte list \<Rightarrow> bool" where
  "stamped n t ei \<longleftrightarrow> i_size ei = u32 n \<and> get32 ei 12 = u32 t \<and> get32 ei 16 = u32 t"

lemma touch_frame:
  assumes "128 \<le> length (v_ei (vin s ip))"
  obtains w where "touch ip pos s = s\<lparr>vin := (vin s)(ip := w), ticks := Suc (ticks s)\<rparr>" "v_ino w = v_ino (vin s ip)"
    "v_size w = max pos (v_size (vin s ip))" "length (v_ei w) = length (v_ei (vin s ip))"
    "\<And>k. k < 14 \<Longrightarrow> i_block (v_ei w) k = i_block (v_ei (vin s ip)) k" "stamped (v_size w) (clk s (ticks s)) (v_ei w)"
proof -
  let ?t = "clk s (ticks s)" and ?m = "max pos (v_size (vin s ip))"
  let ?w = "(vin s ip)\<lparr>v_size := ?m, v_ei := set_i_ctime ?t (set_i_mtime ?t (set_i_size ?m (v_ei (vin s ip))))\<rparr>"
  have "touch ip pos s = s\<lparr>vin := (vin s)(ip := ?w), ticks := Suc (ticks s)\<rparr>"
    by (simp add: touch_def upd_size_def get_time_def upd_ei_def Let_def max_def)
  moreover have "stamped ?m ?t (v_ei ?w)"
    using assms by (simp add: stamped_def i_size_def set_i_size_def set_i_ctime_def set_i_mtime_def overlay)
  ultimately show ?thesis using that [of ?w] assms by simp
qed

lemma write_unfold:
  assumes "write_loop D ip buf ppos len 0 False s = Some (okk, n, pos, dirty, s1)"
  shows "ext2_write D ip buf len ppos s =
    (if okk \<and> 0 < n \<or> dirty
     then (case ext2_write_inode D (v_ino (vin (touch ip pos s1) ip)) (v_ei (vin (touch ip pos s1) ip)) (touch ip pos s1) of
             None \<Rightarrow> None
           | Some (r, s2) \<Rightarrow> Some (if r < 0 \<or> \<not> okk then -1 else int n, if r < 0 \<or> \<not> okk \<or> n = 0 then ppos else pos, s2))
     else Some (if okk then int n else -1, ppos, s1))"
  using assms by (auto simp: ext2_write_def touch_def Let_def split: option.split prod.split)

text \<open>From \<open>s\<close> to \<open>s'\<close> only the inode of the file has been brought up to date.\<close>

definition settled :: "nat set \<Rightarrow> nat \<Rightarrow> 'd ext2 \<Rightarrow> 'd ext2 \<Rightarrow> bool" where
  "settled meta ip s s' \<longleftrightarrow>
     file_inv meta s' ip \<and> geometry s' = geometry s \<and> is_free s' = is_free s \<and>
     (\<forall>t. valid t \<longrightarrow> node s' ip t = node s ip t) \<and> (\<forall>x. x \<notin> meta \<longrightarrow> blk_at s' x = blk_at s x) \<and>
     (\<forall>q. q \<noteq> ip \<longrightarrow> vin s' q = vin s q)"

lemma settled_byte: "settled meta ip s s' \<Longrightarrow> valid (Data (q div bs)) \<Longrightarrow> file_byte s' ip q = file_byte s ip q"
  using file_inv_node(2) [of meta s' ip "Data (q div bs)"] by (auto simp: settled_def file_byte_def Let_def)

lemma touch_write:
  assumes inv: "file_inv meta s ip" and sl: "inode_slot meta s (v_ino (vin s ip))" and len: "length (v_ei (vin s ip)) = 128"
  obtains s' where "ext2_write_inode D (v_ino (vin (touch ip pos s) ip)) (v_ei (vin (touch ip pos s) ip)) (touch ip pos s) = Some (0, s')"
    "settled meta ip s s'" "v_size (vin s' ip) = max pos (v_size (vin s ip))"
    "slice (blk_at s' (inode_blk s (v_ino (vin s ip)))) (inode_off s (v_ino (vin s ip))) 128 = v_ei (vin s' ip)"
    "stamped (v_size (vin s' ip)) (clk s (ticks s)) (v_ei (vin s' ip))"
proof -
  let ?t = "touch ip pos s" and ?i = "v_ino (vin s ip)"
  have ai: "alloc_inv meta s" using inv by (simp add: file_inv_def)
  obtain w where w: "?t = s\<lparr>vin := (vin s)(ip := w), ticks := Suc (ticks s)\<rparr>" "v_ino w = ?i"
    "v_size w = max pos (v_size (vin s ip))" "length (v_ei w) = 128" "\<And>k. k < 14 \<Longrightarrow> i_block (v_ei w) k = i_block (v_ei (vin s ip)) k"
    "stamped (v_size w) (clk s (ticks s)) (v_ei w)"
    using touch_frame [of s ip pos] len by auto
  have vt: "vin ?t ip = w" and at: "alloc_inv meta ?t" and gt: "geometry ?t = geometry s" using w(1) ai by simp_all
  note st = inode_slot_geometry [OF gt ai sl]
  obtain s' where r: "ext2_write_inode D ?i (v_ei w) ?t = Some (0, s')" "alloc_inv meta s'" "geometry s' = geometry ?t"
    "is_free s' = is_free ?t" "same_mem ?t s'" "slice (blk_at s' (inode_blk ?t ?i)) (inode_off ?t ?i) 128 = v_ei w"
    "\<And>x. x \<notin> meta \<Longrightarrow> blk_at s' x = blk_at ?t x"
    using write_inode_ok [OF at st(1) w(4)] by metis
  have vs: "vin s' = (vin s)(ip := w)" using r(5) w(1) by (simp add: same_mem_def)
  have blk: "blk_at s' x = blk_at s x" if "x \<notin> meta" for x using r(7) [OF that] w(1) by simp
  have nodes: "node s' ip t = node s ip t" if t: "valid t" for t
  proof (rule node_same [OF _ _ t])
    show "i_block (v_ei (vin s' ip)) k = i_block (v_ei (vin s ip)) k" if "k < 14" for k using w(5) [OF that] vs by simp
    show "blk_at s' b = blk_at s b" if "b \<in> ptrs s ip" for b
      using that file_inv_node(2) [OF inv] by (intro blk) (auto simp: ptrs_def)
  qed
  have fr: "is_free s' = is_free s" using r(4) w(1) by simp
  have "file_inv meta s' ip"
    using inv r(2) fr nodes vs w(4) by (simp add: file_inv_def cong: conj_cong)
  then have "settled meta ip s s'" using r(3) gt fr nodes blk vs by (simp add: settled_def)
  from that [OF _ this] show ?thesis using r(1,6) st(2,3) vs vt w(2,3,6) by simp
qed

lemma write_ok:
  assumes inv: "file_inv meta s ip" and sl: "inode_slot meta s (v_ino (vin s ip))" and len: "length (v_ei (vin s ip)) = 128"
    and lim: "pos + length buf \<le> 4294967296 * bs" "ind_limit s \<le> dind_limit s" "v_size (vin s ip) \<le> dind_limit s * bs"
    and ne: "buf \<noteq> []"
  obtains okk n s1 s' where "ext2_write D ip buf (length buf) pos s =
      Some (if okk then int (length buf) else -1, if okk then pos + length buf else pos, s')"
    "stored meta ip pos (take n buf) (blocks_of pos (length buf)) s s1" "settled meta ip s1 s'"
    "v_size (vin s ip) \<le> v_size (vin s' ip)" "v_size (vin s' ip) \<le> dind_limit s * bs"
    "okk \<Longrightarrow> n = length buf" "okk \<Longrightarrow> v_size (vin s' ip) = max (pos + length buf) (v_size (vin s ip))"
    "okk \<Longrightarrow> slice (blk_at s' (inode_blk s (v_ino (vin s ip)))) (inode_off s (v_ino (vin s ip))) 128 = v_ei (vin s' ip)"
    "okk \<Longrightarrow> stamped (v_size (vin s' ip)) (clk s (ticks s)) (v_ei (vin s' ip))" "okk \<Longrightarrow> pos + length buf \<le> dind_limit s * bs"
    "\<not> okk \<Longrightarrow> (\<forall>b. \<not> is_free s' b) \<or> dind_limit s * bs < pos + length buf"
proof -
  let ?B = "blocks_of pos (length buf)" and ?i = "v_ino (vin s ip)"
  obtain okk n dirty s1 where l: "write_loop D ip buf pos (length buf) 0 False s = Some (okk, n, pos + n, dirty, s1)"
    "n \<le> length buf" "okk \<Longrightarrow> n = length buf" "\<not> okk \<Longrightarrow> (\<forall>b. \<not> is_free s1 b) \<or> dind_limit s * bs < pos + length buf"
    "stored meta ip pos (take n buf) ?B s s1" "dind_limit s * bs < pos + n \<Longrightarrow> n = 0 \<and> \<not> dirty"
    using write_loop_ok [OF inv lim(1) _ lim(2), of ?B 0 False] by auto
  have inv1: "file_inv meta s1 ip" and g1: "geometry s1 = geometry s" and vf: "vframe ip s s1" using storedD(1-3) [OF l(5)] .
  have "(vin s1 ip)\<lparr>v_ei := []\<rparr> = (vin s ip)\<lparr>v_ei := []\<rparr>" using vf by (simp add: vframe_def)
  then have v1: "v_ino (vin s1 ip) = ?i" "v_size (vin s1 ip) = v_size (vin s ip)"
    by (metis vinode.select_convs(1) vinode.surjective vinode.update_convs(6), metis vinode.select_convs(3) vinode.surjective vinode.update_convs(6))
  have len1: "length (v_ei (vin s1 ip)) = 128" using vf len by (simp add: vframe_def)
  have ai: "alloc_inv meta s" using inv by (simp add: file_inv_def)
  note sl1 = inode_slot_geometry [OF g1 ai sl]
  have now: "clk s1 (ticks s1) = clk s (ticks s)" using vf by (simp add: vframe_def)
  have fin: "pos + length buf \<le> dind_limit s * bs" if okk using l(3) [OF that] l(6) ne by (cases "dind_limit s * bs < pos + n") auto
  show ?thesis
  proof (cases "okk \<or> dirty")
    case True
    obtain s' where t: "ext2_write_inode D (v_ino (vin (touch ip (pos + n) s1) ip)) (v_ei (vin (touch ip (pos + n) s1) ip)) (touch ip (pos + n) s1) = Some (0, s')"
      "settled meta ip s1 s'" "v_size (vin s' ip) = max (pos + n) (v_size (vin s1 ip))"
      "slice (blk_at s' (inode_blk s1 ?i)) (inode_off s1 ?i) 128 = v_ei (vin s' ip)"
      "stamped (v_size (vin s' ip)) (clk s1 (ticks s1)) (v_ei (vin s' ip))"
      using touch_write [OF inv1 _ len1, of "pos + n"] sl1(1) v1(1) by metis
    have e: "pos + n \<le> dind_limit s * bs" using True l(3,6) ne by (cases "dind_limit s * bs < pos + n") auto
    have "0 < n" if okk using l(3) [OF that] ne by simp
    then have "ext2_write D ip buf (length buf) pos s = Some (if okk then int (length buf) else -1, if okk then pos + length buf else pos, s')"
      using write_unfold [OF l(1)] True t(1) l(3) by auto
    moreover have "(\<forall>b. \<not> is_free s' b) \<or> dind_limit s * bs < pos + length buf" if "\<not> okk"
      using l(4) [OF that] t(2) by (simp add: settled_def)
    ultimately show ?thesis using that [of okk s' n s1] l(2,3,5) t(2-5) v1 sl1 now fin e lim(3) by auto
  next
    case False
    then have "ext2_write D ip buf (length buf) pos s = Some (if okk then int (length buf) else -1, if okk then pos + length buf else pos, s1)"
      using write_unfold [OF l(1)] by simp
    moreover have "settled meta ip s1 s1" using inv1 by (simp add: settled_def)
    ultimately show ?thesis using that [of okk s1 n s1] False l(4,5) v1 lim(3) by simp
  qed
qed

section \<open>The contract of a write\<close>

text \<open>Two files share no block.\<close>

definition apart :: "'d ext2 \<Rightarrow> nat \<Rightarrow> nat \<Rightarrow> bool" where
  "apart s ip jp \<longleftrightarrow> (\<forall>t u. valid t \<and> valid u \<and> node s jp t \<noteq> 0 \<longrightarrow> node s jp t \<noteq> node s ip u)"

lemma limit_geometry: "on_vol s \<Longrightarrow> on_vol s' \<Longrightarrow> dind_limit s' = dind_limit s"
  by (simp add: dind_limit_def per_block_pb)

lemma limit_bytes: "dind_limit s * bs < 18446744073709551616 - bs"
proof -
  have "dind_limit s * bs \<le> 4294967295 * 536870912" using lim_u32 [of s] bs_small by (intro mult_le_mono) simp_all
  then show ?thesis using bs_small by simp
qed

lemma other_file:
  assumes st: "stored meta ip pos d B s s1" and se: "settled meta ip s1 s'" and jp: "jp \<noteq> ip" "file_inv meta s jp" "apart s ip jp"
    and sz: "v_size (vin s jp) \<le> dind_limit s * bs" and a: "a + n < 18446744073709551616"
  shows "ext2_read D s' jp n a = ext2_read D s jp n a"
proof -
  have vs: "vin s' jp = vin s jp" using storedD(3) [OF st] se jp(1) by (simp add: settled_def vframe_def)
  have blk: "blk_at s' (node s jp t) = blk_at s (node s jp t)" if t: "valid t" "node s jp t \<noteq> 0" for t
  proof -
    have "node s jp t \<notin> meta" "\<not> is_free s (node s jp t)" using file_inv_node(2,3) [OF jp(2) t] .
    moreover have "\<forall>u. valid u \<longrightarrow> node s ip u \<noteq> node s jp t" using jp(3) t by (metis apart_def)
    ultimately show ?thesis using stored_block [OF st _ t(2)] se by (simp add: settled_def)
  qed
  have nodes: "node s' jp t = node s jp t" if t: "valid t" for t
    by (rule node_same [OF _ _ t]) (use vs blk in \<open>auto simp: ptrs_def\<close>)
  have fr: "is_free s x" if "is_free s' x" for x using that storedD(4) [OF st] se by (simp add: settled_def)
  have inv': "file_inv meta s' ip" using se by (simp add: settled_def)
  then have "alloc_inv meta s'" by (simp add: file_inv_def)
  then have inv: "file_inv meta s' jp"
    using jp(2) vs nodes fr by (simp add: file_inv_def cong: conj_cong) blast
  have lim: "dind_limit s' = dind_limit s" by (rule limit_geometry [OF file_inv_vol [OF jp(2)] file_inv_vol [OF inv]])
  have "file_byte s' jp q = file_byte s jp q" if "q < v_size (vin s jp)" for q
  proof -
    have "q < dind_limit s * bs" using that sz by simp
    then have "valid (Data (q div bs))" by (intro valid_data [OF file_inv_vol [OF jp(2)]]) (simp add: less_mult_imp_div_less)
    then show ?thesis using nodes blk by (simp add: file_byte_def Let_def)
  qed
  then show ?thesis
    using read_ok [OF jp(2) sz a] read_ok [OF inv _ a] vs lim sz by (simp add: Let_def)
qed

lemma one_byte:
  assumes "file_inv meta s ip" "q < v_size (vin s ip)" "v_size (vin s ip) \<le> dind_limit s * bs"
  shows "ext2_read D s ip 1 q = Some (1, [file_byte s ip q], q + 1)"
proof -
  have "q + 1 < 18446744073709551616" using assms limit_bytes [of s] by linarith
  then show ?thesis using read_ok [OF assms(1,3), of q 1] assms(2) by (simp add: Let_def min_absorb1)
qed

lemma same_byte:
  assumes inv: "file_inv meta s ip" and inv': "file_inv meta s' ip" and q: "q < v_size (vin s ip)" "v_size (vin s ip) \<le> v_size (vin s' ip)"
    and sz: "v_size (vin s ip) \<le> dind_limit s * bs" "v_size (vin s' ip) \<le> dind_limit s * bs"
    and e: "file_byte s' ip q = file_byte s ip q"
  shows "ext2_read D s' ip 1 q = ext2_read D s ip 1 q"
proof -
  have lim: "dind_limit s' = dind_limit s" by (rule limit_geometry [OF file_inv_vol [OF inv] file_inv_vol [OF inv']])
  show ?thesis using one_byte [OF inv q(1) sz(1)] one_byte [OF inv', of q] q sz(2) lim e by simp
qed

text \<open>At most four blocks are taken for each block of the request.\<close>

lemma taken_card:
  assumes "stored meta ip pos d B s s'" "finite B" "\<And>b. \<not> is_free s' b"
  shows "card {b. is_free s b} \<le> 4 * card B"
proof -
  have le: "card (node s' ip ` path lb) \<le> 4" for lb
    by (rule order.trans [OF card_image_le]) (simp_all add: path_def card_insert_if)
  have "{b. is_free s b} \<subseteq> (\<Union>lb\<in>B. node s' ip ` path lb)" using storedD(11) [OF assms(1)] assms(3) by blast
  then have "card {b. is_free s b} \<le> card (\<Union>lb\<in>B. node s' ip ` path lb)"
    using assms(2) by (intro card_mono) (auto simp: path_def)
  also have "\<dots> \<le> (\<Sum>lb\<in>B. card (node s' ip ` path lb))" by (rule card_UN_le [OF assms(2)])
  also have "\<dots> \<le> (\<Sum>lb\<in>B. 4)" by (rule sum_mono) (rule le)
  finally show ?thesis by simp
qed

lemma write_correct:
  assumes inv: "file_inv meta s ip" and sl: "inode_slot meta s (v_ino (vin s ip))" and len: "length (v_ei (vin s ip)) = 128"
    and lim: "pos + length buf \<le> 4294967296 * bs" "ind_limit s \<le> dind_limit s" "v_size (vin s ip) \<le> dind_limit s * bs"
    and ne: "buf \<noteq> []"
  shows "\<exists>okk s'. ext2_write D ip buf (length buf) pos s =
        Some (if okk then int (length buf) else -1, if okk then pos + length buf else pos, s') \<and>
      file_inv meta s' ip \<and> geometry s' = geometry s \<and>
      (okk \<longrightarrow> v_size (vin s' ip) = max (pos + length buf) (v_size (vin s ip)) \<and>
         (\<forall>n\<le>length buf. ext2_read D s' ip n pos = Some (int n, take n buf, pos + n)) \<and>
         slice (blk_at s' (inode_blk s (v_ino (vin s ip)))) (inode_off s (v_ino (vin s ip))) 128 = v_ei (vin s' ip) \<and>
         stamped (v_size (vin s' ip)) (clk s (ticks s)) (v_ei (vin s' ip))) \<and>
      (\<not> okk \<longrightarrow> (\<forall>b. \<not> is_free s' b) \<or> dind_limit s * bs < pos + length buf) \<and>
      (dind_limit s * bs < pos + length buf \<longrightarrow> \<not> okk) \<and>
      (pos + length buf \<le> dind_limit s * bs \<and> 4 * card (blocks_of pos (length buf)) < card {b. is_free s b} \<longrightarrow> okk) \<and>
      (\<forall>b. is_free s b \<and> \<not> is_free s' b \<longrightarrow> (\<exists>t. valid t \<and> node s' ip t = b)) \<and>
      (\<forall>q<v_size (vin s ip). (q < pos \<or> pos + length buf \<le> q) \<and>
         (node s ip (Data (q div bs)) \<noteq> 0 \<or> q div bs \<notin> blocks_of pos (length buf)) \<longrightarrow>
         ext2_read D s' ip 1 q = ext2_read D s ip 1 q) \<and>
      (\<forall>q<v_size (vin s' ip). q < pos \<or> pos + length buf \<le> q \<longrightarrow>
         ext2_read D s' ip 1 q = Some (1, [earlier_byte s s' ip q], q + 1)) \<and>
      (\<forall>jp n a. jp \<noteq> ip \<and> file_inv meta s jp \<and> apart s ip jp \<and> v_size (vin s jp) \<le> dind_limit s * bs \<and> a + n < 2 ^ 64 \<longrightarrow>
         ext2_read D s' jp n a = ext2_read D s jp n a)"
proof -
  let ?B = "blocks_of pos (length buf)"
  obtain okk n s1 s' where w: "ext2_write D ip buf (length buf) pos s =
      Some (if okk then int (length buf) else -1, if okk then pos + length buf else pos, s')"
    "stored meta ip pos (take n buf) ?B s s1" "settled meta ip s1 s'" "v_size (vin s ip) \<le> v_size (vin s' ip)"
    "v_size (vin s' ip) \<le> dind_limit s * bs" "okk \<Longrightarrow> n = length buf"
    "okk \<Longrightarrow> v_size (vin s' ip) = max (pos + length buf) (v_size (vin s ip))"
    "okk \<Longrightarrow> slice (blk_at s' (inode_blk s (v_ino (vin s ip)))) (inode_off s (v_ino (vin s ip))) 128 = v_ei (vin s' ip)"
    "okk \<Longrightarrow> stamped (v_size (vin s' ip)) (clk s (ticks s)) (v_ei (vin s' ip))" "okk \<Longrightarrow> pos + length buf \<le> dind_limit s * bs"
    "\<not> okk \<Longrightarrow> (\<forall>b. \<not> is_free s' b) \<or> dind_limit s * bs < pos + length buf"
    by (rule write_ok [OF inv sl len lim ne]) (rule that)
  have inv': "file_inv meta s' ip" and g: "geometry s' = geometry s" using w(3) storedD(2) [OF w(2)] by (simp_all add: settled_def)
  have ll: "dind_limit s' = dind_limit s" by (rule limit_geometry [OF file_inv_vol [OF inv] file_inv_vol [OF inv']])
  have v: "valid (Data (q div bs))" if "q < dind_limit s * bs" for q
    using that by (intro valid_data [OF file_inv_vol [OF inv]]) (simp add: less_mult_imp_div_less)
  have reread: "ext2_read D s' ip k pos = Some (int k, take k buf, pos + k)" if fin: "okk" and k: "k \<le> length buf" for k
  proof -
    have "file_byte s' ip q = buf ! (q - pos)" if "pos \<le> q" "q < pos + length buf" for q
      using settled_byte [OF w(3) v] storedD(8) [OF w(2)] that w(6,10) [OF fin] by simp
    then have "map (file_byte s' ip) [pos..<pos + k] = take k buf" using k by (intro nth_equalityI) simp_all
    moreover have "pos < v_size (vin s' ip)" "pos + k \<le> v_size (vin s' ip)" using w(7) [OF fin] ne k by (simp_all add: less_max_iff_disj le_max_iff_disj)
    moreover have "pos + k < 18446744073709551616" using k w(10) [OF fin] limit_bytes [of s] by linarith
    ultimately show ?thesis using read_ok [OF inv', of pos k] w(5) ll by (simp add: Let_def min_absorb1)
  qed
  have same: "ext2_read D s' ip 1 q = ext2_read D s ip 1 q"
    if q: "q < v_size (vin s ip)" "q < pos \<or> pos + length buf \<le> q" "node s ip (Data (q div bs)) \<noteq> 0 \<or> q div bs \<notin> ?B" for q
  proof -
    have vq: "valid (Data (q div bs))" using v q(1) lim(3) by simp
    have "\<not> (pos \<le> q \<and> q < pos + length (take n buf))" using q(2) by auto
    from stored_byte [OF w(2) vq this q(3)] settled_byte [OF w(3) vq] have "file_byte s' ip q = file_byte s ip q" by simp
    from same_byte [OF inv inv' q(1) w(4) lim(3) w(5) this] show ?thesis .
  qed
  have rest: "ext2_read D s' ip 1 q = Some (1, [earlier_byte s s' ip q], q + 1)"
    if q: "q < v_size (vin s' ip)" "q < pos \<or> pos + length buf \<le> q" for q
  proof -
    have vq: "valid (Data (q div bs))" using v q(1) w(5) by simp
    have "\<not> (pos \<le> q \<and> q < pos + length (take n buf))" using q(2) by auto
    from storedD(9) [OF w(2) vq this] settled_byte [OF w(3) vq] have "file_byte s' ip q = earlier_byte s s1 ip q" by simp
    also have "\<dots> = earlier_byte s s' ip q" using w(3) vq by (simp add: settled_def earlier_byte_def)
    finally show ?thesis using one_byte [OF inv' q(1)] w(5) ll by simp
  qed
  have "ext2_read D s' jp k a = ext2_read D s jp k a"
    if "jp \<noteq> ip" "file_inv meta s jp" "apart s ip jp" "v_size (vin s jp) \<le> dind_limit s * bs" "a + k < 2 ^ 64" for jp k a
    using other_file [OF w(2,3) that(1-4)] that(5) by simp
  moreover have "\<exists>t. valid t \<and> node s' ip t = b" if b: "is_free s b" "\<not> is_free s' b" for b
  proof -
    have "\<not> is_free s1 b" using b(2) w(3) by (simp add: settled_def)
    then obtain t where "valid t" "node s1 ip t = b" using storedD(11) [OF w(2) b(1)] by blast
    then show ?thesis using w(3) by (auto simp: settled_def)
  qed
  moreover have "okk" if "pos + length buf \<le> dind_limit s * bs \<and> 4 * card ?B < card {b. is_free s b}"
  proof (rule ccontr)
    assume "\<not> okk"
    then have "\<not> is_free s1 b" for b using w(3,11) that by (simp add: settled_def)
    then show False using taken_card [OF w(2)] that by (simp add: blocks_of_def)
  qed
  moreover have "\<not> okk" if "dind_limit s * bs < pos + length buf" using w(10) that by linarith
  ultimately show ?thesis using w(1,7-9,11) inv' g reread same rest by (intro exI [of _ okk] exI [of _ s']) blast
qed

end

text \<open>C1: a write to a regular file.  Under the invariant of the volume and of the file, for a request below
  position \<open>2 ^ 32 * bs\<close>, \<open>ext2_write\<close> either returns the number of bytes, advances the position, extends the size to
  the end of the data, has set size and times of the inode (the size modulo \<open>2 ^ 32\<close>) and has written the inode to
  its slot in the inode table, and then \<open>ext2_read\<close> returns every prefix of the data; or it returns -1, the
  position stays, and no block of the volume is free or the request ends past the doubly indirect blocks.  A
  request past them always fails; one inside succeeds when more than four blocks are free for every block of the
  request.  Every block that has been allocated belongs to the file.  A byte outside the written range reads as
  before if its block was there before or is not one of the request.  In general such a byte is 0 in a hole, and
  otherwise what the disk held at this place before: a block that the write allocates is not emptied, so next to
  the written bytes it shows the old content of the disk.  A file that shares no block with this one reads as
  before.\<close>

theorem ext2_write_read:
  assumes "ext2_volume D p sec nsec nmax ok bs spb nblk" "ext2_volume.file_inv p sec ok bs spb nblk meta s ip"
    and "ext2_volume.inode_slot bs meta s (v_ino (vin s ip))" "length (v_ei (vin s ip)) = 128"
    and "pos + length buf \<le> 4294967296 * bs" "ind_limit s \<le> dind_limit s" "v_size (vin s ip) \<le> dind_limit s * bs" "buf \<noteq> []"
  shows "\<exists>okk s'. ext2_write D ip buf (length buf) pos s =
        Some (if okk then int (length buf) else -1, if okk then pos + length buf else pos, s') \<and>
      ext2_volume.file_inv p sec ok bs spb nblk meta s' ip \<and> geometry s' = geometry s \<and>
      (okk \<longrightarrow> v_size (vin s' ip) = max (pos + length buf) (v_size (vin s ip)) \<and>
         (\<forall>n\<le>length buf. ext2_read D s' ip n pos = Some (int n, take n buf, pos + n)) \<and>
         slice (ext2_volume.blk_at p sec spb s' (ext2_volume.inode_blk s (v_ino (vin s ip))))
           (ext2_volume.inode_off s (v_ino (vin s ip))) 128 = v_ei (vin s' ip) \<and>
         ext2_volume.stamped (v_size (vin s' ip)) (clk s (ticks s)) (v_ei (vin s' ip))) \<and>
      (\<not> okk \<longrightarrow> (\<forall>b. \<not> ext2_volume.is_free bs s' b) \<or> dind_limit s * bs < pos + length buf) \<and>
      (dind_limit s * bs < pos + length buf \<longrightarrow> \<not> okk) \<and>
      (pos + length buf \<le> dind_limit s * bs \<and>
         4 * card (ext2_volume.blocks_of bs pos (length buf)) < card {b. ext2_volume.is_free bs s b} \<longrightarrow> okk) \<and>
      (\<forall>b. ext2_volume.is_free bs s b \<and> \<not> ext2_volume.is_free bs s' b \<longrightarrow>
         (\<exists>t. ext2_volume.valid bs t \<and> ext2_volume.node p sec bs spb s' ip t = b)) \<and>
      (\<forall>q<v_size (vin s ip). (q < pos \<or> pos + length buf \<le> q) \<and>
         (ext2_volume.node p sec bs spb s ip (Data (q div bs)) \<noteq> 0 \<or> q div bs \<notin> ext2_volume.blocks_of bs pos (length buf)) \<longrightarrow>
         ext2_read D s' ip 1 q = ext2_read D s ip 1 q) \<and>
      (\<forall>q<v_size (vin s' ip). q < pos \<or> pos + length buf \<le> q \<longrightarrow>
         ext2_read D s' ip 1 q = Some (1, [ext2_volume.earlier_byte p sec bs spb s s' ip q], q + 1)) \<and>
      (\<forall>jp n a. jp \<noteq> ip \<and> ext2_volume.file_inv p sec ok bs spb nblk meta s jp \<and> ext2_volume.apart p sec bs spb s ip jp \<and>
         v_size (vin s jp) \<le> dind_limit s * bs \<and> a + n < 2 ^ 64 \<longrightarrow>
         ext2_read D s' jp n a = ext2_read D s jp n a)"
  by (rule ext2_volume.write_correct [OF assms])

text \<open>The witness: two bytes at position 5 of an empty file of the small volume.\<close>

lemma small_file: "small.file_inv small_meta small_fs ip"
proof -
  have "i_block (replicate 128 0) k = 0" if "k < 14" for k
    using get32_replicate [of "10 + k" 128] that by (simp add: i_block_def)
  then have ei: "i_block (v_ei (vin small_fs ip)) k = 0" if "k < 14" for k using that by (simp add: small_fs_def)
  have p: "small.ptr small_fs 0 i = 0" for i unfolding small.ptr_def by simp
  have "small.node small_fs ip t = 0" if "small.valid t" for t
    using that ei p unfolding small.node_def small.valid_def by (cases t) (simp_all add: Let_def del: One_nat_def)
  moreover have "length (v_ei (vin small_fs ip)) = 128" by (simp add: small_fs_def)
  ultimately show ?thesis using small_alloc_inv unfolding small.file_inv_def by auto
qed

lemma small_slot: "small.inode_slot small_meta small_fs 12"
  unfolding small.inode_slot_def small.inode_blk_def small.inode_grp_def
  by (simp add: small_fs_def small_es_fields small_meta_def bmblk_def width)

lemma small_free_card: "card {b. small.is_free small_fs b} = 8"
proof -
  have "{b. small.is_free small_fs b} = {17..<25}"
    unfolding small.is_free_def small_free small_blkno by auto presburger
  then show ?thesis by simp
qed

theorem ext2_write_read_witness:
  "\<exists>s'. ext2_write (ram_driver 80) 0 [104, 105] 2 5 small_fs = Some (2, 7, s') \<and> v_size (vin s' 0) = 7 \<and>
     ext2_read (ram_driver 80) s' 0 2 5 = Some (2, [104, 105], 7)"
proof -
  have "{5..<7} = {5, 6 :: nat}" by auto
  then have "(\<lambda>q. q div 1024) ` {5..<7} = {0 :: nat}" by simp
  then have B: "card (small.blocks_of 5 (length [104, 105 :: byte])) = 1" by (simp add: small.blocks_of_def)
  have v: "v_ino (vin small_fs 0) = 12" "length (v_ei (vin small_fs 0)) = 128" "v_size (vin small_fs 0) = 0"
    by (simp_all add: small_fs_def)
  have "12 \<le> dind_limit small_fs" by (simp add: dind_limit_def per_block_def small_fs_def EXT2_NDIR_BLOCKS_def width)
  then have d: "5 + length [104, 105 :: byte] \<le> dind_limit small_fs * 1024" by simp
  have l: "5 + length [104, 105 :: byte] \<le> 4294967296 * 1024" "ind_limit small_fs \<le> dind_limit small_fs"
    "v_size (vin small_fs 0) \<le> dind_limit small_fs * 1024" "[104, 105 :: byte] \<noteq> []"
    using v(3) by (simp_all add: dind_limit_def ind_limit_def per_block_def small_fs_def EXT2_NDIR_BLOCKS_def width)
  have sl: "small.inode_slot small_meta small_fs (v_ino (vin small_fs 0))" using small_slot v(1) by (simp del: One_nat_def)
  obtain okk s' where w: "ext2_write (ram_driver 80) 0 [104, 105] (length [104, 105 :: byte]) 5 small_fs =
      Some (if okk then int (length [104, 105 :: byte]) else -1, if okk then 5 + length [104, 105 :: byte] else 5, s')"
    "okk \<longrightarrow> v_size (vin s' 0) = max (5 + length [104, 105 :: byte]) (v_size (vin small_fs 0)) \<and>
       (\<forall>n\<le>length [104, 105 :: byte]. ext2_read (ram_driver 80) s' 0 n 5 = Some (int n, take n [104, 105], 5 + n))"
    "5 + length [104, 105 :: byte] \<le> dind_limit small_fs * 1024 \<and>
       4 * card (small.blocks_of 5 (length [104, 105 :: byte])) < card {b. small.is_free small_fs b} \<longrightarrow> okk"
    using ext2_write_read [OF small.ext2_volume_axioms small_file [of 0] sl v(2) l] by blast
  have "okk" using w(3) d B small_free_card by simp
  have n: "length [104, 105 :: byte] = 2" by simp
  have "ext2_read (ram_driver 80) s' 0 2 5 = Some (2, [104, 105], 7)" "v_size (vin s' 0) = 7"
    using w(2) [rule_format, OF \<open>okk\<close>] v(3) unfolding n by (auto dest: spec [of _ 2])
  moreover have "ext2_write (ram_driver 80) 0 [104, 105] 2 5 small_fs = Some (2, 7, s')"
    using w(1) \<open>okk\<close> unfolding n by simp
  ultimately show ?thesis by blast
qed

end
