(* ===== verification/Spec2Isabelle.thy ===== *)
theory Spec2Isabelle
  imports CString Sched Bitmaps Locks Pipe Pty Cmos PageAlloc Fork BlockDev Ext2Dir Ext2Rw
begin

text \<open>
  A verification library for osx64, an x86-64 hobby operating system written in C.

  \<^bold>\<open>The program.\<close>  The kernel boots from multiboot (\<open>src/boot.asm\<close>, \<open>src/cstart.c\<close>), builds a table of
  page reference counts and page tables (\<open>src/mm\<close>), starts a preemptive multi-core scheduler with spin
  locks, mutexes and wait queues (\<open>src/task\<close>, \<open>src/lib\<close>, \<open>src/machine/time.c\<close>), finds disks and their
  partitions (\<open>src/fs/block.c\<close> above the AHCI and USB drivers) and mounts file systems below a virtual file
  system (\<open>src/fs\<close>): ext2 on partitions, a RAM file system, devices, pipes and pseudo terminals.  The
  programs under \<open>usr\<close> use it through system calls.

  \<^bold>\<open>Theories and sources.\<close>
  \<^item> \<open>Prelude\<close>: bytes, widths (\<open>u8\<close> to \<open>u64\<close>, \<open>sub32\<close>), field accesses of packed structures (\<open>get32\<close>,
    \<open>put32\<close>, \<open>slice\<close>, \<open>blit\<close>, collection \<open>overlay\<close>), the search loop \<open>first_from\<close>, and the locale
    \<open>invariant_system\<close> of a step relation with an invariant.
  \<^item> \<open>CString\<close>: \<open>src/lib/string.c\<close> over a byte-addressed memory.
  \<^item> \<open>DList\<close>: \<open>include/lib/my_list.h\<close>, every pointer assignment on an explicit store; \<open>Sched\<close>: wait queues
    and ready lists on these lists (\<open>src/lib/waitqueue.c\<close>, parts of \<open>src/task/task.c\<close> and
    \<open>src/machine/time.c\<close>).
  \<^item> \<open>Locks\<close>: \<open>src/lib/lock.c\<close> as step systems over any number of threads.
  \<^item> \<open>Ring\<close>: ring indices, the locale \<open>bounded_queue\<close> and the loops over such queues; \<open>Pipe\<close>:
    \<open>src/fs/pipe.c\<close>; \<open>Pty\<close>: \<open>src/console/pty.c\<close>.  Each ring of the code interprets \<open>bounded_queue\<close>.
  \<^item> \<open>Bitmaps\<close>: \<open>include/lib/bitmap.h\<close>; \<open>Cmos\<close>: \<open>src/machine/cmos.c\<close>; \<open>Printf\<close>: \<open>src/lib/printf.c\<close>.
  \<^item> \<open>PageAlloc\<close>: the physical page allocator of \<open>src/mm/mm.c\<close>; \<open>PageTable\<close>: the page table code of the
    same file; \<open>Paging\<close> and \<open>Fork\<close>: their correctness against the walk of the processor.
  \<^item> \<open>BlockDev\<close>: \<open>src/fs/block.c\<close> and the UUID functions of \<open>src/fs/ext2.c\<close>, with the locale
    \<open>reliable_disk\<close>, what the code relies on of a disk driver, and \<open>partition_on_disk\<close>, which makes every
    partition a reliable disk again.
  \<^item> \<open>Ext2Base\<close>, \<open>Ext2Map\<close>, \<open>Ext2File\<close>, \<open>Ext2Dir\<close>: \<open>src/fs/ext2.c\<close>; \<open>Ext2Alloc\<close>, \<open>Ext2Tree\<close>,
    \<open>Ext2Rw\<close>: the correctness of block allocation, of the block map and of reading and writing, in the
    locale \<open>ext2_volume\<close>, a volume on such a partition.

  \<^bold>\<open>Conventions.\<close>  A C function is a definition with its name; loops are recursive functions or folds in
  the order of the code; \<open>None\<close> is a run that does not return (\<open>halt()\<close>, an endless loop, a division by zero, an
  access outside a buffer).  A critical section under its lock is one step.  Hardware, disk drivers and the
  clock are parameters.  There is no fuel: loops that may run forever are \<open>partial_function (option)\<close>, and that
  they return is part of the theorems.

  \<^bold>\<open>What is shown.\<close>
  \<^item> Strings: \<open>memmove\<close> for any overlap, \<open>strcmp\<close>, \<open>strcpy\<close>, and that \<open>strtok_r\<close> splits a path.
  \<^item> Lists and scheduler: the pointer operations implement list operations; no operation of the
    scheduler loses or duplicates a task, except that a task leaves when it exits or calls \<open>schedule\<close> off every
    list; \<open>wake_up_all\<close> makes all waiters ready.
  \<^item> Locks: exclusion for spin locks, read/write locks and mutexes; a mutex waiter that can be
    lost and the unbalanced \<open>spin_trylock\<close>.
  \<^item> Pipes and terminals: order and completeness of the bytes, the line discipline refines an
    edited line, and a reader and a writer of a pipe that both sleep with no step left.
  \<^item> Bitmaps and clock: the first clear bit, the day count, the year lost at boot, the hours of
    the 12-hour format.
  \<^item> Formatted output: the code prints what the format means, inside its buffers.
  \<^item> Memory: the allocator finds a page or a run whenever there is one and its counts are exact; mapping, fork and release of an address space against the processor's walk.
  \<^item> Disks: scanning ends and registers the listed partitions, accesses through a partition, UUID texts.
  \<^item> ext2: allocation of blocks keeps bitmaps, counters and disk in step; a write is read back, with what
    happens to every other byte.

  \<^bold>\<open>Limits.\<close>  \<open>kfree_page\<close> and \<open>mrt_fill\<close> are the code's up to 1 TiB and 16 TiB of physical memory (see there).
  File positions are below \<open>2 ^ 32\<close> blocks.  Directory operations of ext2, truncation and mounting are modelled in
  full and have lemmas on single steps only.

  \<^bold>\<open>Not modelled.\<close>  Boot code, interrupt entry and task switch (assembly and register state); the drivers (AHCI,
  EHCI, UHCI, APIC, HPET, PCIe, keyboard, screen), which are programs over memory-mapped registers with no
  description under the sources; the virtual file system, the RAM and device file systems, the slab allocator and
  the heap, ELF loading, timers and the rest of task management (creation, exec, waitpid), which are left for
  later; the user programs.
\<close>

end
